(* ===== verification/Prelude.thy ===== *)
theory Prelude
  imports Main "HOL-Library.AList" "HOL-Library.Char_ord" "HOL-Library.List_Lexorder"
begin

text \<open>
  Shared vocabulary of the development: Python exceptions as values, the result type that
  replaces raising, insertion-ordered dictionaries, decimal formatting and a few facts on lists
  that several components use.

  \<^item> A Python \<open>str\<close> or \<open>bytes\<close> value is a \<open>string\<close> (a list of 8-bit characters): code points
    0 to 255 for \<open>str\<close>, byte values for \<open>bytes\<close>.
  \<^item> A Python \<open>int\<close> is an \<open>int\<close>; floor division and modulo are \<open>div\<close> and \<open>mod\<close>.
  \<^item> A Python \<open>dict\<close> whose order is observable is an association list written with
    \<open>AList.update\<close> (a present key keeps its position) and read with \<open>map_of\<close>.
\<close>

named_theorems py_simps \<open>evaluation rules of the shared Python helpers\<close>

section \<open>Exceptions as values\<close>

text \<open>
  What a \<open>StageError\<close> adds to an exception (duck-typed by the core: the attributes \<open>frames\<close>
  and \<open>op\<close>): the failing operation, the cause and the user frames.
\<close>

record user_frame =
  uf_filename :: string
  uf_lineno :: int
  uf_source :: string

record stage_info =
  si_op :: string
  si_cause_type :: string
  si_cause_message :: string
  si_frames :: "user_frame list"

text \<open>The dead-letter descriptor of a failed chunk, field by field.\<close>

record stage_descriptor =
  sd_op :: string
  sd_cause_type :: string
  sd_cause_message :: string
  sd_user_file :: string
  sd_user_line :: int
  sd_user_source :: string

record dead_letter =
  dl_task_id :: string
  dl_uri :: string
  dl_tree :: string
  dl_entry_start :: int
  dl_entry_stop :: int
  dl_error_type :: string
  dl_error_message :: string
  dl_stage_error :: "stage_descriptor option"

record failed_chunk =
  fc_partition :: string
  fc_error :: string
  fc_record :: dead_letter

text \<open>
  The exceptions. \<open>UserError\<close> is one that a supplied callable raised: its class name, its text,
  for a \<open>StageError\<close> the structured part, and the \<open>partition\<close> attribute a lost worker's error
  carries (empty where there is none). A \<open>KeyError\<close> holds its text, the key's \<open>repr\<close>. \<open>Interrupt\<close> is a \<open>BaseException\<close> that is not an
  \<open>Exception\<close> (a keyboard interrupt, an exit, the simulated kill); the others are raised by the
  modelled code itself, with their message.
\<close>

datatype exn =
    UserError string string "stage_info option" string
  | Interrupt string
  | ValueError string
  | TypeError string
  | KeyError string
  | IndexError string
  | AttributeError string
  | OSError string
  | PermissionError string
  | AssertionError string
  | ZeroDivisionError string
  | FileNotFoundError string
  | GraphedError string
  | PackKeyOverflowError string
  | OverflowError string
  | StoreUnavailableError string
  | EnvironmentChangedError string
  | UnboundServiceError "string list"
  | TooManyFailedChunksError "failed_chunk list"

type_synonym 'a result = "exn + 'a"

text \<open>\<open>except Exception\<close> catches everything but an \<open>Interrupt\<close>.\<close>

fun is_exception :: "exn \<Rightarrow> bool" where
  "is_exception (Interrupt _) = False"
| "is_exception _ = True"

section \<open>Results\<close>

definition result_bind :: "'e + 'a \<Rightarrow> ('a \<Rightarrow> 'e + 'b) \<Rightarrow> 'e + 'b" where
  "result_bind r f = (case r of Inl e \<Rightarrow> Inl e | Inr x \<Rightarrow> f x)"

lemma result_bind_simps [simp, py_simps]:
  "result_bind (Inl e) f = Inl e" "result_bind (Inr x) f = f x"
  by (simp_all add: result_bind_def)

lemma result_bind_Inr_iff:
  "result_bind r f = Inr y \<longleftrightarrow> (\<exists>x. r = Inr x \<and> f x = Inr y)"
  by (cases r) auto

fun traverse :: "('a \<Rightarrow> 'e + 'b) \<Rightarrow> 'a list \<Rightarrow> 'e + 'b list" where
  "traverse f [] = Inr []"
| "traverse f (x # xs) =
     result_bind (f x) (\<lambda>y. result_bind (traverse f xs) (\<lambda>ys. Inr (y # ys)))"

lemma traverse_Inr: "traverse (\<lambda>x. Inr (f x)) xs = Inr (map f xs)"
  by (induction xs) auto

lemma traverse_map_cong:
  "(\<And>x. x \<in> set xs \<Longrightarrow> f (g x) = Inr (h x)) \<Longrightarrow> traverse f (map g xs) = Inr (map h xs)"
  by (induction xs) auto

lemma traverse_length: "traverse f xs = Inr ys \<Longrightarrow> length ys = length xs"
  by (induction xs arbitrary: ys) (auto simp: result_bind_Inr_iff)

lemma traverse_Inr_map: "(\<And>x. x \<in> set xs \<Longrightarrow> f x = Inr (g x)) \<Longrightarrow> traverse f xs = Inr (map g xs)"
  by (induction xs) auto

lemma traverse_map: "traverse f (map g xs) = traverse (\<lambda>x. f (g x)) xs"
  by (induction xs) simp_all

lemma traverse_all2: "traverse f xs = Inr ys \<Longrightarrow> list_all2 (\<lambda>x y. f x = Inr y) xs ys"
  by (induction xs arbitrary: ys) (auto simp: result_bind_Inr_iff)

section \<open>Actions\<close>

text \<open>
  Code that may raise and that changes a state: an action returns a result and the state, which is
  the state at the raise where it raised. \<open>act_finally m f\<close> runs \<open>f\<close> however \<open>m\<close> ended.
\<close>

type_synonym ('a, 's) action = "'s \<Rightarrow> 'a result \<times> 's"

definition act_return :: "'a \<Rightarrow> ('a, 's) action" where
  "act_return x = (\<lambda>s. (Inr x, s))"

definition act_raise :: "exn \<Rightarrow> ('a, 's) action" where
  "act_raise e = (\<lambda>s. (Inl e, s))"

definition act_lift :: "'a result \<Rightarrow> ('a, 's) action" where
  "act_lift r = (\<lambda>s. (r, s))"

definition act_bind :: "('a, 's) action \<Rightarrow> ('a \<Rightarrow> ('b, 's) action) \<Rightarrow> ('b, 's) action" where
  "act_bind m f = (\<lambda>s. case m s of (Inl e, s') \<Rightarrow> (Inl e, s') | (Inr x, s') \<Rightarrow> f x s')"

definition act_then :: "('a, 's) action \<Rightarrow> ('b, 's) action \<Rightarrow> ('b, 's) action" where
  "act_then m k = act_bind m (\<lambda>_. k)"

text \<open>\<open>try: m; except Exception as exc: h exc\<close>, and \<open>try: m; finally: f\<close>.\<close>

definition act_except :: "('a, 's) action \<Rightarrow> (exn \<Rightarrow> ('a, 's) action) \<Rightarrow> ('a, 's) action" where
  "act_except m h = (\<lambda>s. case m s of (Inl e, s') \<Rightarrow> if is_exception e then h e s' else (Inl e, s') | r \<Rightarrow> r)"

definition act_finally :: "('a, 's) action \<Rightarrow> ('s \<Rightarrow> 's) \<Rightarrow> ('a, 's) action" where
  "act_finally m f = (\<lambda>s. case m s of (r, s') \<Rightarrow> (r, f s'))"

fun act_each :: "('x \<Rightarrow> (unit, 's) action) \<Rightarrow> 'x list \<Rightarrow> (unit, 's) action" where
  "act_each f [] = act_return ()"
| "act_each f (x # xs) = act_then (f x) (act_each f xs)"

named_theorems action_simps \<open>evaluation of actions\<close>

lemma act_eval [action_simps]:
  "act_return x s = (Inr x, s)" "act_raise e s = (Inl e, s)" "act_lift r s = (r, s)"
  "act_bind m f s = (case m s of (Inl e, s') \<Rightarrow> (Inl e, s') | (Inr x, s') \<Rightarrow> f x s')"
  "act_then m k s = (case m s of (Inl e, s') \<Rightarrow> (Inl e, s') | (Inr x, s') \<Rightarrow> k s')"
  "act_except m h s = (case m s of (Inl e, s') \<Rightarrow> if is_exception e then h e s' else (Inl e, s') | (Inr x, s') \<Rightarrow> (Inr x, s'))"
  "act_finally m g s = (fst (m s), g (snd (m s)))"
  by (auto simp: act_return_def act_raise_def act_lift_def act_bind_def act_then_def act_except_def
      act_finally_def split: prod.splits sum.splits)

lemma act_bind_Inr: "act_bind m f s = (Inr y, s') \<longleftrightarrow> (\<exists>x t. m s = (Inr x, t) \<and> f x t = (Inr y, s'))"
  by (auto simp: act_bind_def split: prod.splits sum.splits)

lemma act_bind_assoc: "act_bind (act_bind m f) g = act_bind m (\<lambda>x. act_bind (f x) g)"
  by (auto simp: act_bind_def fun_eq_iff split: prod.splits sum.splits)

section \<open>Decimal numerals\<close>

definition digit :: "nat \<Rightarrow> char" where
  "digit n = char_of (48 + n mod 10)"

fun dec_nat :: "nat \<Rightarrow> string" where
  "dec_nat n = (if n < 10 then [digit n] else dec_nat (n div 10) @ [digit n])"

declare dec_nat.simps [simp del]

definition dec :: "int \<Rightarrow> string" where
  "dec i = (if i < 0 then CHR ''-'' # dec_nat (nat (- i)) else dec_nat (nat i))"

definition is_digit :: "char \<Rightarrow> bool" where
  "is_digit c \<longleftrightarrow> (48 :: nat) \<le> of_char c \<and> of_char c \<le> (57 :: nat)"

definition digit_val :: "char \<Rightarrow> nat" where
  "digit_val c = of_char c - 48"

definition undec :: "string \<Rightarrow> nat" where
  "undec s = foldl (\<lambda>n c. 10 * n + digit_val c) 0 s"

lemma of_char_digit [simp]: "of_char (digit n) = (48 + n mod 10 :: nat)"
proof -
  have "(48 + n mod 10) mod 256 = 48 + n mod 10" by simp
  then show ?thesis by (simp add: digit_def of_char_of)
qed

lemma is_digit_digit [simp]: "is_digit (digit n)"
  by (simp add: is_digit_def)

lemma digit_val_digit [simp]: "digit_val (digit n) = n mod 10"
  by (simp add: digit_val_def)

lemma dec_nat_digits: "c \<in> set (dec_nat n) \<Longrightarrow> is_digit c"
proof (induction n rule: dec_nat.induct)
  case (1 n)
  then show ?case by (cases "n < 10") (auto simp: dec_nat.simps [of n])
qed

lemma dec_nat_nonempty [simp]: "dec_nat n \<noteq> []"
  by (subst dec_nat.simps) simp

lemma undec_snoc: "undec (s @ [c]) = 10 * undec s + digit_val c"
  by (simp add: undec_def)

lemma undec_dec_nat [simp]: "undec (dec_nat n) = n"
proof (induction n rule: dec_nat.induct)
  case (1 n)
  show ?case
  proof (cases "n < 10")
    case True
    then have "undec (dec_nat n) = undec ([] @ [digit n])" by (simp add: dec_nat.simps [of n])
    with True show ?thesis by (simp only: undec_snoc) (simp add: undec_def)
  next
    case False
    with 1 show ?thesis by (simp add: dec_nat.simps [of n] undec_snoc)
  qed
qed

lemma dec_nat_inject [simp]: "dec_nat m = dec_nat n \<longleftrightarrow> m = n"
  by (metis undec_dec_nat)

lemma minus_not_digit: "\<not> is_digit (CHR ''-'')"
  by (simp add: is_digit_def)

lemma dec_nonempty [simp]: "dec i \<noteq> []"
  by (simp add: dec_def)

lemma dec_inject [simp]: "dec i = dec j \<longleftrightarrow> i = j"
proof
  assume eq: "dec i = dec j"
  have head: "hd (dec k) = CHR ''-'' \<longleftrightarrow> k < 0" for k
  proof (cases "k < 0")
    case False
    then have "hd (dec k) \<in> set (dec_nat (nat k))" by (simp add: dec_def)
    then have "is_digit (hd (dec k))" by (rule dec_nat_digits)
    with False show ?thesis using minus_not_digit by auto
  qed (simp add: dec_def)
  from eq head [of i] head [of j] have "i < 0 \<longleftrightarrow> j < 0" by simp
  with eq show "i = j" by (cases "i < 0") (auto simp: dec_def)
qed simp

text \<open>The format \<open>{i:05d}\<close>: zeros after the sign, up to a total width of five.\<close>

definition pad_zeros :: "nat \<Rightarrow> string \<Rightarrow> string" where
  "pad_zeros w s = replicate (w - length s) (CHR ''0'') @ s"

definition fmt05d :: "int \<Rightarrow> string" where
  "fmt05d i = (if i < 0 then CHR ''-'' # pad_zeros 4 (dec_nat (nat (- i)))
               else pad_zeros 5 (dec_nat (nat i)))"

lemma undec_pad_zeros [simp]: "undec (pad_zeros w s) = undec s"
proof -
  have "foldl (\<lambda>n c. 10 * n + digit_val c) 0 (replicate k (CHR ''0'')) = 0" for k
    by (induction k) (auto simp: digit_val_def)
  then show ?thesis by (simp add: undec_def pad_zeros_def)
qed

lemma fmt05d_inject_nonneg:
  assumes "0 \<le> i" "0 \<le> j" "fmt05d i = fmt05d j"
  shows "i = j"
proof -
  from assms have "undec (fmt05d i) = undec (fmt05d j)" by simp
  with assms(1,2) show ?thesis by (simp add: fmt05d_def)
qed

section \<open>Strings\<close>

text \<open>\<open>repr\<close> of a \<open>str\<close> over the 8-bit characters: single quotes unless only double quotes avoid escaping.\<close>

definition hex_digit :: "nat \<Rightarrow> char" where
  "hex_digit n = (if n < 10 then char_of (48 + n) else char_of (87 + n))"

definition repr_char :: "char \<Rightarrow> char \<Rightarrow> string" where
  "repr_char q c =
     (if c = q \<or> c = CHR 0x5C then [CHR 0x5C, c]
      else if c = CHR 0x0A then [CHR 0x5C, CHR ''n'']
      else if c = CHR 0x0D then [CHR 0x5C, CHR ''r'']
      else if c = CHR 0x09 then [CHR 0x5C, CHR ''t'']
      else if of_char c < (32 :: nat) \<or> (127 \<le> (of_char c :: nat) \<and> of_char c < (161 :: nat))
              \<or> of_char c = (173 :: nat)
      then [CHR 0x5C, CHR ''x'', hex_digit (of_char c div 16), hex_digit (of_char c mod 16)]
      else [c])"

definition py_repr :: "string \<Rightarrow> string" where
  "py_repr s =
     (let q = (if CHR 0x27 \<in> set s \<and> CHR 0x22 \<notin> set s then CHR 0x22 else CHR 0x27)
      in q # concat (map (repr_char q) s) @ [q])"

text \<open>\<open>sep.join(parts)\<close>.\<close>

fun str_join :: "string \<Rightarrow> string list \<Rightarrow> string" where
  "str_join sep [] = []"
| "str_join sep [x] = x"
| "str_join sep (x # y # xs) = x @ sep @ str_join sep (y # xs)"

text \<open>\<open>s.partition(sep)\<close>: the text before the first \<open>sep\<close>, whether it was found, and the text after it.\<close>

fun starts_with :: "string \<Rightarrow> string \<Rightarrow> bool" where
  "starts_with [] s = True"
| "starts_with (c # cs) [] = False"
| "starts_with (c # cs) (d # ds) = (c = d \<and> starts_with cs ds)"

fun str_partition :: "string \<Rightarrow> string \<Rightarrow> string \<times> bool \<times> string" where
  "str_partition sep [] = (if sep = [] then ([], True, []) else ([], False, []))"
| "str_partition sep (c # cs) =
     (if starts_with sep (c # cs) then ([], True, drop (length sep) (c # cs))
      else (let (a, found, b) = str_partition sep cs in (c # a, found, b)))"

lemma starts_with_iff: "starts_with p s \<longleftrightarrow> (\<exists>t. s = p @ t)"
  by (induction p s rule: starts_with.induct) auto

lemma str_partition_found:
  "str_partition sep s = (a, True, b) \<Longrightarrow> s = a @ sep @ b"
proof (induction s arbitrary: a)
  case Nil
  then show ?case by (auto split: if_splits)
next
  case (Cons c cs)
  then show ?case by (auto simp: starts_with_iff split: if_splits prod.splits)
qed

text \<open>\<open>substr in s\<close>, \<open>s.strip(c)\<close> and \<open>s.rstrip(c)\<close> for one character.\<close>

fun str_contains :: "string \<Rightarrow> string \<Rightarrow> bool" where
  "str_contains sub [] = (sub = [])"
| "str_contains sub (c # cs) = (starts_with sub (c # cs) \<or> str_contains sub cs)"

definition rstrip :: "char \<Rightarrow> string \<Rightarrow> string" where
  "rstrip c s = rev (dropWhile (\<lambda>d. d = c) (rev s))"

definition strip :: "char \<Rightarrow> string \<Rightarrow> string" where
  "strip c s = rstrip c (dropWhile (\<lambda>d. d = c) s)"

section \<open>Lists and dictionaries\<close>

text \<open>\<open>enumerate(xs)\<close> starts at 0.\<close>

definition py_enumerate :: "'a list \<Rightarrow> (int \<times> 'a) list" where
  "py_enumerate xs = zip (map int [0..<length xs]) xs"

lemma length_py_enumerate [simp]: "length (py_enumerate xs) = length xs"
  by (simp add: py_enumerate_def)

lemma map_fst_py_enumerate: "map fst (py_enumerate xs) = map int [0..<length xs]"
  by (simp add: py_enumerate_def)

lemma map_snd_py_enumerate [simp]: "map snd (py_enumerate xs) = xs"
  by (simp add: py_enumerate_def)

lemma sorted_map_fst_py_enumerate: "sorted (map fst (py_enumerate xs))"
  by (simp add: map_fst_py_enumerate)
     (metis (no_types, lifting) le_less of_nat_le_iff sorted_upt sorted_map sorted_wrt_mono_rel)

lemma sort_key_sorted [simp]: "sorted (map f xs) \<Longrightarrow> sort_key f xs = xs"
  by (simp add: sort_key_id_if_sorted)

text \<open>\<open>{**a, **b}\<close>: the entries of \<open>a\<close> in place, overwritten and extended by those of \<open>b\<close>.\<close>

definition dict_merge :: "('k \<times> 'v) list \<Rightarrow> ('k \<times> 'v) list \<Rightarrow> ('k \<times> 'v) list" where
  "dict_merge a b = foldl (\<lambda>d (k, v). AList.update k v d) a b"

text \<open>\<open>d.setdefault(k, v)\<close> as a statement: a present key keeps its value.\<close>

definition dict_setdefault :: "'k \<Rightarrow> 'v \<Rightarrow> ('k \<times> 'v) list \<Rightarrow> ('k \<times> 'v) list" where
  "dict_setdefault k v d = (case map_of d k of None \<Rightarrow> d @ [(k, v)] | Some _ \<Rightarrow> d)"

lemma map_of_dict_merge: "map_of (dict_merge a b) = map_of a ++ map_of (rev b)"
proof (induction b arbitrary: a)
  case (Cons p b)
  obtain k v where p: "p = (k, v)" by (cases p)
  have "map_of (dict_merge a (p # b)) = map_of (dict_merge (AList.update k v a) b)"
    by (simp add: dict_merge_def p)
  also have "\<dots> = map_of (AList.update k v a) ++ map_of (rev b)" by (rule Cons.IH)
  also have "\<dots> = map_of a ++ map_of (rev (p # b))"
    by (auto simp: p update_conv' map_add_def fun_eq_iff split: option.splits)
  finally show ?case .
qed (simp add: dict_merge_def)

lemma map_of_rev_distinct: "distinct (map fst b) \<Longrightarrow> map_of (rev b) = map_of b"
  by (simp add: map_of_inject_set rev_map [symmetric])

end
