(* ===== verification/Partitioning.thy ===== *)
theory Partitioning
  imports Prelude
begin

text \<open>
  Units of input work and the ways the code cuts an input into them: the record \<open>Partition\<close> of
  \<open>core/execution.py\<close> (with blind partitions, resolved when they are read), the dataset
  partitioning of \<open>core/plan.py\<close>, the sub-ranges a retry splits a chunk into
  (\<open>checkpoint/retry.py\<close>), the even steps of \<open>write.py\<close> and \<open>parquet.py\<close>, and the index and
  path a writer derives from its own partition.

  All four cutters share one contract, the locale \<open>tiling\<close>: a non-decreasing sequence of bounds,
  whose ranges read every entry between the first and the last bound exactly once and in order.
\<close>

section \<open>Partitions\<close>

record partition =
  uri :: string
  tree :: string
  entry_start :: int
  entry_stop :: int
  blind_step :: "int option"
  blind_n_steps :: "int option"
  blind_limit :: "int option"

definition mk_partition :: "string \<Rightarrow> string \<Rightarrow> int \<Rightarrow> int \<Rightarrow> partition" where
  "mk_partition u t a b =
     \<lparr>uri = u, tree = t, entry_start = a, entry_stop = b,
      blind_step = None, blind_n_steps = None, blind_limit = None\<rparr>"

definition partition_blind :: "string \<Rightarrow> string \<Rightarrow> int \<Rightarrow> int \<Rightarrow> partition result" where
  "partition_blind u t step n_steps =
     (if n_steps < 1 \<or> \<not> (0 \<le> step \<and> step < n_steps)
      then Inl (ValueError (''blind partition needs 0 <= step < n_steps, got '' @ dec step @ ''/'' @ dec n_steps))
      else Inr (mk_partition u t 0 0\<lparr>blind_step := Some step, blind_n_steps := Some n_steps\<rparr>))"

definition is_blind :: "partition \<Rightarrow> bool" where
  "is_blind p \<longleftrightarrow> blind_step p \<noteq> None \<and> blind_limit p = None"

definition resolve :: "partition \<Rightarrow> int \<Rightarrow> partition result" where
  "resolve p num_entries =
     (case (blind_step p, blind_n_steps p) of
        (Some step, Some n_steps) \<Rightarrow>
          (if n_steps = 0 then Inl (ZeroDivisionError ''integer division or modulo by zero'')
           else (let start = (step * num_entries) div n_steps;
                     stop = ((step + 1) * num_entries) div n_steps;
                     stop = (case blind_limit p of None \<Rightarrow> stop | Some l \<Rightarrow> min stop (start + l))
                 in Inr (mk_partition (uri p) (tree p) start stop)))
      | _ \<Rightarrow> Inr p)"

definition first :: "partition \<Rightarrow> int \<Rightarrow> partition" where
  "first p n =
     (if blind_step p \<noteq> None
      then p\<lparr>blind_limit := Some (case blind_limit p of None \<Rightarrow> n | Some l \<Rightarrow> min n l)\<rparr>
      else p\<lparr>entry_stop := min (entry_stop p) (entry_start p + n)\<rparr>)"

definition n_entries :: "partition \<Rightarrow> int" where
  "n_entries p = max 0 (entry_stop p - entry_start p)"

record task =
  task_key :: int
  task_partition :: partition

text \<open>Labels shown to the user: \<open>str(None)\<close> is \<open>None\<close>.\<close>

definition opt_dec :: "int option \<Rightarrow> string" where
  "opt_dec x = (case x of None \<Rightarrow> ''None'' | Some i \<Rightarrow> dec i)"

definition partition_label :: "partition \<Rightarrow> string" where
  "partition_label p =
     (case blind_step p of
        Some s \<Rightarrow> uri p @ '':'' @ tree p @ '':'' @ dec s @ ''/'' @ opt_dec (blind_n_steps p)
      | None \<Rightarrow> uri p @ '':'' @ tree p @ '':'' @ dec (entry_start p) @ ''-'' @ dec (entry_stop p))"

definition entries_text :: "partition \<Rightarrow> string" where
  "entries_text p = '' (entries '' @ dec (entry_start p) @ ''-'' @ dec (entry_stop p) @ '')''"

definition chunk_label :: "partition \<Rightarrow> int option \<Rightarrow> int option \<Rightarrow> string result" where
  "chunk_label p file_entries rows =
     (let t = fst (str_partition '';'' (strip (CHR ''/'') (tree p)));
          name = (if t \<noteq> [] then uri p @ '':'' @ t else uri p)
      in if \<not> is_blind p then Inr (name @ entries_text p)
         else (let chunk = ''chunk '' @ dec (the (blind_step p) + 1) @ ''/''
                             @ opt_dec (blind_n_steps p) @ '' of '' @ name
               in case file_entries of
                    Some n \<Rightarrow> result_bind (resolve p n) (\<lambda>known. Inr (chunk @ entries_text known))
                  | None \<Rightarrow> Inr (case rows of None \<Rightarrow> chunk
                                 | Some r \<Rightarrow> chunk @ '' ('' @ dec r @ '' entries)'')))"

text \<open>
  A capped blind partition is not \<open>is_blind\<close>, so its label shows the range it has before it is read:
  every capped step of one file is labelled with the same empty range, whatever the file holds.
\<close>

lemma capped_label_shows_no_range:
  assumes "blind_step p = Some s" "blind_n_steps p = Some n" "n \<noteq> 0"
    and "blind_limit p = None" "entry_start p = 0" "entry_stop p = 0"
  shows "chunk_label (first p k) (Some m) rows = chunk_label (mk_partition (uri p) (tree p) 0 0) None None"
    and "resolve (first p k) m = Inr (mk_partition (uri p) (tree p) ((s * m) div n)
           (min (((s + 1) * m) div n) ((s * m) div n + k)))"
  using assms
  by (simp_all add: chunk_label_def first_def is_blind_def entries_text_def resolve_def mk_partition_def Let_def)

text \<open>
  The partitions the code builds: plain ones carry no blind field, blind ones a step within their
  step count and an empty range.
\<close>

definition wf_partition :: "partition \<Rightarrow> bool" where
  "wf_partition p =
     (case blind_step p of
        None \<Rightarrow> blind_n_steps p = None \<and> blind_limit p = None
      | Some s \<Rightarrow> (case blind_n_steps p of
                     None \<Rightarrow> False
                   | Some k \<Rightarrow> 0 \<le> s \<and> s < k \<and> entry_start p = 0 \<and> entry_stop p = 0))"

lemma mk_partition_simps [simp]:
  "uri (mk_partition u t a b) = u" "tree (mk_partition u t a b) = t"
  "entry_start (mk_partition u t a b) = a" "entry_stop (mk_partition u t a b) = b"
  "blind_step (mk_partition u t a b) = None" "blind_n_steps (mk_partition u t a b) = None"
  "blind_limit (mk_partition u t a b) = None"
  by (simp_all add: mk_partition_def)

lemma mk_partition_inject [simp]:
  "mk_partition u t a b = mk_partition u' t' a' b' \<longleftrightarrow> u = u' \<and> t = t' \<and> a = a' \<and> b = b'"
  by (auto simp: mk_partition_def)

lemma wf_mk_partition [simp, intro]: "wf_partition (mk_partition u t a b)"
  by (simp add: wf_partition_def)

lemma wf_partition_blind: "partition_blind u t s k = Inr p \<Longrightarrow> wf_partition p"
  by (auto simp: partition_blind_def wf_partition_def split: if_splits)

lemma wf_first: "wf_partition p \<Longrightarrow> wf_partition (first p n)"
  by (auto simp: wf_partition_def first_def split: option.splits)

lemma resolve_wf: "wf_partition p \<Longrightarrow> \<exists>q. resolve p n = Inr q \<and> wf_partition q \<and> blind_step q = None"
  by (cases "blind_step p"; cases "blind_n_steps p")
     (auto simp: wf_partition_def resolve_def Let_def)

lemma resolve_plain: "blind_step p = None \<Longrightarrow> resolve p n = Inr p"
  by (simp add: resolve_def)

section \<open>The tiling contract\<close>

text \<open>The entries a half-open range reads, in order.\<close>

definition range_entries :: "int \<times> int \<Rightarrow> int list" where
  "range_entries r = [fst r..snd r - 1]"

definition part_entries :: "partition \<Rightarrow> int list" where
  "part_entries p = [entry_start p..entry_stop p - 1]"

lemma part_entries_mk [simp]: "part_entries (mk_partition u t a b) = range_entries (a, b)"
  by (simp add: part_entries_def range_entries_def)

lemma length_range_entries: "int (length (range_entries (a, b))) = max 0 (b - a)"
  by (simp add: range_entries_def)

lemma range_entries_append:
  assumes "a \<le> b" "b \<le> c"
  shows "range_entries (a, b) @ range_entries (b, c) = range_entries (a, c)"
proof (cases "a = b \<or> b = c")
  case False
  with assms show ?thesis
    using upto_split2 [of a "b - 1" "c - 1"] by (simp add: range_entries_def)
qed (auto simp: range_entries_def)

locale tiling =
  fixes bound :: "nat \<Rightarrow> int" and cells :: nat
  assumes bound_mono: "i < cells \<Longrightarrow> bound i \<le> bound (Suc i)"
begin

definition cell :: "nat \<Rightarrow> int \<times> int" where
  "cell i = (bound i, bound (Suc i))"

lemma bound_le: "i \<le> j \<Longrightarrow> j \<le> cells \<Longrightarrow> bound i \<le> bound j"
proof (induction j)
  case (Suc j)
  then show ?case using bound_mono [of j] by (auto simp: le_Suc_eq)
qed simp

lemma entries_prefix: "k \<le> cells \<Longrightarrow> concat (map (\<lambda>i. range_entries (cell i)) [0..<k]) = range_entries (bound 0, bound k)"
proof (induction k)
  case 0
  then show ?case by (simp add: range_entries_def)
next
  case (Suc k)
  then show ?case
    using bound_le [of 0 k] bound_mono [of k] by (simp add: cell_def range_entries_append)
qed

text \<open>Every entry exactly once, in order.\<close>

lemma entries_concat:
  "concat (map (\<lambda>i. range_entries (cell i)) [0..<cells]) = range_entries (bound 0, bound cells)"
  by (rule entries_prefix) simp

text \<open>Dropping empty cells loses nothing.\<close>

lemma entries_concat_nonempty:
  "concat (map (\<lambda>i. range_entries (cell i)) (List.filter (\<lambda>i. bound i < bound (Suc i)) [0..<cells]))
   = range_entries (bound 0, bound cells)"
proof -
  have "concat (map f (List.filter P xs)) = concat (map f xs)"
    if "\<And>x. x \<in> set xs \<Longrightarrow> \<not> P x \<Longrightarrow> f x = []" for f :: "nat \<Rightarrow> int list" and P xs
    using that by (induction xs) auto
  then show ?thesis by (subst entries_concat [symmetric]) (simp add: cell_def range_entries_def)
qed

text \<open>Two cells that share an entry are the same cell.\<close>

lemma cell_disjoint:
  assumes "i < cells" "j < cells" "x \<in> set (range_entries (cell i))" "x \<in> set (range_entries (cell j))"
  shows "i = j"
proof (rule ccontr)
  assume "i \<noteq> j"
  then consider "Suc i \<le> j" | "Suc j \<le> i" by linarith
  then show False
    using assms bound_le [of "Suc i" j] bound_le [of "Suc j" i]
    by cases (auto simp: cell_def range_entries_def)
qed

text \<open>A non-empty cell is determined by its range.\<close>

lemma cell_inject:
  assumes "i < cells" "j < cells" "cell i = cell j" "fst (cell i) < snd (cell i)"
  shows "i = j"
proof (rule cell_disjoint)
  show "fst (cell i) \<in> set (range_entries (cell i))"
    using assms(4) by (simp add: range_entries_def)
  then show "fst (cell i) \<in> set (range_entries (cell j))" using assms(3) by simp
qed (use assms in auto)

end

section \<open>Blind steps\<close>

text \<open>The bound of step \<open>s\<close> of \<open>k\<close> over \<open>n\<close> entries, as \<open>Partition.resolve\<close> and \<open>eager_ranges\<close> compute it.\<close>

definition step_bound :: "int \<Rightarrow> int \<Rightarrow> nat \<Rightarrow> int" where
  "step_bound n k s = (int s * n) div k"

interpretation even_steps: tiling "step_bound (int n) (int k)" k for n k :: nat
  by unfold_locales (auto simp: step_bound_def algebra_simps intro!: zdiv_mono1)

lemma step_bound_0 [simp]: "step_bound n k 0 = 0"
  by (simp add: step_bound_def)

lemma step_bound_last [simp]: "k \<noteq> 0 \<Longrightarrow> step_bound n (int k) k = n"
  by (simp add: step_bound_def)

text \<open>Resolving the blind step \<open>s\<close> of \<open>k\<close> gives that cell.\<close>

lemma resolve_blind:
  assumes "partition_blind u t (int s) (int k) = Inr p"
  shows "resolve p n = Inr (mk_partition u t (step_bound n (int k) s) (step_bound n (int k) (Suc s)))"
  using assms
  by (auto simp: partition_blind_def resolve_def step_bound_def Let_def add.commute split: if_splits)

section \<open>Datasets\<close>

record dataset =
  ds_uri :: string
  ds_n_events :: int
  ds_tree :: string
  ds_name :: string

text \<open>The loop \<open>while start < n_events\<close> of \<open>partition_dataset\<close>, run only with a positive chunk size.\<close>

function chunk_loop :: "dataset \<Rightarrow> int \<Rightarrow> int \<Rightarrow> partition list" where
  "chunk_loop ds chunk_size start =
     (if start < ds_n_events ds \<and> 0 < chunk_size
      then (let stop = min (start + chunk_size) (ds_n_events ds)
            in mk_partition (ds_uri ds) (ds_tree ds) start stop # chunk_loop ds chunk_size stop)
      else [])"
  by pat_completeness auto
termination
  by (relation "measure (\<lambda>(ds, c, start). nat (ds_n_events ds - start))") (auto simp: Let_def)

declare chunk_loop.simps [simp del]

definition partition_dataset :: "dataset \<Rightarrow> int \<Rightarrow> partition list result" where
  "partition_dataset ds chunk_size =
     (if chunk_size \<le> 0 then Inl (ValueError ''chunk_size must be positive'')
      else Inr (chunk_loop ds chunk_size 0))"

fun partition_datasets :: "dataset list \<Rightarrow> int \<Rightarrow> partition list result" where
  "partition_datasets [] chunk_size = Inr []"
| "partition_datasets (ds # dss) chunk_size =
     result_bind (partition_dataset ds chunk_size)
       (\<lambda>ps. result_bind (partition_datasets dss chunk_size) (\<lambda>qs. Inr (ps @ qs)))"

text \<open>The chunks are the cells of these bounds.\<close>

definition chunk_bound :: "int \<Rightarrow> int \<Rightarrow> int \<Rightarrow> nat \<Rightarrow> int" where
  "chunk_bound start c n i = min (start + int i * c) n"

definition chunk_count :: "int \<Rightarrow> int \<Rightarrow> nat" where
  "chunk_count c n = nat ((n + c - 1) div c)"

interpretation chunks: tiling "chunk_bound start (int c) n" k for start n :: int and c k :: nat
  by unfold_locales (auto simp: chunk_bound_def algebra_simps)

lemma chunk_count_nonpos [simp]: "0 < c \<Longrightarrow> m \<le> 0 \<Longrightarrow> chunk_count c m = 0"
proof -
  assume "0 < c" "m \<le> 0"
  then have "(m + c - 1) div c \<le> (c - 1) div c" by (intro zdiv_mono1) auto
  also have "\<dots> = 0" using \<open>0 < c\<close> by simp
  finally show ?thesis by (simp add: chunk_count_def)
qed

lemma chunk_count_step:
  assumes "0 < c" "0 < m"
  shows "chunk_count c m = Suc (chunk_count c (m - c))"
proof -
  have "(m + c - 1) div c = (m - 1) div c + 1"
    using assms(1) div_add_self2 [of c "m - 1"] by (simp add: algebra_simps)
  moreover have "0 \<le> (m - 1) div c"
    using assms by (simp add: pos_imp_zdiv_nonneg_iff)
  ultimately show ?thesis by (simp add: chunk_count_def nat_add_distrib)
qed

lemma chunk_loop_cells:
  assumes "0 < c"
  shows "chunk_loop ds c start =
    map (\<lambda>i. mk_partition (ds_uri ds) (ds_tree ds)
                (chunk_bound start c (ds_n_events ds) i) (chunk_bound start c (ds_n_events ds) (Suc i)))
        [0..<chunk_count c (ds_n_events ds - start)]"
  using assms
proof (induction ds c start rule: chunk_loop.induct)
  case (1 ds c start)
  let ?n = "ds_n_events ds" and ?b = "\<lambda>s i. chunk_bound s c (ds_n_events ds) i"
  show ?case
  proof (cases "start < ?n")
    case True
    define stop where "stop = min (start + c) ?n"
    have IH: "chunk_loop ds c stop =
        map (\<lambda>i. mk_partition (ds_uri ds) (ds_tree ds) (?b stop i) (?b stop (Suc i))) [0..<chunk_count c (?n - stop)]"
      using 1 True by (simp add: stop_def)
    have count: "chunk_count c (?n - start) = Suc (chunk_count c (?n - stop))"
      using True 1(2) chunk_count_step [of c "?n - start"]
      by (cases "start + c \<le> ?n") (auto simp: stop_def min_def algebra_simps)
    have shift: "?b stop i = ?b start (Suc i)" for i
    proof -
      have "0 \<le> int i * c" using 1(2) by simp
      then show ?thesis by (auto simp: chunk_bound_def stop_def min_def algebra_simps)
    qed
    show ?thesis
      using True 1(2)
      by (simp add: chunk_loop.simps [of ds c start] Let_def stop_def [symmetric] IH count shift
          upt_conv_Cons map_Suc_upt [symmetric] del: upt_Suc)
         (simp add: chunk_bound_def stop_def)
  next
    case False
    with 1(2) show ?thesis by (simp add: chunk_loop.simps)
  qed
qed

text \<open>Every event of the dataset is read by exactly one chunk, in order.\<close>

lemma chunk_loop_entries:
  assumes "0 < c"
  shows "concat (map part_entries (chunk_loop ds c 0)) = range_entries (0, ds_n_events ds)"
proof -
  let ?n = "ds_n_events ds" and ?k = "chunk_count c (ds_n_events ds)"
  obtain m where c: "c = int m" using assms by (metis zero_less_imp_eq_int)
  have end_bound: "chunk_bound 0 c ?n ?k = ?n \<or> ?n \<le> 0"
  proof (cases "?n \<le> 0")
    case False
    have "?n \<le> ((?n + c - 1) div c) * c"
      using assms minus_mod_eq_div_mult [of "?n + c - 1" c] pos_mod_bound [of c "?n + c - 1"] by linarith
    moreover have "0 \<le> (?n + c - 1) div c"
      using False assms by (simp add: pos_imp_zdiv_nonneg_iff)
    ultimately show ?thesis by (simp add: chunk_bound_def chunk_count_def)
  qed simp
  have "concat (map part_entries (chunk_loop ds c 0))
        = concat (map (\<lambda>i. range_entries (chunks.cell 0 m ?n i)) [0..<?k])"
    using assms by (simp add: chunk_loop_cells comp_def chunks.cell_def c)
  also have "\<dots> = range_entries (chunk_bound 0 c ?n 0, chunk_bound 0 c ?n ?k)"
    by (subst chunks.entries_concat) (simp add: c)
  also have "\<dots> = range_entries (0, ?n)"
    using end_bound assms
    by (cases "0 \<le> ?n") (auto simp: chunk_bound_def range_entries_def min_def)
  finally show ?thesis .
qed

lemma chunk_loop_sizes:
  assumes "0 < c" "p \<in> set (chunk_loop ds c start)"
  shows "0 < n_entries p \<and> n_entries p \<le> c \<and> uri p = ds_uri ds \<and> tree p = ds_tree ds \<and> wf_partition p"
  using assms
proof (induction ds c start rule: chunk_loop.induct)
  case (1 ds c start)
  then show ?case
    by (cases "start < ds_n_events ds")
       (auto simp: chunk_loop.simps [of ds c start] Let_def n_entries_def)
qed

section \<open>Splitting a failed chunk\<close>

definition split_bound :: "int \<Rightarrow> int \<Rightarrow> nat \<Rightarrow> nat \<Rightarrow> int" where
  "split_bound start stop n i =
     (if i < n then start + int i * ((stop - start) div int n) else stop)"

definition split_partition :: "partition \<Rightarrow> int \<Rightarrow> partition list" where
  "split_partition p n =
     (let total = n_entries p
      in if total \<le> 1 then [p]
         else (let n = nat (max 2 (min n total));
                   size = total div int n;
                   bound = (\<lambda>i. if i < n then entry_start p + int i * size else entry_stop p)
               in map (\<lambda>i. mk_partition (uri p) (tree p) (bound i) (bound (Suc i)))
                      (List.filter (\<lambda>i. bound i < bound (Suc i)) [0..<n])))"

interpretation splits: tiling "split_bound start (start + int total) n" n for start :: int and total n :: nat
proof
  fix i assume i: "i < n"
  have "int i * (int total div int n) \<le> int n * (int total div int n)"
    using i by (intro mult_right_mono) (auto simp: pos_imp_zdiv_nonneg_iff)
  also have "\<dots> \<le> int total"
    using i by (metis mult.commute of_nat_0_less_iff gr_implies_not_zero neq0_conv minus_mod_eq_mult_div
        pos_mod_sign diff_le_eq le_add_same_cancel1)
  finally show "split_bound start (start + int total) n i \<le> split_bound start (start + int total) n (Suc i)"
    by (auto simp: split_bound_def algebra_simps pos_imp_zdiv_nonneg_iff)
qed

lemma split_partition_cells:
  assumes "n_entries p = int m" "1 < m"
  shows "\<exists>k \<ge> 2. int k \<le> max 2 (min n (int m)) \<and>
    split_partition p n =
      map (\<lambda>i. mk_partition (uri p) (tree p)
            (fst (tiling.cell (split_bound (entry_start p) (entry_start p + int m) k) i))
            (snd (tiling.cell (split_bound (entry_start p) (entry_start p + int m) k) i)))
        (List.filter (\<lambda>i. split_bound (entry_start p) (entry_start p + int m) k i
                        < split_bound (entry_start p) (entry_start p + int m) k (Suc i)) [0..<k])"
proof -
  define k where "k = nat (max 2 (min n (int m)))"
  have k: "int k = max 2 (min n (int m))" by (simp add: k_def)
  then have "2 \<le> k" by linarith
  moreover have stop: "entry_stop p = entry_start p + int m"
    using assms by (auto simp: n_entries_def max_def split: if_splits)
  moreover have "split_partition p n =
      map (\<lambda>i. mk_partition (uri p) (tree p)
            (fst (tiling.cell (split_bound (entry_start p) (entry_start p + int m) k) i))
            (snd (tiling.cell (split_bound (entry_start p) (entry_start p + int m) k) i)))
        (List.filter (\<lambda>i. split_bound (entry_start p) (entry_start p + int m) k i
                        < split_bound (entry_start p) (entry_start p + int m) k (Suc i)) [0..<k])"
    using assms(2)
    by (simp add: split_partition_def Let_def split_bound_def splits.cell_def assms(1) stop k_def [symmetric])
  ultimately show ?thesis using k by auto
qed

lemma split_partition_entries: "concat (map part_entries (split_partition p n)) = part_entries p"
proof (cases "n_entries p \<le> 1")
  case True
  then show ?thesis by (simp add: split_partition_def)
next
  case False
  then obtain m where m: "n_entries p = int m" "1 < m"
    by (metis not_le_imp_less zero_less_imp_eq_int order_less_trans zero_less_one of_nat_1 of_nat_less_iff)
  let ?b = "split_bound (entry_start p) (entry_start p + int m)"
  from split_partition_cells [OF m] obtain k where k: "k \<ge> 2" and eq: "split_partition p n =
      map (\<lambda>i. mk_partition (uri p) (tree p) (fst (tiling.cell (?b k) i)) (snd (tiling.cell (?b k) i)))
        (List.filter (\<lambda>i. ?b k i < ?b k (Suc i)) [0..<k])"
    by blast
  have "concat (map part_entries (split_partition p n)) = range_entries (?b k 0, ?b k k)"
    using splits.entries_concat_nonempty [of "entry_start p" m k]
    by (simp add: eq comp_def)
  also have "\<dots> = part_entries p"
  proof -
    have "entry_stop p = entry_start p + int m"
      using m by (auto simp: n_entries_def max_def split: if_splits)
    with k show ?thesis by (simp add: split_bound_def range_entries_def part_entries_def)
  qed
  finally show ?thesis .
qed

text \<open>Every piece of a chunk that can be split is strictly smaller than the chunk.\<close>

lemma split_partition_smaller:
  assumes "q \<in> set (split_partition p n)" "1 < length (split_partition p n)"
  shows "0 < n_entries q \<and> n_entries q < n_entries p"
proof -
  have big: "1 < n_entries p"
  proof (rule ccontr)
    assume "\<not> 1 < n_entries p"
    then have "split_partition p n = [p]" by (simp add: split_partition_def)
    with assms(2) show False by simp
  qed
  have ne: "\<forall>r \<in> set (split_partition p n). 0 < n_entries r"
  proof -
    from big obtain m where m: "n_entries p = int m" "1 < m"
      by (metis zero_less_imp_eq_int order_less_trans zero_less_one of_nat_1 of_nat_less_iff)
    from split_partition_cells [OF m, of n] show ?thesis
      by (auto simp: n_entries_def splits.cell_def)
  qed
  have sum: "int (length (part_entries p)) = sum_list (map n_entries (split_partition p n))"
  proof -
    have "int (length (concat (map part_entries ps))) = sum_list (map n_entries ps)" for ps
      by (induction ps) (auto simp: part_entries_def n_entries_def)
    then show ?thesis by (metis split_partition_entries)
  qed
  obtain us vs where split: "split_partition p n = us @ q # vs"
    using assms(1) by (meson split_list)
  with assms(2) have "us @ vs \<noteq> []" by auto
  then obtain r where rm: "r \<in> set (us @ vs)" using hd_in_set by blast
  then obtain xs ys where r: "us @ vs = xs @ r # ys" by (meson split_list)
  have nonneg: "0 \<le> sum_list (map n_entries zs)" for zs
    by (induction zs) (auto simp: n_entries_def)
  have "sum_list (map n_entries (us @ vs)) = sum_list (map n_entries (xs @ r # ys))"
    by (simp only: r)
  moreover have "0 < n_entries r" using ne rm by (auto simp: split)
  ultimately have "n_entries q < sum_list (map n_entries (split_partition p n))"
    using nonneg [of xs] nonneg [of ys] by (simp add: split)
  moreover have "int (length (part_entries p)) = n_entries p"
    by (simp add: part_entries_def n_entries_def)
  ultimately show ?thesis using ne assms(1) sum by simp
qed

section \<open>Steps, part indices and part paths of a writer\<close>

definition step_range :: "int \<Rightarrow> int \<Rightarrow> int \<Rightarrow> int \<times> int" where
  "step_range n k s = ((s * n) div k, ((s + 1) * n) div k)"

definition eager_ranges :: "int \<Rightarrow> int \<Rightarrow> (int \<times> int) list" where
  "eager_ranges n steps_per_file =
     (let ranges = map (step_range n steps_per_file) [0..steps_per_file - 1];
          kept = List.filter (\<lambda>r. fst r < snd r) ranges
      in if kept \<noteq> [] then kept else take 1 ranges)"

definition step_of :: "int \<Rightarrow> int \<Rightarrow> int \<Rightarrow> int \<Rightarrow> int result" where
  "step_of start stop n steps_per_file =
     (case List.find (\<lambda>s. step_range n steps_per_file s = (start, stop)) [0..steps_per_file - 1] of
        Some s \<Rightarrow> Inr s
      | None \<Rightarrow> Inl (ValueError (''('' @ dec start @ '', '' @ dec stop @ '') matches none of ''
                   @ dec steps_per_file @ '' steps over '' @ dec n @ '' rows'')))"

text \<open>A base table is keyed by a plain uri or by a \<open>(uri, tree)\<close> pair.\<close>

datatype part_key = UriKey string | PairKey string string

fun part_key_repr :: "part_key \<Rightarrow> string" where
  "part_key_repr (UriKey u) = py_repr u"
| "part_key_repr (PairKey u t) = ''('' @ py_repr u @ '', '' @ py_repr t @ '')''"

fun check_distinct :: "part_key list \<Rightarrow> part_key list \<Rightarrow> unit result" where
  "check_distinct seen [] = Inr ()"
| "check_distinct seen (k # ks) =
     (if k \<in> set seen
      then Inl (ValueError (''duplicate input '' @ part_key_repr k @ '': list each file (or file, tree) once''))
      else check_distinct (k # seen) ks)"

definition file_bases :: "part_key list \<Rightarrow> int \<Rightarrow> (part_key \<times> int) list result" where
  "file_bases keys steps_per_file =
     result_bind (check_distinct [] keys)
       (\<lambda>_. Inr (map (\<lambda>(i, k). (k, i * steps_per_file)) (py_enumerate keys)))"

definition opt_repr :: "int option \<Rightarrow> string" where
  "opt_repr x = opt_dec x"

definition partition_repr :: "partition \<Rightarrow> string" where
  "partition_repr p =
     ''Partition(uri='' @ py_repr (uri p) @ '', tree='' @ py_repr (tree p)
     @ '', entry_start='' @ dec (entry_start p) @ '', entry_stop='' @ dec (entry_stop p)
     @ '', blind_step='' @ opt_repr (blind_step p) @ '', blind_n_steps='' @ opt_repr (blind_n_steps p)
     @ '', blind_limit='' @ opt_repr (blind_limit p) @ '')''"

definition lookup_base :: "(part_key \<times> int) list \<Rightarrow> part_key \<Rightarrow> int result" where
  "lookup_base bases k =
     (case map_of bases k of Some b \<Rightarrow> Inr b | None \<Rightarrow> Inl (KeyError (part_key_repr k)))"

definition blind_part_index :: "partition \<Rightarrow> (part_key \<times> int) list \<Rightarrow> int result" where
  "blind_part_index p bases =
     (case blind_step p of
        None \<Rightarrow> Inl (ValueError (partition_repr p @ '' is not blind; derive its step with step_of() instead''))
      | Some s \<Rightarrow>
          (case map_of bases (PairKey (uri p) (tree p)) of
             Some b \<Rightarrow> Inr (b + s)
           | None \<Rightarrow> result_bind (lookup_base bases (UriKey (uri p))) (\<lambda>b. Inr (b + s))))"

definition is_url :: "string \<Rightarrow> bool" where
  "is_url destination = str_contains ''://'' destination"

text \<open>\<open>os.path.join\<close> of two POSIX paths.\<close>

definition os_path_join :: "string \<Rightarrow> string \<Rightarrow> string" where
  "os_path_join a b =
     (if starts_with ''/'' b then b
      else if a = [] \<or> last a = CHR ''/'' then a @ b
      else a @ ''/'' @ b)"

definition join_part :: "string \<Rightarrow> string \<Rightarrow> string" where
  "join_part destination name =
     (if is_url destination
      then (let (head, found, tail) = str_partition ''://'' destination
            in head @ ''://'' @ rstrip (CHR ''/'') tail @ ''/'' @ name)
      else os_path_join destination name)"

definition part_path :: "string \<Rightarrow> int \<Rightarrow> string \<Rightarrow> string \<Rightarrow> string" where
  "part_path destination index prefix suffix =
     join_part destination (prefix @ ''-'' @ fmt05d index @ suffix)"

text \<open>
  The parquet specialisation. \<open>num_rows\<close> reads a file's metadata (pyarrow): a function of the
  path that may raise.
\<close>

fun make_partitions :: "(string \<Rightarrow> int result) \<Rightarrow> string list \<Rightarrow> int \<Rightarrow> bool \<Rightarrow> partition list result" where
  "make_partitions num_rows paths steps_per_file open_files =
     (if steps_per_file < 1
      then Inl (ValueError (''steps_per_file must be >= 1, got '' @ dec steps_per_file))
      else result_bind
        (traverse (\<lambda>p. if open_files
           then result_bind (num_rows p) (\<lambda>n. Inr (map (\<lambda>(a, b). mk_partition p [] a b) (eager_ranges n steps_per_file)))
           else traverse (\<lambda>s. partition_blind p [] s steps_per_file) [0..steps_per_file - 1]) paths)
        (\<lambda>pss. Inr (concat pss)))"

declare make_partitions.simps [simp del]

definition resolve_partition :: "(string \<Rightarrow> int result) \<Rightarrow> partition \<Rightarrow> partition result" where
  "resolve_partition num_rows p =
     (if blind_step p = None then Inr p else result_bind (num_rows (uri p)) (resolve p))"

definition derive_part_index ::
  "(string \<Rightarrow> int result) \<Rightarrow> partition \<Rightarrow> int \<Rightarrow> (part_key \<times> int) list \<Rightarrow> int result" where
  "derive_part_index num_rows p steps_per_file bases =
     (if blind_step p \<noteq> None then blind_part_index p bases
      else result_bind (num_rows (uri p)) (\<lambda>n.
           result_bind (lookup_base bases (UriKey (uri p))) (\<lambda>b.
           result_bind (step_of (entry_start p) (entry_stop p) n steps_per_file) (\<lambda>s. Inr (b + s)))))"

text \<open>
  The row groups of a parquet file that hold rows \<open>[start, stop)\<close> and the row the first of them
  starts at, over the list of the groups' row counts.
\<close>

fun row_groups_loop :: "int list \<Rightarrow> int \<Rightarrow> int \<Rightarrow> int \<Rightarrow> int list \<Rightarrow> int \<Rightarrow> int \<Rightarrow> int list \<times> int" where
  "row_groups_loop [] start stop gid groups first_row row = (groups, first_row)"
| "row_groups_loop (n # ns) start stop gid groups first_row row =
     (let stop_row = row + n
      in if row < stop \<and> start < stop_row
         then row_groups_loop ns start stop (gid + 1) (groups @ [gid])
                (if groups \<noteq> [] then first_row else row) stop_row
         else row_groups_loop ns start stop (gid + 1) groups first_row stop_row)"

definition row_groups_for :: "int list \<Rightarrow> int \<Rightarrow> int \<Rightarrow> int list \<times> int" where
  "row_groups_for group_rows start stop = row_groups_loop group_rows start stop 0 [] 0 0"

subsection \<open>Steps are recovered from their ranges\<close>

lemma step_range_cell: "step_range (int n) (int k) (int s) = even_steps.cell n k s"
  by (simp add: step_range_def even_steps.cell_def step_bound_def add.commute)

lemma upto_int: "[0..int k - 1] = map int [0..<k]"
  by (induction k) (auto simp: upto_rec2)

lemma step_ranges_cells:
  "map (step_range (int n) (int k)) [0..int k - 1] = map (even_steps.cell n k) [0..<k]"
  by (simp add: upto_int step_range_cell)

lemma step_range_in:
  assumes "r \<in> set (eager_ranges n k)"
  shows "\<exists>s. 0 \<le> s \<and> s < k \<and> r = step_range n k s"
proof -
  have "set (eager_ranges n k) \<subseteq> set (map (step_range n k) [0..k - 1])"
    by (auto simp: eager_ranges_def Let_def simp del: set_map dest!: in_set_takeD)
  with assms have "r \<in> step_range n k ` set [0..k - 1]" by auto
  then obtain s where "s \<in> set [0..k - 1]" "r = step_range n k s" by (elim imageE)
  then show ?thesis by (intro exI [of _ s]) auto
qed

text \<open>The step found for a range is a step with that range: the first one, the only one when it is not empty.\<close>

lemma step_of_sound:
  assumes "step_of a b n k = Inr s"
  shows "0 \<le> s \<and> s < k \<and> step_range n k s = (a, b)"
  using assms by (auto simp: step_of_def find_Some_iff split: option.splits)

lemma step_of_complete:
  assumes "0 \<le> s" "s < k" "step_range n k s = (a, b)"
  shows "\<exists>s'. step_of a b n k = Inr s'"
proof (cases "List.find (\<lambda>s. step_range n k s = (a, b)) [0..k - 1]")
  case None
  with assms show ?thesis by (auto simp: find_None_iff)
next
  case (Some s')
  then show ?thesis by (auto simp: step_of_def)
qed

lemma distinct_eager_ranges: "distinct (eager_ranges (int n) (int k))"
proof -
  let ?P = "\<lambda>i. fst (even_steps.cell n k i) < snd (even_steps.cell n k i)"
  have kept: "List.filter (\<lambda>r. fst r < snd r) (map (step_range (int n) (int k)) [0..int k - 1])
      = map (even_steps.cell n k) (List.filter ?P [0..<k])"
    by (simp add: step_ranges_cells filter_map comp_def)
  have "distinct (map (even_steps.cell n k) (List.filter ?P [0..<k]))"
    by (auto simp: distinct_map inj_on_def intro: even_steps.cell_inject)
  then have "distinct (List.filter (\<lambda>r. fst r < snd r) (map (step_range (int n) (int k)) [0..int k - 1]))"
    by (simp only: kept)
  moreover have "distinct (take 1 xs)" for xs :: "(int \<times> int) list"
    by (cases xs) auto
  ultimately show ?thesis by (auto simp: eager_ranges_def Let_def)
qed

lemma step_of_inject:
  assumes "step_of a b n k = Inr s" "step_of a' b' n k = Inr s"
  shows "(a, b) = (a', b')"
  using step_of_sound [OF assms(1)] step_of_sound [OF assms(2)] by simp

subsection \<open>No two tasks write the same part\<close>

lemma check_distinct_ok: "check_distinct seen ks = Inr () \<longleftrightarrow> distinct ks \<and> set ks \<inter> set seen = {}"
  by (induction seen ks rule: check_distinct.induct) auto

lemma file_bases_ok:
  assumes "file_bases keys k = Inr bases"
  shows "distinct keys" "i < length keys \<Longrightarrow> map_of bases (keys ! i) = Some (int i * k)"
    "map_of bases x = None \<longleftrightarrow> x \<notin> set keys"
proof -
  have bases: "bases = map (\<lambda>(i, key). (key, i * k)) (py_enumerate keys)" and d: "distinct keys"
    using assms
    by (auto simp: file_bases_def result_bind_Inr_iff check_distinct_ok)
  have fsts: "map fst bases = keys"
    by (simp add: bases comp_def split_def map_snd_py_enumerate [unfolded])
  show "distinct keys" by (rule d)
  show "map_of bases x = None \<longleftrightarrow> x \<notin> set keys"
    by (metis fsts map_of_eq_None_iff set_map)
  assume i: "i < length keys"
  have "(keys ! i, int i * k) \<in> set bases"
    using i by (auto simp: bases py_enumerate_def set_zip image_iff intro!: exI [of _ i])
  then show "map_of bases (keys ! i) = Some (int i * k)"
    using d fsts by (simp add: map_of_is_SomeI)
qed

text \<open>
  Whatever its kind, a partition of file \<open>i\<close> and step \<open>s\<close> gets index \<open>i * steps + s\<close>, from which
  both are recovered.
\<close>

lemma derive_part_index_shape:
  assumes bases: "file_bases (map UriKey paths) k = Inr bases"
    and ix: "derive_part_index num_rows p k bases = Inr ix"
    and blind: "\<And>s. blind_step p = Some s \<Longrightarrow> blind_n_steps p = Some k \<and> 0 \<le> s \<and> s < k"
  shows "\<exists>i s. i < length paths \<and> paths ! i = uri p \<and> ix = int i * k + s \<and> 0 \<le> s \<and> s < k \<and>
     (case blind_step p of Some s' \<Rightarrow> s' = s
      | None \<Rightarrow> \<exists>n. num_rows (uri p) = Inr n \<and> step_of (entry_start p) (entry_stop p) n k = Inr s)"
proof -
  have base: "\<exists>i. i < length paths \<and> paths ! i = uri p \<and> b = int i * k"
    if b: "map_of bases (UriKey (uri p)) = Some b" for b
  proof -
    have "UriKey (uri p) \<in> set (map UriKey paths)"
      using b file_bases_ok(3) [OF bases, of "UriKey (uri p)"] by (metis option.distinct(1))
    then obtain i where "i < length paths" "paths ! i = uri p"
      by (auto simp: in_set_conv_nth)
    with file_bases_ok(2) [OF bases, of i] b show ?thesis by auto
  qed
  show ?thesis
  proof (cases "blind_step p")
    case None
    with ix obtain n b s where "num_rows (uri p) = Inr n" "map_of bases (UriKey (uri p)) = Some b"
        "step_of (entry_start p) (entry_stop p) n k = Inr s" "ix = b + s"
      by (auto simp: derive_part_index_def result_bind_Inr_iff lookup_base_def split: option.splits)
    moreover from this base obtain i where "i < length paths" "paths ! i = uri p" "b = int i * k"
      by blast
    ultimately show ?thesis
      using step_of_sound [of "entry_start p" "entry_stop p" n k s] None
      by (intro exI [of _ i] exI [of _ s]) auto
  next
    case (Some s)
    have "PairKey (uri p) (tree p) \<notin> set (map UriKey paths)" by auto
    then have "map_of bases (PairKey (uri p) (tree p)) = None"
      using file_bases_ok(3) [OF bases, of "PairKey (uri p) (tree p)"] by simp
    with ix Some obtain b where "map_of bases (UriKey (uri p)) = Some b" "ix = b + s"
      by (auto simp: derive_part_index_def blind_part_index_def result_bind_Inr_iff lookup_base_def
          split: option.splits)
    moreover from this base obtain i where "i < length paths" "paths ! i = uri p" "b = int i * k"
      by blast
    ultimately show ?thesis
      using blind [OF Some] Some by (intro exI [of _ i] exI [of _ s]) auto
  qed
qed

lemma traverse_member:
  "traverse f xs = Inr ys \<Longrightarrow> y \<in> set ys \<Longrightarrow> \<exists>x \<in> set xs. f x = Inr y"
  by (induction xs arbitrary: ys) (auto simp: result_bind_Inr_iff)

lemma traverse_exists:
  "(\<And>x. x \<in> set xs \<Longrightarrow> \<exists>y. f x = Inr y) \<Longrightarrow> \<exists>ys. traverse f xs = Inr ys"
proof (induction xs)
  case (Cons x xs)
  then obtain y ys where "f x = Inr y" "traverse f xs = Inr ys" by fastforce
  then show ?case by simp
qed simp

lemma traverse_distinct:
  assumes "traverse f xs = Inr ys" "distinct xs"
    and "\<And>a b c. a \<in> set xs \<Longrightarrow> b \<in> set xs \<Longrightarrow> f a = Inr c \<Longrightarrow> f b = Inr c \<Longrightarrow> a = b"
  shows "distinct ys"
  using assms
proof (induction xs arbitrary: ys)
  case (Cons x xs)
  then obtain y zs where x: "f x = Inr y" and zs: "traverse f xs = Inr zs" and ys: "ys = y # zs"
    by (auto simp: result_bind_Inr_iff)
  have "distinct zs" by (rule Cons.IH [OF zs]) (use Cons.prems in auto)
  moreover have "y \<notin> set zs"
    using Cons.prems(2,3) x traverse_member [OF zs] by fastforce
  ultimately show ?case by (simp add: ys)
qed simp

text \<open>What \<open>make_partitions\<close> produces for one file.\<close>

definition file_partitions :: "(string \<Rightarrow> int result) \<Rightarrow> int \<Rightarrow> bool \<Rightarrow> string \<Rightarrow> partition list result" where
  "file_partitions num_rows k open_files p =
     (if open_files
      then result_bind (num_rows p) (\<lambda>n. Inr (map (\<lambda>(a, b). mk_partition p [] a b) (eager_ranges n k)))
      else traverse (\<lambda>s. partition_blind p [] s k) [0..k - 1])"

lemma make_partitions_files:
  "make_partitions num_rows paths k open_files = Inr ps \<longleftrightarrow>
   1 \<le> k \<and> (\<exists>pss. traverse (file_partitions num_rows k open_files) paths = Inr pss \<and> ps = concat pss)"
  by (auto simp: make_partitions.simps file_partitions_def [abs_def] result_bind_Inr_iff)

lemma file_partitions_shape:
  assumes "file_partitions num_rows k open_files u = Inr ps" "p \<in> set ps"
  shows "uri p = u \<and> tree p = [] \<and> wf_partition p \<and>
    (if open_files
     then \<exists>n s. num_rows u = Inr n \<and> 0 \<le> s \<and> s < k \<and> step_range n k s = (entry_start p, entry_stop p)
            \<and> blind_step p = None \<and> blind_n_steps p = None
     else \<exists>s. 0 \<le> s \<and> s < k \<and> blind_step p = Some s \<and> blind_n_steps p = Some k
            \<and> entry_start p = 0 \<and> entry_stop p = 0) \<and> blind_limit p = None"
proof (cases open_files)
  case True
  with assms obtain n a b where "num_rows u = Inr n" "(a, b) \<in> set (eager_ranges n k)" "p = mk_partition u [] a b"
    by (auto simp: file_partitions_def result_bind_Inr_iff)
  with True step_range_in [of "(a, b)" n k] show ?thesis by auto
next
  case False
  with assms obtain s where s: "s \<in> set [0..k - 1]" and p: "partition_blind u [] s k = Inr p"
    using traverse_member [of "\<lambda>s. partition_blind u [] s k" "[0..k - 1]" ps p]
    by (auto simp: file_partitions_def)
  with False wf_partition_blind [OF p] show ?thesis
    by (auto simp: partition_blind_def split: if_splits)
qed

lemma file_partitions_distinct:
  assumes "file_partitions num_rows k open_files u = Inr ps"
    and "\<And>n. num_rows u = Inr n \<Longrightarrow> 0 \<le> n" and "1 \<le> k"
  shows "distinct ps"
proof (cases open_files)
  case True
  with assms obtain n where n: "num_rows u = Inr n" "0 \<le> n"
      and ps: "ps = map (\<lambda>(a, b). mk_partition u [] a b) (eager_ranges n k)"
    by (auto simp: file_partitions_def result_bind_Inr_iff)
  obtain N K where "n = int N" "k = int K" using n(2) assms(3) by (metis nonneg_int_cases order_trans zero_le_one)
  then have "distinct (eager_ranges n k)" by (simp add: distinct_eager_ranges)
  then show ?thesis by (auto simp: ps distinct_map inj_on_def)
next
  case False
  then have "traverse (\<lambda>s. partition_blind u [] s k) [0..k - 1] = Inr ps"
    using assms(1) by (simp add: file_partitions_def)
  then show ?thesis
    by (rule traverse_distinct) (auto simp: partition_blind_def mk_partition_def split: if_splits)
qed

lemma make_partitions_distinct:
  assumes "traverse (file_partitions num_rows k open_files) paths = Inr pss" "distinct paths" "1 \<le> k"
    and "\<And>u n. u \<in> set paths \<Longrightarrow> num_rows u = Inr n \<Longrightarrow> 0 \<le> n"
  shows "distinct (concat pss)"
  using assms
proof (induction paths arbitrary: pss)
  case (Cons u paths)
  then obtain ps qss where ps: "file_partitions num_rows k open_files u = Inr ps"
      and qss: "traverse (file_partitions num_rows k open_files) paths = Inr qss" and pss: "pss = ps # qss"
    by (auto simp: result_bind_Inr_iff)
  have "distinct ps" by (rule file_partitions_distinct [OF ps]) (use Cons.prems in auto)
  moreover have "distinct (concat qss)" by (rule Cons.IH [OF qss]) (use Cons.prems in auto)
  moreover have "set ps \<inter> set (concat qss) = {}"
  proof -
    have "uri p = u" if "p \<in> set ps" for p using file_partitions_shape [OF ps that] by simp
    moreover have "uri q \<in> set paths" if "q \<in> set (concat qss)" for q
      using that traverse_member [OF qss] file_partitions_shape by fastforce
    ultimately show ?thesis using Cons.prems(2) by fastforce
  qed
  ultimately show ?case by (simp add: pss)
qed simp

lemma make_partitions_member:
  assumes "make_partitions num_rows paths k open_files = Inr ps" "p \<in> set ps"
  shows "\<exists>qs. uri p \<in> set paths \<and> file_partitions num_rows k open_files (uri p) = Inr qs \<and> p \<in> set qs"
proof -
  from assms obtain pss where pss: "traverse (file_partitions num_rows k open_files) paths = Inr pss"
      and p: "p \<in> set (concat pss)"
    by (auto simp: make_partitions_files)
  then obtain qs where qs: "qs \<in> set pss" "p \<in> set qs" by auto
  from traverse_member [OF pss qs(1)] obtain u where "u \<in> set paths" "file_partitions num_rows k open_files u = Inr qs"
    by blast
  with qs(2) file_partitions_shape [OF this(2) qs(2)] show ?thesis by blast
qed

lemma derive_part_index_defined:
  assumes ps: "make_partitions num_rows paths k open_files = Inr ps" and p: "p \<in> set ps"
    and bases: "file_bases (map UriKey paths) k = Inr bases"
  shows "\<exists>ix. derive_part_index num_rows p k bases = Inr ix"
proof -
  from make_partitions_member [OF ps p] obtain qs where u: "uri p \<in> set paths"
      and qs: "file_partitions num_rows k open_files (uri p) = Inr qs" "p \<in> set qs" by blast
  have "UriKey (uri p) \<in> set (map UriKey paths)" using u by simp
  then obtain b where b: "map_of bases (UriKey (uri p)) = Some b"
    using file_bases_ok(3) [OF bases, of "UriKey (uri p)"] by auto
  show ?thesis
  proof (cases open_files)
    case True
    with file_partitions_shape [OF qs] obtain n s where n: "num_rows (uri p) = Inr n" "0 \<le> s" "s < k"
        "step_range n k s = (entry_start p, entry_stop p)" and "blind_step p = None"
      by auto
    moreover obtain s' where "step_of (entry_start p) (entry_stop p) n k = Inr s'"
      using step_of_complete [OF n(2,3,4)] by blast
    ultimately show ?thesis using b by (simp add: derive_part_index_def lookup_base_def)
  next
    case False
    with file_partitions_shape [OF qs] obtain s where "blind_step p = Some s" by auto
    then show ?thesis
      using b by (auto simp: derive_part_index_def blind_part_index_def lookup_base_def split: option.splits)
  qed
qed

lemma div_mod_unique_int:
  fixes i j k s t :: int
  assumes "i * k + s = j * k + t" "0 \<le> s" "s < k" "0 \<le> t" "t < k"
  shows "i = j \<and> s = t"
proof -
  have "(i * k + s) div k = i" "(j * k + t) div k = j" using assms(2-) by simp_all
  then have "i = j" by (simp only: assms(1))
  with assms(1) show ?thesis by simp
qed

lemma derive_part_index_inject:
  assumes ps: "make_partitions num_rows paths k open_files = Inr ps" and pq: "p \<in> set ps" "q \<in> set ps"
    and bases: "file_bases (map UriKey paths) k = Inr bases"
    and ix: "derive_part_index num_rows p k bases = Inr ix" "derive_part_index num_rows q k bases = Inr ix"
  shows "p = q"
proof -
  from make_partitions_member [OF ps pq(1)] obtain ps' where fp: "file_partitions num_rows k open_files (uri p) = Inr ps'" "p \<in> set ps'"
    by blast
  from make_partitions_member [OF ps pq(2)] obtain qs' where fq: "file_partitions num_rows k open_files (uri q) = Inr qs'" "q \<in> set qs'"
    by blast
  note shp = file_partitions_shape [OF fp] and shq = file_partitions_shape [OF fq]
  have blindp: "blind_step p = Some s \<Longrightarrow> blind_n_steps p = Some k \<and> 0 \<le> s \<and> s < k" for s
    using shp by (cases open_files) auto
  have blindq: "blind_step q = Some s \<Longrightarrow> blind_n_steps q = Some k \<and> 0 \<le> s \<and> s < k" for s
    using shq by (cases open_files) auto
  from derive_part_index_shape [OF bases ix(1) blindp] obtain i s where
    i: "i < length paths" "paths ! i = uri p" "ix = int i * k + s" "0 \<le> s" "s < k" and
    sp: "case blind_step p of Some s' \<Rightarrow> s' = s
      | None \<Rightarrow> \<exists>n. num_rows (uri p) = Inr n \<and> step_of (entry_start p) (entry_stop p) n k = Inr s"
    by blast
  from derive_part_index_shape [OF bases ix(2) blindq] obtain j t where
    j: "j < length paths" "paths ! j = uri q" "ix = int j * k + t" "0 \<le> t" "t < k" and
    sq: "case blind_step q of Some s' \<Rightarrow> s' = t
      | None \<Rightarrow> \<exists>n. num_rows (uri q) = Inr n \<and> step_of (entry_start q) (entry_stop q) n k = Inr t"
    by blast
  have "int i = int j \<and> s = t" by (rule div_mod_unique_int) (use i j in auto)
  then have u: "uri p = uri q" and st: "s = t" using i(2) j(2) by auto
  show ?thesis
  proof (cases open_files)
    case True
    with shp shq have "blind_step p = None" "blind_step q = None" by auto
    with sp sq u st obtain n where "step_of (entry_start p) (entry_stop p) n k = Inr s"
        "step_of (entry_start q) (entry_stop q) n k = Inr s" by auto
    from step_of_inject [OF this] True shp shq u show ?thesis
      by (intro partition.equality) auto
  next
    case False
    with shp shq sp sq u st show ?thesis by (intro partition.equality) auto
  qed
qed

lemma part_path_inject:
  assumes "part_path d i pre suf = part_path d j pre suf" "0 \<le> i" "0 \<le> j"
  shows "i = j"
proof -
  have "join_part d (pre @ x) = join_part d (pre @ y) \<Longrightarrow> x = y" if "x \<noteq> []" "y \<noteq> []" "hd x = hd y" for x y
    using that by (cases pre; cases x; cases y)
      (auto simp: join_part_def os_path_join_def split: if_splits prod.splits)
  from this [of "''-'' @ fmt05d i @ suf" "''-'' @ fmt05d j @ suf"] assms
  show ?thesis by (auto simp: part_path_def intro: fmt05d_inject_nonneg)
qed

subsection \<open>Row groups\<close>

definition row_offset :: "int list \<Rightarrow> nat \<Rightarrow> int" where
  "row_offset ns i = sum_list (take i ns)"

definition group_hit :: "int list \<Rightarrow> int \<Rightarrow> int \<Rightarrow> int \<Rightarrow> nat \<Rightarrow> bool" where
  "group_hit ns row start stop i \<longleftrightarrow>
     row + row_offset ns i < stop \<and> start < row + row_offset ns (Suc i)"

lemma group_hit_Cons: "group_hit (n # ns) row start stop (Suc i) = group_hit ns (row + n) start stop i"
  by (simp add: group_hit_def row_offset_def algebra_simps)

lemma filter_hits_Cons:
  "List.filter (group_hit (n # ns) row start stop) [0..<length (n # ns)] =
    (if group_hit (n # ns) row start stop 0 then [0] else [])
    @ map Suc (List.filter (group_hit ns (row + n) start stop) [0..<length ns])"
proof -
  have "[0..<length (n # ns)] = 0 # map Suc [0..<length ns]"
    by (simp add: map_Suc_upt upt_conv_Cons del: upt_Suc)
  then show ?thesis by (simp add: filter_map comp_def group_hit_Cons)
qed

lemma row_groups_loop_eq:
  "row_groups_loop ns start stop gid groups f row =
    (let hits = List.filter (group_hit ns row start stop) [0..<length ns]
     in (groups @ map (\<lambda>i. gid + int i) hits,
         if groups \<noteq> [] then f else (case hits of [] \<Rightarrow> f | i # _ \<Rightarrow> row + row_offset ns i)))"
proof (induction ns arbitrary: gid groups f row)
  case Nil
  then show ?case by simp
next
  case (Cons n ns)
  have hit0: "group_hit (n # ns) row start stop 0 \<longleftrightarrow> row < stop \<and> start < row + n"
    by (simp add: group_hit_def row_offset_def)
  let ?hits = "List.filter (group_hit ns (row + n) start stop) [0..<length ns]"
  have off: "row + row_offset (n # ns) (Suc i) = row + n + row_offset ns i" for i
    by (simp add: row_offset_def)
  have shift: "map (\<lambda>i. gid + int i) (map Suc xs) = map (\<lambda>i. gid + 1 + int i) xs" for xs
    by simp
  show ?case
    unfolding filter_hits_Cons
    by (cases "row < stop \<and> start < row + n"; cases ?hits)
       (simp_all add: Let_def Cons.IH hit0 off row_offset_def)
qed

text \<open>
  The groups selected for rows \<open>[start, stop)\<close> are exactly those that hold a row of the range,
  in file order, and the reported first row is the row the first selected group starts at.
\<close>

theorem row_groups_for_spec:
  "row_groups_for ns start stop =
    (map int (List.filter (\<lambda>i. row_offset ns i < stop \<and> start < row_offset ns (Suc i)) [0..<length ns]),
     case List.filter (\<lambda>i. row_offset ns i < stop \<and> start < row_offset ns (Suc i)) [0..<length ns] of
       [] \<Rightarrow> 0 | i # _ \<Rightarrow> row_offset ns i)"
proof -
  have "group_hit ns 0 start stop = (\<lambda>i. row_offset ns i < stop \<and> start < row_offset ns (Suc i))"
    by (simp add: group_hit_def fun_eq_iff)
  then show ?thesis
    by (simp add: row_groups_for_def row_groups_loop_eq Let_def split: list.split)
qed

section \<open>Properties\<close>

text \<open>The events a partition list reads, as (uri, tree, entry) in reading order.\<close>

definition events_read :: "partition list \<Rightarrow> (string \<times> string \<times> int) list" where
  "events_read ps = concat (map (\<lambda>p. map (\<lambda>e. (uri p, tree p, e)) (part_entries p)) ps)"

lemma events_read_append [simp]: "events_read (ps @ qs) = events_read ps @ events_read qs"
  by (simp add: events_read_def)

lemma events_read_same_file:
  "(\<And>p. p \<in> set ps \<Longrightarrow> uri p = u \<and> tree p = t) \<Longrightarrow>
   events_read ps = map (\<lambda>e. (u, t, e)) (concat (map part_entries ps))"
proof (induction ps)
  case (Cons p ps)
  have "events_read ps = map (\<lambda>e. (u, t, e)) (concat (map part_entries ps))"
    by (rule Cons.IH, rule Cons.prems) simp
  moreover have "uri p = u \<and> tree p = t" by (rule Cons.prems) simp
  ultimately show ?case by (simp add: events_read_def)
qed (simp add: events_read_def)

text \<open>
  C14. Partitioning a list of datasets reads every event of every dataset exactly once and in
  order, in chunks that hold at least one and at most \<open>chunk_size\<close> events.
\<close>

theorem partition_datasets_cover:
  assumes "partition_datasets dss c = Inr ps"
  shows "events_read ps =
           concat (map (\<lambda>ds. map (\<lambda>e. (ds_uri ds, ds_tree ds, e)) [0..ds_n_events ds - 1]) dss)
       \<and> list_all (\<lambda>p. 0 < n_entries p \<and> n_entries p \<le> c) ps"
  using assms
proof (induction dss arbitrary: ps)
  case (Cons ds dss)
  then obtain qs where c: "0 < c" and qs: "partition_datasets dss c = Inr qs"
      and ps: "ps = chunk_loop ds c 0 @ qs"
    by (auto simp: result_bind_Inr_iff partition_dataset_def split: if_splits)
  note sz = chunk_loop_sizes [OF c, of _ ds 0]
  have "events_read (chunk_loop ds c 0) = map (\<lambda>e. (ds_uri ds, ds_tree ds, e)) [0..ds_n_events ds - 1]"
    using sz chunk_loop_entries [OF c, of ds]
    by (subst events_read_same_file [of _ "ds_uri ds" "ds_tree ds"]) (auto simp: range_entries_def)
  with Cons.IH [OF qs] sz show ?case by (auto simp: ps list_all_iff)
qed (simp add: events_read_def)

theorem partition_datasets_cover_witness:
  "let ds = \<lparr>ds_uri = ''a'', ds_n_events = 5, ds_tree = ''Events'', ds_name = []\<rparr> in
   \<exists>ps. partition_datasets [ds] 2 = Inr ps \<and> length ps = 3
      \<and> events_read ps = map (\<lambda>e. (''a'', ''Events'', e)) [0, 1, 2, 3, 4]"
proof -
  let ?ds = "\<lparr>ds_uri = ''a'', ds_n_events = 5, ds_tree = ''Events'', ds_name = []\<rparr>"
  let ?ps = "[mk_partition ''a'' ''Events'' 0 2, mk_partition ''a'' ''Events'' 2 4, mk_partition ''a'' ''Events'' 4 5]"
  have ps: "partition_datasets [?ds] 2 = Inr ?ps"
    by (simp add: partition_dataset_def chunk_loop.simps)
  have "[0..4 :: int] = [0, 1, 2, 3, 4]" by code_simp
  with partition_datasets_cover [OF ps] ps show ?thesis by simp
qed

text \<open>
  C15. The steps of a blind partition are resolved at read time against whatever entry count the file
  turns out to have: together they read each of its entries exactly once and in order.
\<close>

theorem blind_steps_cover:
  assumes "0 \<le> n" "1 \<le> k"
  shows "\<exists>ps. traverse (\<lambda>s. result_bind (partition_blind u t s k) (\<lambda>p. resolve p n)) [0..k - 1] = Inr ps
     \<and> concat (map part_entries ps) = [0..n - 1]"
proof -
  obtain N K where N: "n = int N" and K: "k = int K"
    using assms by (metis nonneg_int_cases order_trans zero_le_one)
  have "result_bind (partition_blind u t (int s) k) (\<lambda>p. resolve p n)
        = Inr (mk_partition u t (step_bound n k s) (step_bound n k (Suc s)))" if "s < K" for s
  proof -
    have "\<exists>p. partition_blind u t (int s) (int K) = Inr p"
      using that assms(2) by (simp add: partition_blind_def K)
    then obtain p where "partition_blind u t (int s) (int K) = Inr p" ..
    with resolve_blind [OF this, of n] show ?thesis by (simp add: K)
  qed
  then have "traverse (\<lambda>s. result_bind (partition_blind u t s k) (\<lambda>p. resolve p n)) [0..k - 1]
      = Inr (map (\<lambda>s. mk_partition u t (step_bound n k s) (step_bound n k (Suc s))) [0..<K])"
    unfolding K upto_int by (intro traverse_map_cong) auto
  moreover have "concat (map part_entries (map (\<lambda>s. mk_partition u t (step_bound n k s) (step_bound n k (Suc s))) [0..<K]))
      = [0..n - 1]"
    using even_steps.entries_concat [of N K] assms(2)
    by (simp add: comp_def even_steps.cell_def N K range_entries_def)
  ultimately show ?thesis by blast
qed

theorem blind_steps_cover_witness:
  "\<exists>ps. traverse (\<lambda>s. result_bind (partition_blind ''f'' [] s 3) (\<lambda>p. resolve p 5)) [0..3 - 1] = Inr ps
     \<and> concat (map part_entries ps) = [0..5 - 1]"
  by (rule blind_steps_cover) simp_all

text \<open>
  C2. Writers derive their part index from their own partition alone, and no two tasks of a write
  get the same part path: over distinct files, blind or eager, every partition of the write has an
  index, and the paths of the parts are pairwise distinct.
\<close>

theorem part_paths_distinct:
  assumes ps: "make_partitions num_rows paths k open_files = Inr ps"
    and bases: "file_bases (map UriKey paths) k = Inr bases"
    and rows: "\<And>u n. num_rows u = Inr n \<Longrightarrow> 0 \<le> n"
  shows "\<exists>ixs. traverse (\<lambda>p. derive_part_index num_rows p k bases) ps = Inr ixs
     \<and> distinct (map (\<lambda>i. part_path destination i prefix suffix) ixs)"
proof -
  from ps obtain pss where pss: "traverse (file_partitions num_rows k open_files) paths = Inr pss"
      and eq: "ps = concat pss" and k: "1 \<le> k"
    by (auto simp: make_partitions_files)
  have "distinct paths" using file_bases_ok(1) [OF bases] by (simp add: distinct_map)
  then have d: "distinct ps"
    unfolding eq using rows by (intro make_partitions_distinct [OF pss _ k])
  obtain ixs where ixs: "traverse (\<lambda>p. derive_part_index num_rows p k bases) ps = Inr ixs"
    using traverse_exists derive_part_index_defined [OF ps _ bases] by metis
  have "distinct ixs"
    by (rule traverse_distinct [OF ixs d]) (rule derive_part_index_inject [OF ps _ _ bases])
  moreover have "0 \<le> i" if "i \<in> set ixs" for i
  proof -
    from traverse_member [OF ixs that] obtain p where p: "p \<in> set ps" "derive_part_index num_rows p k bases = Inr i"
      by blast
    from make_partitions_member [OF ps p(1)] obtain qs where
      qs: "file_partitions num_rows k open_files (uri p) = Inr qs" "p \<in> set qs" by blast
    have "blind_step p = Some s \<Longrightarrow> blind_n_steps p = Some k \<and> 0 \<le> s \<and> s < k" for s
      using file_partitions_shape [OF qs] by (cases open_files) auto
    from derive_part_index_shape [OF bases p(2) this] k show ?thesis by auto
  qed
  ultimately have "distinct (map (\<lambda>i. part_path destination i prefix suffix) ixs)"
    by (auto simp: distinct_map inj_on_def intro: part_path_inject)
  with ixs show ?thesis by blast
qed

theorem part_paths_distinct_witness:
  "\<exists>ps bases. make_partitions (\<lambda>_. Inr 3) [''a'', ''b''] 2 True = Inr ps
     \<and> file_bases (map UriKey [''a'', ''b'']) 2 = Inr bases
     \<and> (\<exists>ixs. traverse (\<lambda>p. derive_part_index (\<lambda>_. Inr 3) p 2 bases) ps = Inr ixs
          \<and> distinct (map (\<lambda>i. part_path ''out'' i ''part'' ''.parquet'') ixs))"
proof -
  have e: "eager_ranges 3 2 = [(0, 1), (1, 3)]" by code_simp
  have ps: "make_partitions (\<lambda>_. Inr 3) [''a'', ''b''] 2 True =
      Inr [mk_partition ''a'' [] 0 1, mk_partition ''a'' [] 1 3, mk_partition ''b'' [] 0 1, mk_partition ''b'' [] 1 3]"
    by (simp add: make_partitions.simps e)
  have bases: "file_bases (map UriKey [''a'', ''b'']) 2 = Inr [(UriKey ''a'', 0), (UriKey ''b'', 2)]"
    by (simp add: file_bases_def py_enumerate_def)
  show ?thesis 
    using part_paths_distinct [OF ps bases, where destination = "''out''" and prefix = "''part''" and suffix = "''.parquet''"]
      ps bases by auto
qed

end
