(* ===== verification/Json.thy ===== *)
theory Json
  imports Prelude
begin

text \<open>
  The JSON encoding of the Python standard library, as far as the durable formats use it:
  \<open>json.dumps(..., sort_keys=True, separators=(",", ":"))\<close> with \<open>json.loads\<close>.

  A float is its decimal text (\<open>repr\<close>), which Python writes and reads back exactly. A string
  holds 8-bit characters; everything outside printable ASCII is escaped as \<open>ensure_ascii\<close> does.
  \<open>loads\<close> is a recursive-descent parser with fuel; \<open>parse_fuel\<close> shows that the fuel it is given
  never runs out. \<open>NaN\<close> and \<open>Infinity\<close>, which no modelled document holds, are not accepted.
\<close>

datatype json =
    JNull
  | JBool bool
  | JInt int
  | JFloat string
  | JStr string
  | JArr "json list"
  | JObj "(string \<times> json) list"

section \<open>Writing\<close>

definition esc_char :: "char \<Rightarrow> string" where
  "esc_char c =
     (if c = CHR 0x22 then [CHR 0x5C, CHR 0x22]
      else if c = CHR 0x5C then [CHR 0x5C, CHR 0x5C]
      else if c = CHR 0x0A then [CHR 0x5C, CHR ''n'']
      else if c = CHR 0x0D then [CHR 0x5C, CHR ''r'']
      else if c = CHR 0x09 then [CHR 0x5C, CHR ''t'']
      else if c = CHR 0x0C then [CHR 0x5C, CHR ''f'']
      else if c = CHR 0x08 then [CHR 0x5C, CHR ''b'']
      else if 32 \<le> (of_char c :: nat) \<and> (of_char c :: nat) \<le> 126 then [c]
      else [CHR 0x5C, CHR ''u'', CHR ''0'', CHR ''0'', hex_digit (of_char c div 16), hex_digit (of_char c mod 16)])"

definition write_str :: "string \<Rightarrow> string" where
  "write_str s = CHR 0x22 # concat (map esc_char s) @ [CHR 0x22]"

fun jwrite :: "json \<Rightarrow> string" and write_elems :: "json list \<Rightarrow> string"
  and write_members :: "(string \<times> json) list \<Rightarrow> string" where
  "jwrite JNull = ''null''"
| "jwrite (JBool b) = (if b then ''true'' else ''false'')"
| "jwrite (JInt i) = dec i"
| "jwrite (JFloat t) = t"
| "jwrite (JStr s) = write_str s"
| "jwrite (JArr xs) = CHR ''['' # (case xs of [] \<Rightarrow> '']'' | _ \<Rightarrow> write_elems xs)"
| "jwrite (JObj kvs) = CHR ''{'' # (case kvs of [] \<Rightarrow> ''}'' | _ \<Rightarrow> write_members kvs)"
| "write_elems [] = '']''"
| "write_elems (x # xs) = jwrite x @ (case xs of [] \<Rightarrow> '']'' | _ \<Rightarrow> CHR '','' # write_elems xs)"
| "write_members [] = ''}''"
| "write_members ((k, v) # kvs) =
     write_str k @ CHR '':'' # jwrite v @ (case kvs of [] \<Rightarrow> ''}'' | _ \<Rightarrow> CHR '','' # write_members kvs)"

text \<open>\<open>sort_keys\<close> sorts the members of every object; keys are distinct, so the sort is canonical.\<close>

fun sort_json :: "json \<Rightarrow> json" and sort_elems :: "json list \<Rightarrow> json list"
  and sort_members :: "(string \<times> json) list \<Rightarrow> (string \<times> json) list" where
  "sort_json (JArr xs) = JArr (sort_elems xs)"
| "sort_json (JObj kvs) = JObj (sort_key fst (sort_members kvs))"
| "sort_json JNull = JNull"
| "sort_json (JBool b) = JBool b"
| "sort_json (JInt i) = JInt i"
| "sort_json (JFloat t) = JFloat t"
| "sort_json (JStr s) = JStr s"
| "sort_elems [] = []"
| "sort_elems (x # xs) = sort_json x # sort_elems xs"
| "sort_members [] = []"
| "sort_members ((k, v) # kvs) = (k, sort_json v) # sort_members kvs"

definition dumps :: "json \<Rightarrow> string" where
  "dumps j = jwrite (sort_json j)"

text \<open>\<open>repr\<close> of a decoded value.\<close>

fun json_repr :: "json \<Rightarrow> string" where
  "json_repr JNull = ''None''"
| "json_repr (JBool b) = (if b then ''True'' else ''False'')"
| "json_repr (JInt i) = dec i"
| "json_repr (JFloat t) = t"
| "json_repr (JStr s) = py_repr s"
| "json_repr (JArr xs) = ''['' @ str_join '', '' (map json_repr xs) @ '']''"
| "json_repr (JObj kvs) = ''{'' @ str_join '', '' (map (\<lambda>(k, v). py_repr k @ '': '' @ json_repr v) kvs) @ ''}''"

text \<open>\<open>str(v)\<close> of a decoded value.\<close>

fun py_str :: "json \<Rightarrow> string" where
  "py_str (JStr s) = s"
| "py_str v = json_repr v"

section \<open>Reading\<close>

definition is_ws :: "char \<Rightarrow> bool" where
  "is_ws c \<longleftrightarrow> c = CHR '' '' \<or> c = CHR 0x09 \<or> c = CHR 0x0A \<or> c = CHR 0x0D"

definition skip_ws :: "string \<Rightarrow> string" where
  "skip_ws s = dropWhile is_ws s"

definition hex_val :: "char \<Rightarrow> nat option" where
  "hex_val c =
     (let n = of_char c in
      if 48 \<le> n \<and> n \<le> (57 :: nat) then Some (n - 48)
      else if 97 \<le> n \<and> n \<le> 102 then Some (n - 87)
      else if 65 \<le> n \<and> n \<le> 70 then Some (n - 55)
      else None)"

definition hex4 :: "char \<Rightarrow> char \<Rightarrow> char \<Rightarrow> char \<Rightarrow> nat option" where
  "hex4 a b c d =
     (case (hex_val a, hex_val b, hex_val c, hex_val d) of
        (Some a, Some b, Some c, Some d) \<Rightarrow> Some (((a * 16 + b) * 16 + c) * 16 + d)
      | _ \<Rightarrow> None)"

definition unescape :: "char \<Rightarrow> char option" where
  "unescape c =
     (if c = CHR 0x22 \<or> c = CHR 0x5C \<or> c = CHR ''/'' then Some c
      else if c = CHR ''n'' then Some (CHR 0x0A)
      else if c = CHR ''r'' then Some (CHR 0x0D)
      else if c = CHR ''t'' then Some (CHR 0x09)
      else if c = CHR ''f'' then Some (CHR 0x0C)
      else if c = CHR ''b'' then Some (CHR 0x08)
      else None)"

definition cons_fst :: "char \<Rightarrow> (string \<times> string) option \<Rightarrow> (string \<times> string) option" where
  "cons_fst c r = map_option (\<lambda>(s, t). (c # s, t)) r"

text \<open>The text of a string after its opening quote. Unescaped control characters are refused.\<close>

fun parse_str :: "string \<Rightarrow> (string \<times> string) option" where
  "parse_str [] = None"
| "parse_str (c # cs) =
     (if c = CHR 0x22 then Some ([], cs)
      else if c = CHR 0x5C then
        (case cs of
           [] \<Rightarrow> None
         | e # es \<Rightarrow>
             if e = CHR ''u'' then
               (case es of
                  h1 # h2 # h3 # h4 # r \<Rightarrow>
                    (case hex4 h1 h2 h3 h4 of
                       Some n \<Rightarrow> if n < 256 then cons_fst (char_of n) (parse_str r) else None
                     | None \<Rightarrow> None)
                | _ \<Rightarrow> None)
             else (case unescape e of Some d \<Rightarrow> cons_fst d (parse_str es) | None \<Rightarrow> None))
      else if (of_char c :: nat) < 32 then None
      else cons_fst c (parse_str cs))"

text \<open>
  Numbers: the longest run of number characters must be an integer or a float literal. (A run that
  is neither starts with a literal that Python would accept and then stops at a number character,
  which no JSON document allows, so both readings reject the document.)
\<close>

definition num_char :: "char \<Rightarrow> bool" where
  "num_char c \<longleftrightarrow> is_digit c \<or> c \<in> {CHR ''-'', CHR ''+'', CHR ''.'', CHR ''e'', CHR ''E''}"

definition int_digits :: "string \<Rightarrow> bool" where
  "int_digits ds \<longleftrightarrow> ds \<noteq> [] \<and> list_all is_digit ds \<and> (hd ds = CHR ''0'' \<longrightarrow> ds = ''0'')"

definition unsign :: "string \<Rightarrow> string" where
  "unsign t = (case t of c # cs \<Rightarrow> if c = CHR ''-'' then cs else t | [] \<Rightarrow> [])"

definition int_token :: "string \<Rightarrow> bool" where
  "int_token t \<longleftrightarrow> int_digits (unsign t)"

definition int_value :: "string \<Rightarrow> int" where
  "int_value t = (if t \<noteq> [] \<and> hd t = CHR ''-'' then - int (undec (tl t)) else int (undec t))"

definition exp_ok :: "string \<Rightarrow> bool" where
  "exp_ok r = (case r of [] \<Rightarrow> True
     | e # ds \<Rightarrow> (e = CHR ''e'' \<or> e = CHR ''E'') \<and>
         (let ds' = (case ds of s # x \<Rightarrow> if s = CHR ''+'' \<or> s = CHR ''-'' then x else ds | [] \<Rightarrow> [])
          in ds' \<noteq> [] \<and> list_all is_digit ds'))"

definition float_token :: "string \<Rightarrow> bool" where
  "float_token t \<longleftrightarrow> list_all num_char t \<and> \<not> int_token t \<and>
     (let u = unsign t; r = dropWhile is_digit u
      in int_digits (takeWhile is_digit u) \<and>
         (case r of
            c # f \<Rightarrow> if c = CHR ''.'' then takeWhile is_digit f \<noteq> [] \<and> exp_ok (dropWhile is_digit f) else exp_ok r
          | [] \<Rightarrow> False))"

definition parse_number :: "string \<Rightarrow> (json \<times> string) option" where
  "parse_number s =
     (let t = takeWhile num_char s; r = dropWhile num_char s
      in if int_token t then Some (JInt (int_value t), r)
         else if float_token t then Some (JFloat t, r)
         else None)"

definition parse_word :: "string \<Rightarrow> (json \<times> string) option" where
  "parse_word s =
     (if starts_with ''null'' s then Some (JNull, drop 4 s)
      else if starts_with ''true'' s then Some (JBool True, drop 4 s)
      else if starts_with ''false'' s then Some (JBool False, drop 5 s)
      else parse_number s)"

text \<open>The next character after white space, and what follows it.\<close>

definition next_is :: "char \<Rightarrow> string \<Rightarrow> bool" where
  "next_is c s \<longleftrightarrow> skip_ws s \<noteq> [] \<and> hd (skip_ws s) = c"

definition after :: "string \<Rightarrow> string" where
  "after s = tl (skip_ws s)"

fun parse_value :: "nat \<Rightarrow> string \<Rightarrow> (json \<times> string) option"
  and parse_elems :: "nat \<Rightarrow> json list \<Rightarrow> string \<Rightarrow> (json \<times> string) option"
  and parse_members :: "nat \<Rightarrow> (string \<times> json) list \<Rightarrow> string \<Rightarrow> (json \<times> string) option" where
  "parse_value 0 s = None"
| "parse_value (Suc f) s =
     (if s = [] then None
      else if hd s = CHR ''{'' then
        (if next_is (CHR ''}'') (tl s) then Some (JObj [], after (tl s))
         else parse_members f [] (skip_ws (tl s)))
      else if hd s = CHR ''['' then
        (if next_is (CHR '']'') (tl s) then Some (JArr [], after (tl s))
         else parse_elems f [] (skip_ws (tl s)))
      else if hd s = CHR 0x22 then map_option (\<lambda>(t, r). (JStr t, r)) (parse_str (tl s))
      else parse_word s)"
| "parse_elems 0 acc s = None"
| "parse_elems (Suc f) acc s =
     (case parse_value f s of
        None \<Rightarrow> None
      | Some (v, r) \<Rightarrow>
          if next_is (CHR '','') r then parse_elems f (acc @ [v]) (skip_ws (after r))
          else if next_is (CHR '']'') r then Some (JArr (acc @ [v]), after r)
          else None)"
| "parse_members 0 acc s = None"
| "parse_members (Suc f) acc s =
     (if s = [] \<or> hd s \<noteq> CHR 0x22 then None
      else (case parse_str (tl s) of
        None \<Rightarrow> None
      | Some (k, r) \<Rightarrow>
          if \<not> next_is (CHR '':'') r then None
          else (case parse_value f (skip_ws (after r)) of
            None \<Rightarrow> None
          | Some (v, r) \<Rightarrow>
              if next_is (CHR '','') r then parse_members f (AList.update k v acc) (skip_ws (after r))
              else if next_is (CHR ''}'') r then Some (JObj (AList.update k v acc), after r)
              else None)))"

definition loads :: "string \<Rightarrow> json option" where
  "loads s =
     (case parse_value (2 * length s + 2) (skip_ws s) of
        Some (v, r) \<Rightarrow> if skip_ws r = [] then Some v else None
      | None \<Rightarrow> None)"

section \<open>Strings round trip\<close>

lemma of_char_hex_digit:
  assumes "n < 16"
  shows "of_char (hex_digit n) = (if n < 10 then 48 + n else 87 + n)"
proof -
  have "48 + n < 256" "87 + n < 256" using assms by simp_all
  then show ?thesis by (simp add: hex_digit_def of_char_of)
qed

lemma hex_val_hex_digit: "n < 16 \<Longrightarrow> hex_val (hex_digit n) = Some n"
  by (simp add: hex_val_def of_char_hex_digit)

lemma hex4_code: "hex4 (CHR ''0'') (CHR ''0'') (hex_digit (of_char c div 16)) (hex_digit (of_char c mod 16)) = Some (of_char c)"
proof -
  have "(of_char c :: nat) div 16 < 16" by (rule less_mult_imp_div_less) simp
  moreover have "hex_val (CHR ''0'') = Some 0" by (simp add: hex_val_def)
  ultimately show ?thesis by (simp add: hex4_def hex_val_hex_digit)
qed

lemma parse_str_esc: "parse_str (esc_char c @ t) = cons_fst c (parse_str t)"
proof -
  consider "c \<in> {CHR 0x22, CHR 0x5C, CHR 0x0A, CHR 0x0D, CHR 0x09, CHR 0x0C, CHR 0x08}"
    | "c \<notin> {CHR 0x22, CHR 0x5C, CHR 0x0A, CHR 0x0D, CHR 0x09, CHR 0x0C, CHR 0x08}"
      "32 \<le> (of_char c :: nat) \<and> (of_char c :: nat) \<le> 126"
    | "c \<notin> {CHR 0x22, CHR 0x5C, CHR 0x0A, CHR 0x0D, CHR 0x09, CHR 0x0C, CHR 0x08}"
      "\<not> (32 \<le> (of_char c :: nat) \<and> (of_char c :: nat) \<le> 126)"
    by blast
  then show ?thesis
  proof cases
    case 1
    then show ?thesis by (elim insertE emptyE) (simp_all add: esc_char_def unescape_def)
  next
    case 2
    then show ?thesis by (simp add: esc_char_def)
  next
    case 3
    then have "esc_char c = [CHR 0x5C, CHR ''u'', CHR ''0'', CHR ''0'', hex_digit (of_char c div 16), hex_digit (of_char c mod 16)]"
      by (simp add: esc_char_def)
    then show ?thesis by (simp add: hex4_code)
  qed
qed

lemma parse_str_write: "parse_str (concat (map esc_char s) @ CHR 0x22 # t) = Some (s, t)"
proof (induction s)
  case (Cons c s)
  then show ?case by (simp add: parse_str_esc cons_fst_def)
qed simp

section \<open>Numbers round trip\<close>

definition stops :: "string \<Rightarrow> bool" where
  "stops r \<longleftrightarrow> r = [] \<or> \<not> num_char (hd r)"

lemma takeWhile_token:
  "list_all num_char t \<Longrightarrow> stops r \<Longrightarrow> takeWhile num_char (t @ r) = t \<and> dropWhile num_char (t @ r) = r"
  by (induction t) (auto simp: stops_def takeWhile_eq_Nil_iff dropWhile_eq_self_iff)

lemma is_digit_num_char: "is_digit c \<Longrightarrow> num_char c"
  by (simp add: num_char_def)

lemma dec_nat_head: "n \<noteq> 0 \<Longrightarrow> hd (dec_nat n) \<noteq> CHR ''0''"
proof (induction n rule: dec_nat.induct)
  case (1 n)
  show ?case
  proof (cases "n < 10")
    case True
    with 1(2) have "of_char (digit n) \<noteq> (of_char (CHR ''0'') :: nat)" by simp
    then have "digit n \<noteq> CHR ''0''" by metis
    with True show ?thesis by (simp add: dec_nat.simps [of n])
  next
    case False
    with 1 show ?thesis by (simp add: dec_nat.simps [of n])
  qed
qed

lemma int_digits_dec_nat: "int_digits (dec_nat n)"
proof (cases "n = 0")
  case True
  then show ?thesis by (simp add: dec_nat.simps digit_def int_digits_def is_digit_def)
next
  case False
  then show ?thesis
    using dec_nat_head [of n] by (auto simp: int_digits_def list_all_iff dest: dec_nat_digits)
qed

lemma digits_not_minus: "is_digit c \<Longrightarrow> c \<noteq> CHR ''-''"
  by (auto simp: is_digit_def)

lemma hd_dec_nat: "is_digit (hd (dec_nat n))"
  by (rule dec_nat_digits [of _ n]) simp

lemma unsign_dec_nat [simp]: "unsign (dec_nat n) = dec_nat n"
  using hd_dec_nat [of n] by (cases "dec_nat n") (auto simp: unsign_def dest: digits_not_minus)

lemma dec_token: "int_token (dec i) \<and> int_value (dec i) = i \<and> list_all num_char (dec i)"
proof (cases "i < 0")
  case True
  then show ?thesis
    by (auto simp: dec_def int_token_def unsign_def int_value_def int_digits_dec_nat list_all_iff num_char_def
        dest: dec_nat_digits)
next
  case False
  have "hd (dec_nat (nat i)) \<noteq> CHR ''-''" using hd_dec_nat digits_not_minus by blast
  with False show ?thesis
    by (auto simp: dec_def int_token_def int_value_def int_digits_dec_nat list_all_iff num_char_def
        dest: dec_nat_digits)
qed

lemma parse_number_dec: "stops r \<Longrightarrow> parse_number (dec i @ r) = Some (JInt i, r)"
  using dec_token [of i] by (simp add: parse_number_def takeWhile_token)

lemma parse_number_float: "float_token t \<Longrightarrow> stops r \<Longrightarrow> parse_number (t @ r) = Some (JFloat t, r)"
  by (simp add: parse_number_def takeWhile_token float_token_def)

lemma number_head:
  assumes "int_token t \<or> float_token t"
  shows "t \<noteq> [] \<and> (is_digit (hd t) \<or> hd t = CHR ''-'')"
proof (cases t)
  case Nil
  with assms show ?thesis
    by (auto simp: int_token_def float_token_def unsign_def int_digits_def)
next
  case (Cons c cs)
  with assms show ?thesis
    by (cases "is_digit c")
       (auto simp: int_token_def float_token_def unsign_def int_digits_def Let_def split: if_splits)
qed

section \<open>Documents round trip\<close>

text \<open>Well-formed documents: float texts are float literals and the keys of an object are distinct.\<close>

fun wf_json :: "json \<Rightarrow> bool" and wf_elems :: "json list \<Rightarrow> bool"
  and wf_members :: "(string \<times> json) list \<Rightarrow> bool" where
  "wf_json (JFloat t) = float_token t"
| "wf_json (JArr xs) = wf_elems xs"
| "wf_json (JObj kvs) = (distinct (map fst kvs) \<and> wf_members kvs)"
| "wf_json JNull = True"
| "wf_json (JBool b) = True"
| "wf_json (JInt i) = True"
| "wf_json (JStr s) = True"
| "wf_elems [] = True"
| "wf_elems (x # xs) = (wf_json x \<and> wf_elems xs)"
| "wf_members [] = True"
| "wf_members ((k, v) # kvs) = (wf_json v \<and> wf_members kvs)"

text \<open>The first character of a written value is none of the characters its context looks for.\<close>

definition value_head :: "char \<Rightarrow> bool" where
  "value_head c \<longleftrightarrow> \<not> is_ws c \<and> c \<noteq> CHR '']'' \<and> c \<noteq> CHR ''}'' \<and> c \<noteq> CHR '',''"

lemma number_char_heads:
  "is_digit c \<or> c = CHR ''-'' \<Longrightarrow> value_head c \<and> c \<noteq> CHR ''{'' \<and> c \<noteq> CHR ''['' \<and> c \<noteq> CHR 0x22
     \<and> c \<noteq> CHR ''n'' \<and> c \<noteq> CHR ''t'' \<and> c \<noteq> CHR ''f''"
  by (auto simp: value_head_def is_ws_def is_digit_def)

lemma jwrite_head: "wf_json j \<Longrightarrow> jwrite j \<noteq> [] \<and> value_head (hd (jwrite j))"
proof (cases j)
  case (JInt i)
  then show ?thesis using number_head [of "dec i"] dec_token [of i] number_char_heads by auto
next
  case (JFloat t)
  assume "wf_json j"
  with JFloat number_head [of t] number_char_heads show ?thesis by auto
qed (auto simp: value_head_def is_ws_def write_str_def)

lemma parse_word_number:
  assumes "parse_number (t @ r) = x" "t \<noteq> []" "is_digit (hd t) \<or> hd t = CHR ''-''"
  shows "parse_value (Suc f) (t @ r) = x"
proof -
  obtain c cs where t: "t = c # cs" using assms(2) by (cases t) auto
  note h = number_char_heads [of c]
  with assms(3) show ?thesis
    using assms(1) by (auto simp: t parse_word_def)
qed

lemma skip_ws_head: "s \<noteq> [] \<Longrightarrow> \<not> is_ws (hd s) \<Longrightarrow> skip_ws s = s"
  by (cases s) (auto simp: skip_ws_def)

lemma skip_ws_jwrite: "wf_json j \<Longrightarrow> skip_ws (jwrite j @ r) = jwrite j @ r"
  using jwrite_head [of j] by (intro skip_ws_head) (auto simp: value_head_def)

lemma stops_delim [simp]:
  "stops []" "stops (CHR '','' # r)" "stops (CHR '']'' # r)" "stops (CHR ''}'' # r)"
  by (simp_all add: stops_def num_char_def is_digit_def)

lemma ws_delim [simp]:
  "skip_ws (CHR '','' # r) = CHR '','' # r" "skip_ws (CHR '']'' # r) = CHR '']'' # r"
  "skip_ws (CHR ''}'' # r) = CHR ''}'' # r" "skip_ws (CHR '':'' # r) = CHR '':'' # r"
  "skip_ws (CHR 0x22 # r) = CHR 0x22 # r"
  by (simp_all add: skip_ws_def is_ws_def)

lemma next_is_delim [simp]:
  "next_is d (CHR '','' # r) \<longleftrightarrow> d = CHR '',''" "next_is d (CHR '']'' # r) \<longleftrightarrow> d = CHR '']''"
  "next_is d (CHR ''}'' # r) \<longleftrightarrow> d = CHR ''}''" "next_is d (CHR '':'' # r) \<longleftrightarrow> d = CHR '':''"
  "after (CHR '','' # r) = r" "after (CHR '']'' # r) = r" "after (CHR ''}'' # r) = r" "after (CHR '':'' # r) = r"
  by (auto simp: next_is_def after_def)

lemma skip_ws_write_members:
  "kvs \<noteq> [] \<Longrightarrow> skip_ws (write_members kvs @ r) = write_members kvs @ r"
  by (cases kvs) (auto simp: write_str_def skip_ws_def is_ws_def)

lemma skip_ws_write_elems:
  "xs \<noteq> [] \<Longrightarrow> wf_elems xs \<Longrightarrow> skip_ws (write_elems xs @ r) = write_elems xs @ r"
  by (cases xs) (auto simp: skip_ws_jwrite)

lemma length_jwrite_pos: "wf_json j \<Longrightarrow> 0 < length (jwrite j)"
  using jwrite_head by auto

lemma AList_update_new: "k \<notin> fst ` set al \<Longrightarrow> AList.update k v al = al @ [(k, v)]"
  by (induction al) auto

lemma parse_jwrite:
  "wf_json j \<Longrightarrow> stops r \<Longrightarrow> 2 * length (jwrite j) \<le> f \<Longrightarrow> parse_value f (jwrite j @ r) = Some (j, r)"
  "wf_elems xs \<Longrightarrow> xs \<noteq> [] \<Longrightarrow> 2 * length (write_elems xs) \<le> f \<Longrightarrow>
     parse_elems f acc (write_elems xs @ r) = Some (JArr (acc @ xs), r)"
  "wf_members kvs \<Longrightarrow> kvs \<noteq> [] \<Longrightarrow> distinct (map fst (macc @ kvs)) \<Longrightarrow> 2 * length (write_members kvs) \<le> f \<Longrightarrow>
     parse_members f macc (write_members kvs @ r) = Some (JObj (macc @ kvs), r)"
proof (induction j and xs and kvs arbitrary: f r and f r acc and f r macc rule: jwrite_write_elems_write_members.induct)
  case 1
  then show ?case by (cases f) (auto simp: parse_word_def)
next
  case (2 b)
  then show ?case by (cases f; cases b) (auto simp: parse_word_def)
next
  case (3 i)
  from 3(3) obtain f' where f: "f = Suc f'" by (cases f) auto
  have h: "dec i \<noteq> [] \<and> (is_digit (hd (dec i)) \<or> hd (dec i) = CHR ''-'')"
    using number_head [of "dec i"] dec_token [of i] by blast
  show ?case unfolding f jwrite.simps
    by (rule parse_word_number) (use h 3(2) in \<open>auto simp: parse_number_dec\<close>)
next
  case (4 t)
  then have h: "t \<noteq> [] \<and> (is_digit (hd t) \<or> hd t = CHR ''-'')" using number_head [of t] by simp
  with 4(3) obtain f' where f: "f = Suc f'" by (cases f) auto
  show ?case unfolding f jwrite.simps
    by (rule parse_word_number) (use h 4 in \<open>auto simp: parse_number_float\<close>)
next
  case (5 s)
  then obtain f' where f: "f = Suc f'" by (cases f) (auto simp: write_str_def)
  show ?case by (simp add: f write_str_def parse_str_write)
next
  case (6 xs)
  then obtain f' where f: "f = Suc f'" by (cases f) auto
  show ?case
  proof (cases xs)
    case Nil
    then show ?thesis by (simp add: f)
  next
    case (Cons y ys)
    have "2 * length (write_elems xs) \<le> f'" using 6(4) f Cons by simp
    then have IH: "parse_elems f' [] (write_elems xs @ r) = Some (JArr ([] @ xs), r)"
      using 6 Cons by (intro 6(1)) auto
    have "jwrite y \<noteq> []" "value_head (hd (jwrite y))" using jwrite_head [of y] 6(2) Cons by auto
    then have h: "hd (write_elems xs @ r) \<noteq> CHR '']''" using Cons by (auto simp: value_head_def)
    have ws: "skip_ws (write_elems xs @ r) = write_elems xs @ r"
      using 6(2) Cons by (intro skip_ws_write_elems) auto
    have "jwrite (JArr xs) @ r = CHR ''['' # write_elems xs @ r" using Cons by simp
    then show ?thesis using IH h by (simp add: f ws next_is_def del: jwrite.simps)
  qed
next
  case (7 kvs)
  then obtain f' where f: "f = Suc f'" by (cases f) auto
  show ?case
  proof (cases kvs)
    case Nil
    then show ?thesis by (simp add: f)
  next
    case (Cons p ps)
    have "2 * length (write_members kvs) \<le> f'" using 7(4) f Cons by simp
    then have IH: "parse_members f' [] (write_members kvs @ r) = Some (JObj ([] @ kvs), r)"
      using 7 Cons by (intro 7(1)) auto
    obtain k v where p: "p = (k, v)" by (cases p)
    have h: "hd (write_members kvs @ r) \<noteq> CHR ''}''" using Cons p by (simp add: write_str_def)
    have ws: "skip_ws (write_members kvs @ r) = write_members kvs @ r"
      using Cons by (intro skip_ws_write_members) auto
    have "jwrite (JObj kvs) @ r = CHR ''{'' # write_members kvs @ r" using Cons by simp
    then show ?thesis using IH h by (simp add: f ws next_is_def del: jwrite.simps)
  qed
next
  case 8
  then show ?case by simp
next
  case (9 x xs)
  from 9 have wx: "wf_json x" and wxs: "wf_elems xs" by simp_all
  from 9(5) length_jwrite_pos [OF wx] obtain f' where f: "f = Suc f'" by (cases f) auto
  have len: "2 * length (jwrite x) \<le> f'" using 9(5) f by (cases xs) auto
  show ?case
  proof (cases xs)
    case Nil
    have "parse_value f' (jwrite x @ CHR '']'' # r) = Some (x, CHR '']'' # r)"
      using wx len by (intro 9(1)) auto
    with Nil show ?thesis by (simp add: f)
  next
    case (Cons y ys)
    let ?rest = "write_elems xs @ r"
    have v: "parse_value f' (jwrite x @ CHR '','' # ?rest) = Some (x, CHR '','' # ?rest)"
      using wx len by (intro 9(1)) auto
    have "2 * length (write_elems xs) \<le> f'" using 9(5) f Cons length_jwrite_pos [OF wx] by simp
    then have "parse_elems f' (acc @ [x]) ?rest = Some (JArr ((acc @ [x]) @ xs), r)"
      using wxs Cons by (intro 9(2)) auto
    moreover have "write_elems (x # xs) @ r = jwrite x @ CHR '','' # ?rest" using Cons by simp
    ultimately show ?thesis
      using v Cons wxs by (simp add: f skip_ws_write_elems del: write_elems.simps(2))
  qed
next
  case 10
  then show ?case by simp
next
  case (11 k v kvs)
  from 11 have wv: "wf_json v" and ws: "wf_members kvs" by simp_all
  from 11(6) obtain f' where f: "f = Suc f'" by (cases f) (auto simp: write_str_def)
  have len: "2 * length (jwrite v) \<le> f'" using 11(6) f by (cases kvs) auto
  have new: "AList.update k v macc = macc @ [(k, v)]"
    using 11(5) by (intro AList_update_new) auto
  show ?case
  proof (cases kvs)
    case Nil
    have "parse_value f' (jwrite v @ CHR ''}'' # r) = Some (v, CHR ''}'' # r)"
      using wv len by (intro 11(1)) auto
    with Nil show ?thesis by (simp add: f write_str_def parse_str_write skip_ws_jwrite [OF wv] new)
  next
    case (Cons q qs)
    let ?rest = "write_members kvs @ r"
    have v: "parse_value f' (jwrite v @ CHR '','' # ?rest) = Some (v, CHR '','' # ?rest)"
      using wv len by (intro 11(1)) auto
    have "2 * length (write_members kvs) \<le> f'" using 11(6) f Cons by simp
    then have "parse_members f' (macc @ [(k, v)]) ?rest = Some (JObj ((macc @ [(k, v)]) @ kvs), r)"
      using ws Cons 11(5) by (intro 11(2)) auto
    moreover have "write_members ((k, v) # kvs) @ r = write_str k @ CHR '':'' # jwrite v @ CHR '','' # ?rest"
      using Cons by simp
    ultimately show ?thesis using v Cons
      by (simp add: f write_str_def parse_str_write skip_ws_jwrite [OF wv] new skip_ws_write_members
          del: write_members.simps)
  qed
qed

subsection \<open>Sorting keeps a document\<close>

lemma fst_sort_members [simp]: "map fst (sort_members kvs) = map fst kvs"
  by (induction kvs) auto

lemma map_of_sort_members: "map_of (sort_members kvs) k = map_option sort_json (map_of kvs k)"
  by (induction kvs) auto

lemma wf_members_iff: "wf_members kvs \<longleftrightarrow> (\<forall>(k, v) \<in> set kvs. wf_json v)"
  by (induction kvs) auto

lemma wf_elems_iff: "wf_elems xs \<longleftrightarrow> (\<forall>x \<in> set xs. wf_json x)"
  by (induction xs) auto

lemma sort_elems_map [simp]: "sort_elems xs = map sort_json xs"
  by (induction xs) auto

lemma wf_sort_json:
  "wf_json j \<Longrightarrow> wf_json (sort_json j)"
  "wf_elems xs \<Longrightarrow> wf_elems (sort_elems xs)"
  "wf_members kvs \<Longrightarrow> wf_members (sort_members kvs)"
proof (induction j and xs and kvs rule: sort_json_sort_elems_sort_members.induct)
  case (2 kvs)
  then have "wf_members (sort_key fst (sort_members kvs))"
    by (auto simp: wf_members_iff [of "sort_key _ _"] wf_members_iff [of "sort_members kvs"])
  moreover have "distinct (map fst (sort_key fst (sort_members kvs)))"
    using 2(2) by (simp add: distinct_map) (metis distinct_map fst_sort_members)
  ultimately show ?case by simp
qed auto

lemma map_of_sort_key:
  assumes "distinct (map fst kvs)"
  shows "map_of (sort_key fst kvs) = map_of kvs"
proof -
  have "distinct (map fst (sort_key fst kvs))" using assms by (simp add: distinct_map)
  with assms show ?thesis by (subst map_of_inject_set) auto
qed

text \<open>Member access, as \<open>doc[key]\<close> and \<open>doc.get(key)\<close> do it.\<close>

definition json_get :: "json \<Rightarrow> string \<Rightarrow> json option" where
  "json_get j k = (case j of JObj kvs \<Rightarrow> map_of kvs k | _ \<Rightarrow> None)"

lemma json_get_JObj [simp]: "json_get (JObj kvs) k = map_of kvs k"
  by (simp add: json_get_def)

lemma json_get_sort:
  "wf_json (JObj kvs) \<Longrightarrow> json_get (sort_json (JObj kvs)) k = map_option sort_json (map_of kvs k)"
  by (simp add: map_of_sort_key map_of_sort_members)

lemma loads_dumps_ws:
  assumes "wf_json j" "skip_ws w = []" "stops w"
  shows "loads (dumps j @ w) = Some (sort_json j)"
proof -
  have "parse_value (2 * length (dumps j @ w) + 2) (dumps j @ w) = Some (sort_json j, w)"
    unfolding dumps_def using assms by (intro parse_jwrite(1) wf_sort_json(1)) auto
  moreover have "skip_ws (dumps j @ w) = dumps j @ w"
    unfolding dumps_def by (rule skip_ws_jwrite) (rule wf_sort_json(1) [OF assms(1)])
  ultimately show ?thesis using assms(2) by (simp only: loads_def) simp
qed

lemma loads_dumps: "wf_json j \<Longrightarrow> loads (dumps j) = Some (sort_json j)"
  using loads_dumps_ws [of j "[]"] by (simp add: skip_ws_def)

subsection \<open>Fuel and prefixes\<close>

lemmas parse_unfold = parse_value.simps(2) parse_elems.simps(2) parse_members.simps(2)

declare parse_unfold [simp del]

lemma parse_mono_Suc:
  "(parse_value f s = Some x \<longrightarrow> parse_value (Suc f) s = Some x) \<and>
   (parse_elems f acc s = Some x \<longrightarrow> parse_elems (Suc f) acc s = Some x) \<and>
   (parse_members f macc s = Some x \<longrightarrow> parse_members (Suc f) macc s = Some x)"
proof (induction f arbitrary: s x acc macc)
  case 0
  then show ?case by simp
next
  case (Suc f)
  have v: "parse_value f s = Some x \<Longrightarrow> parse_value (Suc f) s = Some x" for s x using Suc by blast
  have e: "parse_elems f acc s = Some x \<Longrightarrow> parse_elems (Suc f) acc s = Some x" for s x acc using Suc by blast
  have m: "parse_members f acc s = Some x \<Longrightarrow> parse_members (Suc f) acc s = Some x" for s x acc using Suc by blast
  show ?case
  proof (intro conjI impI)
    assume "parse_value (Suc f) s = Some x"
    then show "parse_value (Suc (Suc f)) s = Some x"
      unfolding parse_value.simps(2) [of f] by (subst parse_value.simps(2)) (auto split: if_splits dest!: e m)
  next
    assume "parse_elems (Suc f) acc s = Some x"
    then show "parse_elems (Suc (Suc f)) acc s = Some x"
      unfolding parse_elems.simps(2) [of f]
      by (subst parse_elems.simps(2)) (auto split: if_splits option.splits dest!: e v)
  next
    assume "parse_members (Suc f) macc s = Some x"
    then show "parse_members (Suc (Suc f)) macc s = Some x"
      unfolding parse_members.simps(2) [of f]
      by (subst parse_members.simps(2)) (auto split: if_splits option.splits dest!: m v)
  qed
qed

lemma parse_mono:
  "parse_value f s = Some x \<Longrightarrow> f \<le> F \<Longrightarrow> parse_value F s = Some x"
  by (induction F) (auto simp: le_Suc_eq parse_mono_Suc)

text \<open>Parsing consumes input.\<close>

lemma length_skip_ws: "length (skip_ws s) \<le> length s"
  by (simp add: skip_ws_def length_dropWhile_le)

lemma length_after: "next_is c s \<Longrightarrow> length (after s) < length s"
  using length_skip_ws [of s] by (cases "skip_ws s") (auto simp: next_is_def after_def)

lemma length_parse_str: "parse_str s = Some (t, r) \<Longrightarrow> length r < length s"
proof (induction s arbitrary: t r rule: parse_str.induct)
  case (2 c cs)
  then show ?case
    by (auto simp: cons_fst_def less_SucI split: if_splits list.splits option.splits)
qed simp

lemma length_parse_number: "parse_number s = Some (v, r) \<Longrightarrow> length r < length s"
proof -
  assume p: "parse_number s = Some (v, r)"
  then have "takeWhile num_char s \<noteq> []" "r = dropWhile num_char s"
    using number_head [of "takeWhile num_char s"] by (auto simp: parse_number_def Let_def split: if_splits)
  then show ?thesis
    by (metis append_self_conv2 length_append length_greater_0_conv less_add_same_cancel2 takeWhile_dropWhile_id)
qed

lemma length_parse_word: "parse_word s = Some (v, r) \<Longrightarrow> s \<noteq> [] \<Longrightarrow> length r < length s"
  by (auto simp: parse_word_def length_parse_number split: if_splits)

lemma parse_consumes:
  "(parse_value f s = Some (v, r) \<longrightarrow> length r < length s) \<and>
   (parse_elems f acc s = Some (v, r) \<longrightarrow> length r < length s) \<and>
   (parse_members f macc s = Some (v, r) \<longrightarrow> length r < length s)"
proof (induction f arbitrary: s v r acc macc)
  case 0
  then show ?case by simp
next
  case (Suc f)
  have V: "parse_value f s = Some (v, r) \<Longrightarrow> length r < length s" for s v r using Suc by blast
  have E: "parse_elems f acc s = Some (v, r) \<Longrightarrow> length r < length s" for s v r acc using Suc by blast
  have M: "parse_members f acc s = Some (v, r) \<Longrightarrow> length r < length s" for s v r acc using Suc by blast
  show ?case
  proof (intro conjI impI)
    assume "parse_value (Suc f) s = Some (v, r)"
    then show "length r < length s"
      unfolding parse_value.simps(2) using length_skip_ws [of "tl s"]
        length_after [of "CHR ''}''" "tl s"] length_after [of "CHR '']''" "tl s"]
      by (auto split: if_splits dest!: E M length_parse_str intro: length_parse_word)
  next
    assume "parse_elems (Suc f) acc s = Some (v, r)"
    then obtain u t where 1: "parse_value f s = Some (u, t)"
        and 2: "(if next_is (CHR '','') t then parse_elems f (acc @ [u]) (skip_ws (after t))
          else if next_is (CHR '']'') t then Some (JArr (acc @ [u]), after t) else None) = Some (v, r)"
      unfolding parse_elems.simps(2) by (auto split: option.splits)
    from V [OF 1] 2 length_after [of _ t] length_skip_ws [of "after t"] show "length r < length s"
      by (auto split: if_splits dest!: E) (metis less_trans order_less_le_trans)+
  next
    assume "parse_members (Suc f) macc s = Some (v, r)"
    then obtain k t u t' where 0: "s \<noteq> []" "parse_str (tl s) = Some (k, t)" "next_is (CHR '':'') t"
        and 1: "parse_value f (skip_ws (after t)) = Some (u, t')"
        and 2: "(if next_is (CHR '','') t' then parse_members f (AList.update k u macc) (skip_ws (after t'))
          else if next_is (CHR ''}'') t' then Some (JObj (AList.update k u macc), after t') else None) = Some (v, r)"
      unfolding parse_members.simps(2) by (auto split: option.splits if_splits)
    have "length t' < length s"
      using V [OF 1] length_parse_str [OF 0(2)] length_after [OF 0(3)] length_skip_ws [of "after t"] by simp
    with 2 length_after [of _ t'] length_skip_ws [of "after t'"] show "length r < length s"
      by (auto split: if_splits dest!: M) (metis less_trans order_less_le_trans)+
  qed
qed

text \<open>
  The fuel \<open>loads\<close> is given is enough: whatever a parse with more fuel returns, the parse with
  twice the length of the input returns too.
\<close>

lemma parse_fuel:
  "(parse_value F s = Some x \<longrightarrow> 2 * length s \<le> f \<longrightarrow> parse_value f s = Some x) \<and>
   (parse_elems F acc s = Some x \<longrightarrow> 2 * length s + 1 \<le> f \<longrightarrow> parse_elems f acc s = Some x) \<and>
   (parse_members F macc s = Some x \<longrightarrow> 2 * length s + 1 \<le> f \<longrightarrow> parse_members f macc s = Some x)"
proof (induction F arbitrary: f s x acc macc)
  case 0
  then show ?case by simp
next
  case (Suc F)
  have V: "parse_value F s = Some x \<Longrightarrow> 2 * length s \<le> f \<Longrightarrow> parse_value f s = Some x" for f s x
    using Suc by blast
  have E: "parse_elems F acc s = Some x \<Longrightarrow> 2 * length s + 1 \<le> f \<Longrightarrow> parse_elems f acc s = Some x" for f s x acc
    using Suc by blast
  have M: "parse_members F acc s = Some x \<Longrightarrow> 2 * length s + 1 \<le> f \<Longrightarrow> parse_members f acc s = Some x" for f s x acc
    using Suc by blast
  show ?case
  proof (intro conjI impI)
    assume p: "parse_value (Suc F) s = Some x" and f: "2 * length s \<le> f"
    then have "s \<noteq> []" by (auto simp: parse_value.simps(2))
    then obtain f' where f': "f = Suc f'" "2 * length (skip_ws (tl s)) + 1 \<le> f'"
      using f length_skip_ws [of "tl s"] by (cases f; cases s) auto
    show "parse_value f s = Some x"
      using p unfolding f' parse_value.simps(2) by (auto split: if_splits intro: E [OF _ f'(2)] M [OF _ f'(2)])
  next
    assume p: "parse_elems (Suc F) acc s = Some x" and f: "2 * length s + 1 \<le> f"
    then obtain f' where f': "f = Suc f'" "2 * length s \<le> f'" by (cases f) auto
    from p obtain u t where 1: "parse_value F s = Some (u, t)"
        and 2: "(if next_is (CHR '','') t then parse_elems F (acc @ [u]) (skip_ws (after t))
          else if next_is (CHR '']'') t then Some (JArr (acc @ [u]), after t) else None) = Some x"
      unfolding parse_elems.simps(2) by (auto split: option.splits)
    have "length t < length s" by (rule parse_consumes [THEN conjunct1, THEN mp, OF 1])
    then have "next_is (CHR '','') t \<Longrightarrow> 2 * length (skip_ws (after t)) + 1 \<le> f'"
      using f'(2) length_after [of "CHR '',''" t] length_skip_ws [of "after t"] by linarith
    then show "parse_elems f acc s = Some x"
      using 2 V [OF 1 f'(2)] unfolding f'(1) parse_elems.simps(2) by (auto split: if_splits intro: E)
  next
    assume p: "parse_members (Suc F) macc s = Some x" and f: "2 * length s + 1 \<le> f"
    then obtain f' where f': "f = Suc f'" "2 * length s \<le> f'" by (cases f) auto
    from p obtain k t u t' where 0: "s \<noteq> []" "hd s = CHR 0x22" "parse_str (tl s) = Some (k, t)" "next_is (CHR '':'') t"
        and 1: "parse_value F (skip_ws (after t)) = Some (u, t')"
        and 2: "(if next_is (CHR '','') t' then parse_members F (AList.update k u macc) (skip_ws (after t'))
          else if next_is (CHR ''}'') t' then Some (JObj (AList.update k u macc), after t') else None) = Some x"
      unfolding parse_members.simps(2) by (auto split: option.splits if_splits)
    have len: "length (skip_ws (after t)) < length s"
      using length_parse_str [OF 0(3)] length_after [OF 0(4)] length_skip_ws [of "after t"] by simp
    then have "parse_value f' (skip_ws (after t)) = Some (u, t')" using f'(2) by (intro V [OF 1]) simp
    moreover have "length t' < length (skip_ws (after t))" by (rule parse_consumes [THEN conjunct1, THEN mp, OF 1])
    then have "next_is (CHR '','') t' \<Longrightarrow> 2 * length (skip_ws (after t')) + 1 \<le> f'"
      using len f'(2) length_after [of "CHR '',''" t'] length_skip_ws [of "after t'"] by linarith
    ultimately show "parse_members f macc s = Some x"
      using 2 0 unfolding f'(1) parse_members.simps(2) by (auto split: if_splits intro: M)
  qed
qed

text \<open>
  What a parse has consumed decides its result: a value that ends before the end of the input, or
  that is a string, an array or an object, is parsed alike whatever follows the input.
\<close>

lemma skip_ws_append: "skip_ws s \<noteq> [] \<Longrightarrow> skip_ws (s @ q) = skip_ws s @ q"
  by (auto simp: skip_ws_def dropWhile_append dropWhile_eq_Nil_conv)

lemma next_is_append: "next_is c s \<Longrightarrow> next_is c (s @ q) \<and> after (s @ q) = after s @ q"
  by (auto simp: next_is_def after_def skip_ws_append)

lemma not_next_is_append: "skip_ws s \<noteq> [] \<Longrightarrow> \<not> next_is c s \<Longrightarrow> \<not> next_is c (s @ q)"
  by (auto simp: next_is_def skip_ws_append)

lemma cons_fst_Some: "cons_fst c x = Some (t, r) \<longleftrightarrow> (\<exists>t'. t = c # t' \<and> x = Some (t', r))"
  by (auto simp: cons_fst_def)

lemma parse_str_append: "parse_str s = Some (t, r) \<Longrightarrow> parse_str (s @ q) = Some (t, r @ q)"
proof (induction s arbitrary: t r rule: parse_str.induct)
  case (2 c cs)
  consider "c = CHR 0x22" | "c = CHR 0x5C" | "c \<noteq> CHR 0x22" "c \<noteq> CHR 0x5C" by blast
  then show ?case
  proof cases
    case 2
    then obtain e es where cs: "cs = e # es" using 2 "2.prems" by (cases cs) auto
    show ?thesis
    proof (cases "e = CHR ''u''")
      case True
      then obtain h1 h2 h3 h4 u where "es = h1 # h2 # h3 # h4 # u"
        using 2 cs "2.prems" by (auto split: list.splits)
      then show ?thesis
        using 2 cs True "2.prems" "2.IH"(1) by (auto simp: cons_fst_Some split: option.splits if_splits)
    next
      case False
      then show ?thesis
        using 2 cs "2.prems" "2.IH"(2) by (auto simp: cons_fst_Some split: option.splits)
    qed
  qed (use "2.prems" "2.IH"(3) in \<open>auto simp: cons_fst_Some split: if_splits\<close>)
qed simp

lemma parse_number_append:
  "parse_number s = Some (v, r) \<Longrightarrow> r \<noteq> [] \<Longrightarrow> parse_number (s @ q) = Some (v, r @ q)"
proof -
  assume p: "parse_number s = Some (v, r)" "r \<noteq> []"
  then have r: "dropWhile num_char s = r" by (auto simp: parse_number_def Let_def split: if_splits)
  with p(2) have "\<not> (\<forall>c \<in> set s. num_char c)" by (metis dropWhile_eq_Nil_conv)
  then have "takeWhile num_char (s @ q) = takeWhile num_char s" "dropWhile num_char (s @ q) = dropWhile num_char s @ q"
    by (auto simp: takeWhile_append dropWhile_append)
  with p r show ?thesis by (auto simp: parse_number_def Let_def split: if_splits)
qed

lemma starts_with_append: "starts_with p s \<Longrightarrow> starts_with p (s @ q)"
  by (auto simp: starts_with_iff)

lemma starts_with_appendD:
  "starts_with w (s @ q) \<Longrightarrow> r \<noteq> [] \<Longrightarrow> parse_number s = Some (v, r) \<Longrightarrow> w \<in> {''null'', ''true'', ''false''} \<Longrightarrow> False"
proof -
  assume w: "starts_with w (s @ q)" "w \<in> {''null'', ''true'', ''false''}" and p: "r \<noteq> []" "parse_number s = Some (v, r)"
  then have "takeWhile num_char s \<noteq> []"
    using number_head [of "takeWhile num_char s"] by (auto simp: parse_number_def Let_def split: if_splits)
  then have "s \<noteq> []" "num_char (hd s)" by (cases s; auto split: if_splits)+
  with w show False by (cases s) (auto simp: starts_with_iff num_char_def is_digit_def)
qed

lemma parse_word_append:
  assumes "parse_word s = Some (v, r)" "r \<noteq> []"
  shows "parse_word (s @ q) = Some (v, r @ q)"
proof -
  have n: "starts_with w s \<Longrightarrow> starts_with w (s @ q) \<and> drop (length w) (s @ q) = drop (length w) s @ q" for w
    by (auto simp: starts_with_iff)
  consider w where "w = ''null''" "starts_with w s" | w where "w = ''true''" "starts_with w s"
    | w where "w = ''false''" "starts_with w s"
    | "\<not> starts_with ''null'' s" "\<not> starts_with ''true'' s" "\<not> starts_with ''false'' s"
    by blast
  then show ?thesis
  proof cases
    case 4
    with assms have p: "parse_number s = Some (v, r)" by (simp add: parse_word_def)
    show ?thesis
      using starts_with_appendD [OF _ assms(2) p] parse_number_append [OF p assms(2)] by (auto simp: parse_word_def)
  qed (use assms n in \<open>auto simp: parse_word_def starts_with_iff\<close>)
qed

lemma parse_elems_Nil: "parse_elems f acc [] = None"
proof (rule ccontr)
  assume "parse_elems f acc [] \<noteq> None"
  then obtain v r where "parse_elems f acc [] = Some (v, r)" by auto
  then show False using parse_consumes [THEN conjunct2, THEN conjunct1, THEN mp] by fastforce
qed

lemma parse_members_Nil: "parse_members f acc [] = None"
  by (cases f) (simp_all add: parse_members.simps(2))

lemma parse_append:
  "(parse_value f s = Some (v, r) \<longrightarrow> r \<noteq> [] \<or> hd s \<in> {CHR ''{'', CHR ''['', CHR 0x22} \<longrightarrow>
      parse_value f (s @ q) = Some (v, r @ q)) \<and>
   (parse_elems f acc s = Some (v, r) \<longrightarrow> parse_elems f acc (s @ q) = Some (v, r @ q)) \<and>
   (parse_members f macc s = Some (v, r) \<longrightarrow> parse_members f macc (s @ q) = Some (v, r @ q))"
proof (induction f arbitrary: s v r acc macc)
  case 0
  then show ?case by simp
next
  case (Suc f)
  have V: "parse_value f (s @ q) = Some (v, r @ q)"
    if "parse_value f s = Some (v, r)" "next_is c r" for s v r c
  proof -
    have "r \<noteq> []" using that(2) by (auto simp: next_is_def skip_ws_def)
    then show ?thesis using that(1) Suc by blast
  qed
  have E: "parse_elems f acc s = Some (v, r) \<Longrightarrow> parse_elems f acc (s @ q) = Some (v, r @ q)" for s v r acc
    using Suc by blast
  have M: "parse_members f acc s = Some (v, r) \<Longrightarrow> parse_members f acc (s @ q) = Some (v, r @ q)" for s v r acc
    using Suc by blast
  have S: "skip_ws (t @ q) = skip_ws t @ q" if "skip_ws t \<noteq> []" for t using skip_ws_append [OF that] .
  show ?case
  proof (intro conjI impI)
    assume p: "parse_value (Suc f) s = Some (v, r)" and o: "r \<noteq> [] \<or> hd s \<in> {CHR ''{'', CHR ''['', CHR 0x22}"
    then obtain c cs where s: "s = c # cs" by (cases s) (auto simp: parse_value.simps(2))
    consider "c = CHR ''{''" | "c = CHR ''[''" | "c = CHR 0x22" | "c \<noteq> CHR ''{''" "c \<noteq> CHR ''[''" "c \<noteq> CHR 0x22"
      by blast
    then show "parse_value (Suc f) (s @ q) = Some (v, r @ q)"
    proof cases
      case 1
      show ?thesis
      proof (cases "next_is (CHR ''}'') cs")
        case True
        then show ?thesis using 1 p s next_is_append [OF True] by (simp add: parse_value.simps(2))
      next
        case False
        with 1 p s have m: "parse_members f [] (skip_ws cs) = Some (v, r)" by (simp add: parse_value.simps(2))
        then have "skip_ws cs \<noteq> []" by (auto simp: parse_members_Nil)
        then show ?thesis
          using 1 s False M [OF m] S not_next_is_append by (simp add: parse_value.simps(2))
      qed
    next
      case 2
      show ?thesis
      proof (cases "next_is (CHR '']'') cs")
        case True
        then show ?thesis using 2 p s next_is_append [OF True] by (simp add: parse_value.simps(2))
      next
        case False
        with 2 p s have m: "parse_elems f [] (skip_ws cs) = Some (v, r)" by (simp add: parse_value.simps(2))
        then have "skip_ws cs \<noteq> []" by (auto simp: parse_elems_Nil)
        then show ?thesis
          using 2 s False E [OF m] S not_next_is_append by (simp add: parse_value.simps(2))
      qed
    next
      case 3
      with p s show ?thesis by (auto simp: parse_value.simps(2) parse_str_append)
    next
      case 4
      with p s o show ?thesis using parse_word_append [of s v r q] by (simp add: parse_value.simps(2))
    qed
  next
    assume "parse_elems (Suc f) acc s = Some (v, r)"
    then obtain u t where 1: "parse_value f s = Some (u, t)"
        and 2: "(if next_is (CHR '','') t then parse_elems f (acc @ [u]) (skip_ws (after t))
          else if next_is (CHR '']'') t then Some (JArr (acc @ [u]), after t) else None) = Some (v, r)"
      unfolding parse_elems.simps(2) by (auto split: option.splits)
    show "parse_elems (Suc f) acc (s @ q) = Some (v, r @ q)"
    proof (cases "next_is (CHR '','') t")
      case True
      with 2 have e: "parse_elems f (acc @ [u]) (skip_ws (after t)) = Some (v, r)" by simp
      then have "skip_ws (after t) \<noteq> []" using parse_elems_Nil by auto
      with True E [OF e] V [OF 1 True] next_is_append [OF True, of q] S show ?thesis
        by (simp add: parse_elems.simps(2))
    next
      case False
      with 2 have n: "next_is (CHR '']'') t" by (auto split: if_splits)
      then have "\<not> next_is (CHR '','') (t @ q)"
        using n False by (intro not_next_is_append) (simp_all add: next_is_def)
      with n False 2 V [OF 1 n] next_is_append [OF n, of q] show ?thesis
        by (simp add: parse_elems.simps(2))
    qed
  next
    assume "parse_members (Suc f) macc s = Some (v, r)"
    then obtain k t u t' where 0: "s \<noteq> []" "hd s = CHR 0x22" "parse_str (tl s) = Some (k, t)" "next_is (CHR '':'') t"
        and 1: "parse_value f (skip_ws (after t)) = Some (u, t')"
        and 2: "(if next_is (CHR '','') t' then parse_members f (AList.update k u macc) (skip_ws (after t'))
          else if next_is (CHR ''}'') t' then Some (JObj (AList.update k u macc), after t') else None) = Some (v, r)"
      unfolding parse_members.simps(2) by (auto split: option.splits if_splits)
    have a: "skip_ws (after t) \<noteq> []" using 1 parse_consumes by fastforce
    have h: "parse_str (tl (s @ q)) = Some (k, t @ q)" "next_is (CHR '':'') (t @ q)"
        "skip_ws (after (t @ q)) = skip_ws (after t) @ q" "s @ q \<noteq> []" "hd (s @ q) = CHR 0x22"
      using 0 parse_str_append [OF 0(3)] next_is_append [OF 0(4), of q] S [OF a] by auto
    show "parse_members (Suc f) macc (s @ q) = Some (v, r @ q)"
    proof (cases "next_is (CHR '','') t'")
      case True
      with 2 have e: "parse_members f (AList.update k u macc) (skip_ws (after t')) = Some (v, r)" by simp
      then have "skip_ws (after t') \<noteq> []" by (auto simp: parse_members_Nil)
      with True M [OF e] V [OF 1 True] next_is_append [OF True, of q] S h show ?thesis
        by (simp add: parse_members.simps(2))
    next
      case False
      with 2 have n: "next_is (CHR ''}'') t'" by (auto split: if_splits)
      then have "\<not> next_is (CHR '','') (t' @ q)"
        using n False by (intro not_next_is_append) (simp_all add: next_is_def)
      with n False 2 V [OF 1 n] next_is_append [OF n, of q] h show ?thesis
        by (simp add: parse_members.simps(2))
    qed
  qed
qed

text \<open>A document that is an object is lost as a whole when its text is cut short.\<close>

lemma loads_torn:
  assumes "wf_json (JObj kvs)" "dumps (JObj kvs) = p @ q" "q \<noteq> []"
  shows "loads p = None"
proof (rule ccontr)
  assume "loads p \<noteq> None"
  then obtain v r where v: "parse_value (2 * length p + 2) (skip_ws p) = Some (v, r)"
    by (auto simp: loads_def split: option.splits)
  have "length r < length (skip_ws p)" by (rule parse_consumes [THEN conjunct1, THEN mp, OF v])
  then have ne: "skip_ws p \<noteq> []" by auto
  have h: "dumps (JObj kvs) = CHR ''{'' # tl (dumps (JObj kvs))" by (simp add: dumps_def)
  have p: "p \<noteq> []" "hd p = CHR ''{''"
  proof -
    show p: "p \<noteq> []" using ne by (auto simp: skip_ws_def)
    show "hd p = CHR ''{''" using assms(2) h p by (metis hd_append2 list.sel(1))
  qed
  then have "skip_ws p = p" by (cases p) (auto simp: skip_ws_def is_ws_def)
  with v have "parse_value (2 * length p + 2) (p @ q) = Some (v, r @ q)"
    using p parse_append [THEN conjunct1, THEN mp, THEN mp, of _ p] by simp
  then have "parse_value (2 * length (p @ q) + 2) (p @ q) = Some (v, r @ q)"
    by (rule parse_mono) simp
  moreover have "parse_value (2 * length (p @ q) + 2) (dumps (JObj kvs) @ []) = Some (sort_json (JObj kvs), [])"
    unfolding dumps_def using assms(1) assms(2) [unfolded dumps_def]
    by (intro parse_jwrite(1) wf_sort_json(1)) (auto simp: stops_def)
  ultimately show False using assms(2,3) by simp
qed

end
