(* ===== verification/Carried_Warnings.thy ===== *)
theory Carried_Warnings
  imports Prelude
begin

text \<open>
  Warnings that a task issues in a worker process and that travel to the driver inside the task's
  partial (\<open>core/worker_warnings.py\<close>), and the contract of a reduction: \<open>combine\<close> is associative
  with an identity, so the shape of the reduction tree does not matter.

  A warning class is its name. What \<open>pickle\<close> and the class hierarchy say of it is the argument
  \<open>classes\<close>: whether it survives the trip, its \<open>__mro__\<close> and the module of each class.
\<close>

section \<open>The contract of a reduction\<close>

text \<open>A reduction tree over leaves, and what it evaluates to.\<close>

datatype 'a reduction_tree = Leaf 'a | Merge "'a reduction_tree" "'a reduction_tree"

fun leaves :: "'a reduction_tree \<Rightarrow> 'a list" where
  "leaves (Leaf x) = [x]"
| "leaves (Merge l r) = leaves l @ leaves r"

fun reduce_tree :: "('a \<Rightarrow> 'a \<Rightarrow> 'a) \<Rightarrow> 'a reduction_tree \<Rightarrow> 'a" where
  "reduce_tree f (Leaf x) = x"
| "reduce_tree f (Merge l r) = f (reduce_tree f l) (reduce_tree f r)"

text \<open>Trees whose merges may raise: the left branch is evaluated first.\<close>

fun reduce_result :: "('a \<Rightarrow> 'a \<Rightarrow> 'a result) \<Rightarrow> 'a reduction_tree \<Rightarrow> 'a result" where
  "reduce_result f (Leaf x) = Inr x"
| "reduce_result f (Merge l r) =
     result_bind (reduce_result f l) (\<lambda>a. result_bind (reduce_result f r) (\<lambda>b. f a b))"

lemma reduce_result_total: "reduce_result (\<lambda>a b. Inr (f a b)) t = Inr (reduce_tree f t)"
  by (induction t) simp_all

text \<open>
  \<open>valid\<close> says which values can occur, for a \<open>combine\<close> that is only lawful on well-formed ones.
\<close>

locale reduction =
  fixes valid :: "'a \<Rightarrow> bool" and combine :: "'a \<Rightarrow> 'a \<Rightarrow> 'a" and empty :: 'a
  assumes valid_empty: "valid empty"
    and valid_combine: "valid a \<Longrightarrow> valid b \<Longrightarrow> valid (combine a b)"
    and assoc: "valid a \<Longrightarrow> valid b \<Longrightarrow> valid c \<Longrightarrow> combine (combine a b) c = combine a (combine b c)"
    and left_id: "valid a \<Longrightarrow> combine empty a = a"
    and right_id: "valid a \<Longrightarrow> combine a empty = a"
begin

lemma valid_fold: "valid v \<Longrightarrow> list_all valid xs \<Longrightarrow> valid (foldl combine v xs)"
  by (induction xs arbitrary: v) (simp_all add: valid_combine)

lemma fold_start:
  "valid a \<Longrightarrow> valid b \<Longrightarrow> list_all valid xs \<Longrightarrow> foldl combine (combine a b) xs = combine a (foldl combine b xs)"
  by (induction xs arbitrary: b) (simp_all add: assoc valid_combine)

lemma fold_append:
  assumes "list_all valid xs" "list_all valid ys"
  shows "foldl combine empty (xs @ ys) = combine (foldl combine empty xs) (foldl combine empty ys)"
  using fold_start [of "foldl combine empty xs" empty ys] assms
  by (simp add: right_id valid_empty valid_fold)

text \<open>Whatever the tree, the result is the left fold over its leaves.\<close>

lemma tree_is_fold: "list_all valid (leaves t) \<Longrightarrow> reduce_tree combine t = foldl combine empty (leaves t)"
  by (induction t) (simp_all add: fold_append left_id del: foldl_append)

lemma same_leaves_same_value:
  "leaves s = leaves t \<Longrightarrow> list_all valid (leaves t) \<Longrightarrow> reduce_tree combine s = reduce_tree combine t"
  by (simp add: tree_is_fold)

text \<open>An identity, such as the partial of a task left out, changes nothing.\<close>

lemma fold_skip_ids:
  "valid v \<Longrightarrow> (\<And>x. valid (g x)) \<Longrightarrow>
   foldl combine v (map (\<lambda>x. if keep x then g x else empty) xs) = foldl combine v (map g (List.filter keep xs))"
  by (induction xs arbitrary: v) (simp_all add: right_id valid_combine)

end

section \<open>The worker process\<close>

type_synonym warning_key = "string \<times> string"
type_synonym caught = "(warning_key \<times> (string \<times> int)) list"
type_synonym carried = "(warning_key \<times> (string \<times> int \<times> string)) list"

record warning_classes =
  wc_survives :: "string \<Rightarrow> bool"
  wc_mro :: "string \<Rightarrow> string list"
  wc_module :: "string \<Rightarrow> string"

record shown_warning =
  sw_category :: string
  sw_message :: string
  sw_filename :: string
  sw_lineno :: int

text \<open>
  The module's state in one process: its identity, the pid \<open>enter_worker\<close> recorded, whether
  \<open>warnings.showwarning\<close> is the module's, the current task's sink (a context variable) and what
  reached the process's own display.
\<close>

record warning_state =
  ws_interpreter :: string
  ws_pid :: int
  ws_worker_pid :: "int option"
  ws_installed :: bool
  ws_sink :: "caught option"
  ws_shown :: "shown_warning list"

definition process_id :: "warning_state \<Rightarrow> string" where
  "process_id w = ws_interpreter w @ '':'' @ dec (ws_pid w)"

definition enter_worker :: "string \<Rightarrow> warning_state \<Rightarrow> warning_state" where
  "enter_worker driver w = (if driver \<noteq> process_id w then w\<lparr>ws_worker_pid := Some (ws_pid w)\<rparr> else w)"

definition carried_class :: "warning_classes \<Rightarrow> string \<Rightarrow> string result" where
  "carried_class classes category =
     (if wc_survives classes category then Inr category
      else (case List.find (\<lambda>k. wc_module classes k = ''builtins'') (wc_mro classes category) of
              Some k \<Rightarrow> Inr k
            | None \<Rightarrow> Inl (UserError ''StopIteration'' [] None [])))"

definition keep_or_show :: "string \<Rightarrow> string \<Rightarrow> string \<Rightarrow> int \<Rightarrow> warning_state \<Rightarrow> warning_state" where
  "keep_or_show message category filename lineno w =
     (case ws_sink w of
        None \<Rightarrow> w\<lparr>ws_shown := ws_shown w @
          [\<lparr>sw_category = category, sw_message = message, sw_filename = filename, sw_lineno = lineno\<rparr>]\<rparr>
      | Some sink \<Rightarrow> w\<lparr>ws_sink := Some (dict_setdefault (category, message) (filename, lineno) sink)\<rparr>)"

text \<open>What \<open>warnings.warn\<close> calls once the filters let a warning through.\<close>

definition showwarning :: "string \<Rightarrow> string \<Rightarrow> string \<Rightarrow> int \<Rightarrow> warning_state \<Rightarrow> warning_state" where
  "showwarning message category filename lineno w =
     (if ws_installed w then keep_or_show message category filename lineno w
      else w\<lparr>ws_shown := ws_shown w @
        [\<lparr>sw_category = category, sw_message = message, sw_filename = filename, sw_lineno = lineno\<rparr>]\<rparr>)"

definition install :: "warning_state \<Rightarrow> warning_state" where
  "install w = (if \<not> ws_installed w then w\<lparr>ws_installed := True\<rparr> else w)"

text \<open>The note a failing task's exception gets for each warning caught before it.\<close>

definition warning_note :: "warning_key \<times> (string \<times> int) \<Rightarrow> string" where
  "warning_note = (\<lambda>((category, message), (filename, lineno)).
     category @ '' before this: '' @ message @ '' ('' @ filename @ '':'' @ dec lineno @ '')'')"

text \<open>
  \<open>with keeping_warnings() as caught: body\<close>. The body is a state transformer; the block's value is
  the body's with what was caught, or its exception with the notes added to it.
\<close>

definition keeping_warnings ::
  "(warning_state \<Rightarrow> 'a result \<times> warning_state) \<Rightarrow> warning_state \<Rightarrow>
   ((exn \<times> string list) + 'a \<times> caught) \<times> warning_state" where
  "keeping_warnings body w =
     (if ws_worker_pid w \<noteq> Some (ws_pid w) then
        (case body w of
           (Inl e, w') \<Rightarrow> (Inl (e, []), w')
         | (Inr x, w') \<Rightarrow> (Inr (x, []), w'))
      else
        (let w1 = install w in
         case body (w1\<lparr>ws_sink := Some []\<rparr>) of
           (r, w2) \<Rightarrow>
             (let caught = (case ws_sink w2 of Some c \<Rightarrow> c | None \<Rightarrow> []);
                  w3 = w2\<lparr>ws_sink := ws_sink w1\<rparr>
              in case r of
                   Inl e \<Rightarrow> (Inl (e, map warning_note caught), w3)
                 | Inr x \<Rightarrow> (Inr (x, caught), w3))))"

section \<open>Partials that carry warnings\<close>

text \<open>A partial is a plain value, or a value with the warnings it carries.\<close>

datatype 'a carrier = Plain 'a | Warned 'a carried

text \<open>\<open>chunk\<close> is only called when there is something to carry, so its failure is only seen then.\<close>

definition carrying :: "warning_classes \<Rightarrow> 'a \<Rightarrow> caught \<Rightarrow> (unit \<Rightarrow> string result) \<Rightarrow> 'a carrier result" where
  "carrying classes value caught chunk =
     (if caught = [] then Inr (Plain value)
      else result_bind (chunk ()) (\<lambda>label.
        result_bind (traverse (\<lambda>((kind, message), (filename, lineno)).
            result_bind (carried_class classes kind) (\<lambda>k. Inr ((k, message), (filename, lineno, label)))) caught)
          (\<lambda>items. Inr (Warned value (dict_merge [] items)))))"

fun split_carrier :: "'a carrier \<Rightarrow> 'a \<times> carried" where
  "split_carrier (Warned v c) = (v, c)"
| "split_carrier (Plain v) = (v, [])"

definition warn_carried :: "warning_key \<times> (string \<times> int \<times> string) \<Rightarrow> warning_state \<Rightarrow> warning_state" where
  "warn_carried = (\<lambda>((category, message), (filename, lineno, chunk)) w.
     showwarning (message @ '' [first in '' @ chunk @ '']'') category filename lineno w)"

definition without_warnings :: "'a carrier \<Rightarrow> warning_state \<Rightarrow> 'a \<times> warning_state" where
  "without_warnings value w =
     (case split_carrier value of
        (plain, caught) \<Rightarrow> (plain, foldl (\<lambda>w x. warn_carried x w) w caught))"

definition rewarn :: "'a \<Rightarrow> carried \<Rightarrow> 'a carrier" where
  "rewarn value caught = (if caught \<noteq> [] then Warned value caught else Plain value)"

definition warned_combine :: "('a \<Rightarrow> 'a \<Rightarrow> 'a result) \<Rightarrow> 'a carrier \<Rightarrow> 'a carrier \<Rightarrow> 'a carrier result" where
  "warned_combine fn a b =
     (case split_carrier a of (left, left_caught) \<Rightarrow>
      case split_carrier b of (right, right_caught) \<Rightarrow>
        result_bind (fn left right) (\<lambda>value. Inr (rewarn value (dict_merge right_caught left_caught))))"

definition on_value :: "('a \<Rightarrow> 'b result) \<Rightarrow> 'a carrier \<Rightarrow> 'b carrier result" where
  "on_value fn value =
     (case split_carrier value of
        (plain, caught) \<Rightarrow>
          result_bind (fn plain) (\<lambda>v. Inr (rewarn v caught)))"

definition warned_finalize ::
  "('a \<Rightarrow> 'a result) option \<Rightarrow> 'a carrier \<Rightarrow> warning_state \<Rightarrow> 'a result \<times> warning_state" where
  "warned_finalize fn value w =
     (case without_warnings value w of
        (plain, w') \<Rightarrow> ((case fn of None \<Rightarrow> Inr plain | Some f \<Rightarrow> f plain), w'))"

section \<open>Dictionaries merged by key\<close>

lemma dict_merge_Nil [simp]: "dict_merge a [] = a"
  by (simp add: dict_merge_def)

lemma dict_merge_snoc: "dict_merge a (b @ [(k, v)]) = AList.update k v (dict_merge a b)"
  by (simp add: dict_merge_def)

lemma dict_merge_Cons: "dict_merge a ((k, v) # b) = dict_merge (AList.update k v a) b"
  by (simp add: dict_merge_def)

lemma distinct_dict_merge: "distinct (map fst a) \<Longrightarrow> distinct (map fst (dict_merge a b))"
  by (induction b arbitrary: a) (auto simp: dict_merge_def distinct_update)

lemma update_commute_later:
  "k \<in> fst ` set a \<Longrightarrow> k \<noteq> j \<Longrightarrow> AList.update k v (AList.update j u a) = AList.update j u (AList.update k v a)"
  by (induction a) auto

lemma update_dict_merge:
  "k \<in> fst ` set a \<Longrightarrow> k \<notin> fst ` set b \<Longrightarrow> AList.update k v (dict_merge a b) = dict_merge (AList.update k v a) b"
proof (induction b arbitrary: a)
  case (Cons p b)
  obtain j u where p: "p = (j, u)" by (cases p)
  with Cons.prems have "k \<in> fst ` set (AList.update j u a)" by (simp add: dom_update)
  then have "AList.update k v (dict_merge (AList.update j u a) b) = dict_merge (AList.update k v (AList.update j u a)) b"
    using Cons.prems by (intro Cons.IH) auto
  with Cons.prems p show ?case by (simp add: dict_merge_Cons update_commute_later)
qed simp

lemma dict_merge_update:
  "distinct (map fst b) \<Longrightarrow> dict_merge a (AList.update k v b) = AList.update k v (dict_merge a b)"
proof (induction b arbitrary: a)
  case (Cons p b)
  obtain j u where p: "p = (j, u)" by (cases p)
  show ?case
  proof (cases "j = k")
    case True
    with Cons.prems p have k: "k \<notin> fst ` set b" by auto
    have "k \<in> fst ` set (AList.update k u a)" by (simp add: dom_update)
    from update_dict_merge [OF this k, of v] True p show ?thesis by (simp add: dict_merge_Cons)
  next
    case False
    with Cons p show ?thesis by (simp add: dict_merge_Cons)
  qed
qed (simp add: dict_merge_Cons)

lemma dict_merge_assoc:
  "distinct (map fst b) \<Longrightarrow> dict_merge c (dict_merge b a) = dict_merge (dict_merge c b) a"
proof (induction a rule: rev_induct)
  case (snoc p a)
  obtain k v where p: "p = (k, v)" by (cases p)
  from snoc show ?case by (simp add: p dict_merge_snoc dict_merge_update distinct_dict_merge)
qed simp

lemma dict_merge_Nil_left:
  assumes "distinct (map fst a)"
  shows "dict_merge [] a = a"
proof -
  have "k \<notin> fst ` set b \<Longrightarrow> AList.update k v b = b @ [(k, v)]" for k v and b :: "('a \<times> 'b) list"
    by (induction b) auto
  with assms show ?thesis
  proof (induction a rule: rev_induct)
    case (snoc p a)
    then show ?case by (cases p) (auto simp: dict_merge_snoc)
  qed simp
qed

section \<open>Reductions of carried partials\<close>

definition wf_carrier :: "('a \<Rightarrow> bool) \<Rightarrow> 'a carrier \<Rightarrow> bool" where
  "wf_carrier ok c = (case c of Plain v \<Rightarrow> ok v | Warned v w \<Rightarrow> ok v \<and> w \<noteq> [] \<and> distinct (map fst w))"

definition warned_merge :: "('a \<Rightarrow> 'a \<Rightarrow> 'a) \<Rightarrow> 'a carrier \<Rightarrow> 'a carrier \<Rightarrow> 'a carrier" where
  "warned_merge f a b = rewarn (f (fst (split_carrier a)) (fst (split_carrier b)))
     (dict_merge (snd (split_carrier b)) (snd (split_carrier a)))"

lemma warned_combine_total: "warned_combine (\<lambda>a b. Inr (f a b)) a b = Inr (warned_merge f a b)"
  by (simp add: warned_combine_def warned_merge_def split: prod.splits)

lemma split_rewarn [simp]: "split_carrier (rewarn v c) = (v, c)"
  by (simp add: rewarn_def)

lemma rewarn_split: "wf_carrier ok c \<Longrightarrow> rewarn (fst (split_carrier c)) (snd (split_carrier c)) = c"
  by (cases c) (auto simp: wf_carrier_def rewarn_def)

lemma wf_carrier_split:
  "wf_carrier ok c \<Longrightarrow> ok (fst (split_carrier c)) \<and> distinct (map fst (snd (split_carrier c)))"
  by (cases c) (auto simp: wf_carrier_def)

lemma wf_rewarn: "ok v \<Longrightarrow> distinct (map fst c) \<Longrightarrow> wf_carrier ok (rewarn v c)"
  by (simp add: wf_carrier_def rewarn_def)

text \<open>A lawful \<open>combine\<close> stays lawful on partials that carry warnings.\<close>

locale warned_reduction = reduction

sublocale warned_reduction \<subseteq> warned: reduction "wf_carrier valid" "warned_merge combine" "Plain empty"
proof
  show "wf_carrier valid (Plain empty)" by (simp add: wf_carrier_def valid_empty)
next
  fix a b :: "'a carrier"
  assume "wf_carrier valid a" "wf_carrier valid b"
  then show "wf_carrier valid (warned_merge combine a b)"
    unfolding warned_merge_def by (intro wf_rewarn) (auto dest!: wf_carrier_split intro: valid_combine distinct_dict_merge)
next
  fix a b c :: "'a carrier"
  assume "wf_carrier valid a" "wf_carrier valid b" "wf_carrier valid c"
  then show "warned_merge combine (warned_merge combine a b) c = warned_merge combine a (warned_merge combine b c)"
    by (auto simp: warned_merge_def assoc dict_merge_assoc dest!: wf_carrier_split)
next
  fix a :: "'a carrier"
  assume a: "wf_carrier valid a"
  then show "warned_merge combine (Plain empty) a = a" "warned_merge combine a (Plain empty) = a"
    using wf_carrier_split [OF a] rewarn_split [OF a]
    by (simp_all add: warned_merge_def left_id right_id dict_merge_Nil_left)
qed

text \<open>The receipts of a write are lists of paths, concatenated (\<open>_concat_paths\<close>, \<open>_no_paths\<close>).\<close>

definition concat_paths :: "string list \<Rightarrow> string list \<Rightarrow> string list" where
  "concat_paths a b = a @ b"

definition no_paths :: "string list" where
  "no_paths = []"

interpretation paths: warned_reduction "\<lambda>_. True" concat_paths no_paths
  by unfold_locales (simp_all add: concat_paths_def no_paths_def)

lemma foldl_concat_paths: "foldl concat_paths a xss = a @ concat xss"
  by (induction xss arbitrary: a) (simp_all add: concat_paths_def)

section \<open>Properties\<close>

text \<open>What a task issued, replayed: message, category, file and line of each warning.\<close>

definition issue_all :: "(string \<times> string \<times> string \<times> int) list \<Rightarrow> warning_state \<Rightarrow> warning_state" where
  "issue_all ws w = foldl (\<lambda>w (m, c, f, l). showwarning m c f l w) w ws"

definition collect :: "(string \<times> string \<times> string \<times> int) list \<Rightarrow> caught \<Rightarrow> caught" where
  "collect ws c = foldl (\<lambda>c (m, k, f, l). dict_setdefault (k, m) (f, l) c) c ws"

definition as_shown :: "string \<times> string \<times> string \<times> int \<Rightarrow> shown_warning" where
  "as_shown = (\<lambda>(m, c, f, l). \<lparr>sw_category = c, sw_message = m, sw_filename = f, sw_lineno = l\<rparr>)"

lemma issue_all_sink:
  "ws_installed w \<Longrightarrow> ws_sink w = Some c \<Longrightarrow> issue_all ws w = w\<lparr>ws_sink := Some (collect ws c)\<rparr>"
proof (induction ws arbitrary: w c)
  case (Cons x ws)
  obtain m k f l where x: "x = (m, k, f, l)" by (cases x)
  have "issue_all (x # ws) w = issue_all ws (w\<lparr>ws_sink := Some (dict_setdefault (k, m) (f, l) c)\<rparr>)"
    using Cons.prems by (simp add: issue_all_def x showwarning_def keep_or_show_def)
  also have "\<dots> = w\<lparr>ws_sink := Some (collect (x # ws) c)\<rparr>"
    using Cons.prems by (subst Cons.IH) (simp_all add: collect_def x)
  finally show ?case .
qed (simp add: issue_all_def collect_def)

lemma issue_all_shown:
  "ws_sink w = None \<Longrightarrow> issue_all ws w = w\<lparr>ws_shown := ws_shown w @ map as_shown ws\<rparr>"
proof (induction ws arbitrary: w)
  case (Cons x ws)
  obtain m k f l where x: "x = (m, k, f, l)" by (cases x)
  have "issue_all (x # ws) w = issue_all ws (w\<lparr>ws_shown := ws_shown w @ [as_shown x]\<rparr>)"
    using Cons.prems by (simp add: issue_all_def x showwarning_def keep_or_show_def as_shown_def)
  also have "\<dots> = w\<lparr>ws_shown := ws_shown w @ map as_shown (x # ws)\<rparr>"
    using Cons.prems by (subst Cons.IH) simp_all
  finally show ?case .
qed (simp add: issue_all_def)

lemma dict_setdefault_map: "map_of (dict_setdefault k v d) = (\<lambda>x. if x = k \<and> map_of d k = None then Some v else map_of d x)"
  by (auto simp: dict_setdefault_def fun_eq_iff map_add_def split: option.splits)

lemma dict_setdefault_distinct: "distinct (map fst d) \<Longrightarrow> distinct (map fst (dict_setdefault k v d))"
  by (auto simp: dict_setdefault_def map_of_eq_None_iff split: option.splits)

lemma collect_spec:
  "map_of (collect ws c) = map_of (c @ map (\<lambda>(m, k, f, l). ((k, m), (f, l))) ws)
   \<and> (distinct (map fst c) \<longrightarrow> distinct (map fst (collect ws c)))"
proof (induction ws arbitrary: c)
  case (Cons x ws)
  obtain m k f l where x: "x = (m, k, f, l)" by (cases x)
  have s: "collect ((m, k, f, l) # ws) c = collect ws (dict_setdefault (k, m) (f, l) c)" by (simp add: collect_def x)
  have "map_of (dict_setdefault (k, m) (f, l) c @ ys) = map_of (c @ ((k, m), (f, l)) # ys)" for ys
    by (auto simp: dict_setdefault_map map_add_def fun_eq_iff split: option.splits)
  with Cons.IH [of "dict_setdefault (k, m) (f, l) c"] show ?case
    by (simp add: s x dict_setdefault_distinct del: map_of_append)
qed (simp add: collect_def)

text \<open>
  A task's warnings stay with the task exactly when it runs in a worker of another process.
  There, nothing is shown, the first location of each (category, message) is kept and the sink is
  restored; a failing task hands them to its exception as notes. In any other process every
  warning is shown where it is issued and nothing is carried.
\<close>

theorem keeping_warnings_spec:
  "keeping_warnings (\<lambda>w. (r, issue_all ws w)) w =
     (if ws_worker_pid w = Some (ws_pid w)
      then ((case r of Inl e \<Rightarrow> Inl (e, map warning_note (collect ws [])) | Inr x \<Rightarrow> Inr (x, collect ws [])),
            w\<lparr>ws_installed := True\<rparr>)
      else ((case r of Inl e \<Rightarrow> Inl (e, []) | Inr x \<Rightarrow> Inr (x, [])), issue_all ws w))
   \<and> map_of (collect ws []) = map_of (map (\<lambda>(m, k, f, l). ((k, m), (f, l))) ws)
   \<and> distinct (map fst (collect ws []))"
proof -
  let ?w1 = "w\<lparr>ws_installed := True\<rparr>"
  have "install w = ?w1" by (cases w) (simp add: install_def)
  moreover have "issue_all ws (?w1\<lparr>ws_sink := Some []\<rparr>) = ?w1\<lparr>ws_sink := Some (collect ws [])\<rparr>"
    by (subst issue_all_sink) simp_all
  moreover have "?w1\<lparr>ws_sink := Some (collect ws [])\<rparr>\<lparr>ws_sink := ws_sink w\<rparr> = ?w1" by simp
  ultimately show ?thesis
    using collect_spec [of ws "[]"] by (auto simp: keeping_warnings_def Let_def split: sum.split)
qed

text \<open>What the driver shows for the warnings a value carries.\<close>

definition as_reported :: "warning_key \<times> (string \<times> int \<times> string) \<Rightarrow> shown_warning" where
  "as_reported = (\<lambda>((c, m), (f, l, chunk)).
     \<lparr>sw_category = c, sw_message = m @ '' [first in '' @ chunk @ '']'', sw_filename = f, sw_lineno = l\<rparr>)"

lemma warn_carried_shows:
  "ws_sink w = None \<Longrightarrow> warn_carried x w = w\<lparr>ws_shown := ws_shown w @ [as_reported x]\<rparr>"
  by (simp add: warn_carried_def showwarning_def keep_or_show_def as_reported_def split: prod.split)

lemma report_all:
  "ws_sink w = None \<Longrightarrow>
   foldl (\<lambda>w x. warn_carried x w) w caught = w\<lparr>ws_shown := ws_shown w @ map as_reported caught\<rparr>"
  by (induction caught arbitrary: w) (simp_all add: warn_carried_shows)

lemma without_warnings_shows:
  "ws_sink w = None \<Longrightarrow>
   without_warnings c w = (fst (split_carrier c), w\<lparr>ws_shown := ws_shown w @ map as_reported (snd (split_carrier c))\<rparr>)"
  by (simp add: without_warnings_def report_all split: prod.split)

lemma map_of_dict_merge_first:
  "distinct (map fst b) \<Longrightarrow> map_of (dict_merge a b) = map_of (b @ a)"
  by (simp add: map_of_dict_merge map_of_rev_distinct)

lemma warned_tree:
  "list_all (wf_carrier (\<lambda>_. True)) (leaves t) \<Longrightarrow> reduce_result (warned_combine fn) t = Inr c \<Longrightarrow>
   reduce_result fn (map_reduction_tree (fst \<circ> split_carrier) t) = Inr (fst (split_carrier c))
   \<and> map_of (snd (split_carrier c)) = map_of (concat (map (snd \<circ> split_carrier) (leaves t)))
   \<and> wf_carrier (\<lambda>_. True) c"
proof (induction t arbitrary: c)
  case (Merge l r)
  from Merge.prems(2) obtain a b where a: "reduce_result (warned_combine fn) l = Inr a"
      and b: "reduce_result (warned_combine fn) r = Inr b" and c: "warned_combine fn a b = Inr c"
    by (auto simp: result_bind_Inr_iff)
  from Merge.prems(1) have lv: "list_all (wf_carrier (\<lambda>_. True)) (leaves l)" "list_all (wf_carrier (\<lambda>_. True)) (leaves r)"
    by simp_all
  note l = Merge.IH(1) [OF lv(1) a] and r = Merge.IH(2) [OF lv(2) b]
  then have wf: "wf_carrier (\<lambda>_. True) a" "wf_carrier (\<lambda>_. True) b" by blast+
  from c obtain v where v: "fn (fst (split_carrier a)) (fst (split_carrier b)) = Inr v"
      "c = rewarn v (dict_merge (snd (split_carrier b)) (snd (split_carrier a)))"
    by (auto simp: warned_combine_def result_bind_Inr_iff split: prod.splits)
  have "wf_carrier (\<lambda>_. True) c"
    using wf [THEN wf_carrier_split] by (simp add: v(2) wf_rewarn distinct_dict_merge)
  moreover have "map_of (snd (split_carrier c)) = map_of (concat (map (snd \<circ> split_carrier) (leaves (Merge l r))))"
    using wf [THEN wf_carrier_split] l r by (simp add: v(2) map_of_dict_merge_first comp_def)
  ultimately show ?case using l r v by (simp add: comp_def)
qed (simp add: comp_def)

text \<open>
  C13. Whatever the reduction tree, the run's value is the plain reduction of the plain partials, and
  \<open>finalize\<close> reports each (category, message) that some task carried exactly once, with the
  location and the chunk of the first task, in leaf order, that carried it.
\<close>

theorem carried_warnings_reported_once:
  assumes "list_all (wf_carrier (\<lambda>_. True)) (leaves t)"
    and "reduce_result (warned_combine fn) t = Inr c"
    and "ws_sink w = None"
  shows "\<exists>caught v. reduce_result fn (map_reduction_tree (fst \<circ> split_carrier) t) = Inr v
     \<and> warned_finalize None c w = (Inr v, w\<lparr>ws_shown := ws_shown w @ map as_reported caught\<rparr>)
     \<and> distinct (map fst caught)
     \<and> map_of caught = map_of (concat (map (snd \<circ> split_carrier) (leaves t)))"
proof -
  from warned_tree [OF assms(1,2)] wf_carrier_split [of "\<lambda>_. True" c] without_warnings_shows [OF assms(3), of c]
  show ?thesis by (auto simp: warned_finalize_def)
qed

theorem carried_warnings_reported_once_witness:
  "let k = (''UserWarning'', ''low stats'');
       a = Warned 1 [(k, (''a.py'', 3, ''chunk 1''))]; b = Warned 2 [(k, (''a.py'', 7, ''chunk 2''))];
       t = Merge (Leaf a) (Merge (Leaf (Plain 5)) (Leaf b));
       w = \<lparr>ws_interpreter = ''i'', ws_pid = 1, ws_worker_pid = None, ws_installed = False, ws_sink = None, ws_shown = []\<rparr>
   in \<exists>c caught v. reduce_result (warned_combine (\<lambda>x y. Inr (x + y :: int))) t = Inr c
        \<and> warned_finalize None c w = (Inr v, w\<lparr>ws_shown := map as_reported caught\<rparr>) \<and> v = 8
        \<and> map_of caught k = Some (''a.py'', 3, ''chunk 1'')"
proof -
  let ?k = "(''UserWarning'', ''low stats'')"
  let ?a = "Warned 1 [(?k, (''a.py'', 3, ''chunk 1''))] :: int carrier"
  let ?b = "Warned 2 [(?k, (''a.py'', 7, ''chunk 2''))] :: int carrier"
  let ?t = "Merge (Leaf ?a) (Merge (Leaf (Plain 5)) (Leaf ?b))"
  let ?w = "\<lparr>ws_interpreter = ''i'', ws_pid = 1, ws_worker_pid = None, ws_installed = False, ws_sink = None, ws_shown = []\<rparr>"
  let ?f = "\<lambda>x y. Inr (x + y :: int)"
  have wf: "list_all (wf_carrier (\<lambda>_. True)) (leaves ?t)" by (simp add: wf_carrier_def)
  have c: "reduce_result (warned_combine ?f) ?t = Inr (Warned 8 [(?k, (''a.py'', 3, ''chunk 1''))])"
    by (simp add: warned_combine_def rewarn_def dict_merge_def)
  from carried_warnings_reported_once [OF wf c, of ?w] c show ?thesis
    by (auto simp: Let_def)
qed

end
