(* ===== verification/Execution.thy ===== *)
theory Execution
  imports Complex_Main Partitioning Carried_Warnings
begin

text \<open>
  The execution contract (\<open>core/execution.py\<close>): stop conditions, failures as values and dead-letter
  records, plans that go on past failed chunks, the pause/resume/cancel switch, the worker's cache
  of open files, and the reference runner, which every other runner must match.
\<close>

section \<open>Stop conditions\<close>

datatype stop_reason = EXHAUSTED | TARGET_EVENTS | PRECISION | WALL_CLOCK | ERROR_BUDGET | STOP_CANCELLED

record exec_context =
  n_done :: int
  events_done :: int
  errors :: int
  elapsed_s :: real
  last_durations :: "(int \<times> real) list"

record stop_condition =
  target_events :: "int option"
  max_wall_s :: "real option"
  max_errors :: "int option"

definition no_stop_condition :: stop_condition where
  "no_stop_condition = \<lparr>target_events = None, max_wall_s = None, max_errors = None\<rparr>"

definition stop_reason :: "stop_condition \<Rightarrow> exec_context \<Rightarrow> stop_reason option" where
  "stop_reason c ctx =
     (if (case target_events c of Some t \<Rightarrow> t \<le> events_done ctx | None \<Rightarrow> False) then Some TARGET_EVENTS
      else if (case max_wall_s c of Some t \<Rightarrow> t \<le> elapsed_s ctx | None \<Rightarrow> False) then Some WALL_CLOCK
      else if (case max_errors c of Some m \<Rightarrow> m < errors ctx | None \<Rightarrow> False) then Some ERROR_BUDGET
      else None)"

section \<open>Failures as values\<close>

definition counted :: "int \<Rightarrow> string \<Rightarrow> string" where
  "counted n noun = dec n @ '' '' @ noun @ (if n = 1 then [] else ''s'')"

definition capped :: "string list \<Rightarrow> string" where
  "capped items = str_join '', '' (take 6 items) @
     (if 6 < length items then '', +'' @ dec (int (length items) - 6) @ '' more'' else [])"

definition failed_chunks_text :: "failed_chunk list \<Rightarrow> string" where
  "failed_chunks_text failed = counted (int (length failed)) ''chunk'' @ '' failed:'' @
     concat (map (\<lambda>f. [CHR 0x0A] @ ''  '' @ fc_partition f @ '': '' @ fc_error f) failed)"

definition unbound_text :: "string list \<Rightarrow> string" where
  "unbound_text names =
     (let listed = str_join '', '' (map py_repr names);
          endpoints = str_join '', '' (map (\<lambda>n. py_repr n @ '': '' @ [CHR 0x27] @ ''scheme://host:port'' @ [CHR 0x27]) names);
          has = (if length names = 1 then ''service '' @ listed @ '' has'' else ''services '' @ listed @ '' have'')
      in has @ '' no endpoint: bind with graphed.services.bind_services(plan, {'' @ endpoints @
         ''}), or run the plan through an executor that resolves Plan.services'')"

text \<open>\<open>type(exc).__name__\<close> and \<open>str(exc)\<close>.\<close>

fun exn_type :: "exn \<Rightarrow> string" where
  "exn_type (UserError n _ _ _) = n"
| "exn_type (Interrupt n) = n"
| "exn_type (ValueError _) = ''ValueError''"
| "exn_type (TypeError _) = ''TypeError''"
| "exn_type (KeyError _) = ''KeyError''"
| "exn_type (IndexError _) = ''IndexError''"
| "exn_type (AttributeError _) = ''AttributeError''"
| "exn_type (OSError _) = ''OSError''"
| "exn_type (PermissionError _) = ''PermissionError''"
| "exn_type (AssertionError _) = ''AssertionError''"
| "exn_type (ZeroDivisionError _) = ''ZeroDivisionError''"
| "exn_type (FileNotFoundError _) = ''FileNotFoundError''"
| "exn_type (GraphedError _) = ''GraphedError''"
| "exn_type (OverflowError _) = ''OverflowError''"
| "exn_type (PackKeyOverflowError _) = ''PackKeyOverflowError''"
| "exn_type (StoreUnavailableError _) = ''StoreUnavailableError''"
| "exn_type (EnvironmentChangedError _) = ''EnvironmentChangedError''"
| "exn_type (UnboundServiceError _) = ''UnboundServiceError''"
| "exn_type (TooManyFailedChunksError _) = ''TooManyFailedChunksError''"

fun exn_text :: "exn \<Rightarrow> string" where
  "exn_text (UserError _ m _ _) = m"
| "exn_text (Interrupt _) = []"
| "exn_text (ValueError m) = m"
| "exn_text (TypeError m) = m"
| "exn_text (KeyError m) = m"
| "exn_text (IndexError m) = m"
| "exn_text (AttributeError m) = m"
| "exn_text (OSError m) = m"
| "exn_text (PermissionError m) = m"
| "exn_text (AssertionError m) = m"
| "exn_text (ZeroDivisionError m) = m"
| "exn_text (FileNotFoundError m) = m"
| "exn_text (GraphedError m) = m"
| "exn_text (OverflowError m) = m"
| "exn_text (PackKeyOverflowError m) = m"
| "exn_text (StoreUnavailableError m) = m"
| "exn_text (EnvironmentChangedError m) = m"
| "exn_text (UnboundServiceError ns) = unbound_text ns"
| "exn_text (TooManyFailedChunksError failed) = failed_chunks_text failed"

fun exn_stage :: "exn \<Rightarrow> stage_info option" where
  "exn_stage (UserError _ _ si _) = si"
| "exn_stage _ = None"

fun exn_partition :: "exn \<Rightarrow> string" where
  "exn_partition (UserError _ _ _ p) = p"
| "exn_partition _ = []"

definition stage_descriptor_of :: "stage_info \<Rightarrow> stage_descriptor" where
  "stage_descriptor_of si =
     (case si_frames si of
        [] \<Rightarrow> \<lparr>sd_op = si_op si, sd_cause_type = si_cause_type si, sd_cause_message = si_cause_message si,
              sd_user_file = [], sd_user_line = 0, sd_user_source = []\<rparr>
      | fr # _ \<Rightarrow> \<lparr>sd_op = si_op si, sd_cause_type = si_cause_type si, sd_cause_message = si_cause_message si,
              sd_user_file = uf_filename fr, sd_user_line = uf_lineno fr, sd_user_source = uf_source fr\<rparr>)"

definition dead_letter_descriptor :: "string \<Rightarrow> partition \<Rightarrow> exn \<Rightarrow> dead_letter" where
  "dead_letter_descriptor task_id p exc =
     \<lparr>dl_task_id = task_id, dl_uri = uri p, dl_tree = tree p,
      dl_entry_start = entry_start p, dl_entry_stop = entry_stop p,
      dl_error_type = exn_type exc, dl_error_message = exn_text exc,
      dl_stage_error = map_option stage_descriptor_of (exn_stage exc)\<rparr>"

definition error_summary :: "exn \<Rightarrow> string" where
  "error_summary exc = exn_type exc @ '': '' @ exn_text exc"

definition mk_failed_chunk :: "string \<Rightarrow> partition \<Rightarrow> exn \<Rightarrow> failed_chunk" where
  "mk_failed_chunk label p exc =
     \<lparr>fc_partition = label, fc_error = error_summary exc, fc_record = dead_letter_descriptor label p exc\<rparr>"

definition by_label :: "failed_chunk list \<Rightarrow> failed_chunk list" where
  "by_label failed = sort_key fc_partition failed"

section \<open>Open files of a worker\<close>

text \<open>
  \<open>LocalResources\<close>: the handles in \<open>OrderedDict\<close> order, least recently used first. \<open>lr_closed\<close>
  lists the handles given to \<open>_close_handle\<close>, which never raises.
\<close>

record 'h resources =
  lr_handles :: "(string \<times> 'h) list"
  lr_max_open :: int
  lr_open_count :: int
  lr_closed :: "'h list"

definition new_resources :: "int \<Rightarrow> 'h resources" where
  "new_resources max_open = \<lparr>lr_handles = [], lr_max_open = max_open, lr_open_count = 0, lr_closed = []\<rparr>"

definition move_to_end :: "string \<Rightarrow> (string \<times> 'h) list \<Rightarrow> (string \<times> 'h) list" where
  "move_to_end k d = List.filter (\<lambda>(j, _). j \<noteq> k) d @ List.filter (\<lambda>(j, _). j = k) d"

text \<open>The eviction loop: the handles left and those closed; an empty dictionary cannot be popped.\<close>

fun evict :: "int \<Rightarrow> (string \<times> 'h) list \<Rightarrow> unit result \<times> (string \<times> 'h) list \<times> 'h list" where
  "evict m [] = (if 0 > m then Inl (KeyError (py_repr ''dictionary is empty'')) else Inr (), [], [])"
| "evict m ((k, h) # d) =
     (if int (length ((k, h) # d)) > m
      then (let (r, d', shut) = evict m d in (r, d', h # shut))
      else (Inr (), (k, h) # d, []))"

definition open_once :: "string \<Rightarrow> (string \<Rightarrow> 'h result) \<Rightarrow> ('h, 'h resources) action" where
  "open_once u opener r =
     (case map_of (lr_handles r) u of
        Some h \<Rightarrow> (Inr h, r\<lparr>lr_handles := move_to_end u (lr_handles r)\<rparr>)
      | None \<Rightarrow>
          (case opener u of
             Inl e \<Rightarrow> (Inl e, r)
           | Inr h \<Rightarrow>
               (case evict (lr_max_open r) (lr_handles r @ [(u, h)]) of
                  (e, d, shut) \<Rightarrow>
                    (result_bind e (\<lambda>_. Inr h),
                     r\<lparr>lr_open_count := lr_open_count r + 1, lr_handles := d, lr_closed := lr_closed r @ shut\<rparr>))))"

definition close_resources :: "'h resources \<Rightarrow> 'h resources" where
  "close_resources r = r\<lparr>lr_closed := lr_closed r @ map snd (lr_handles r), lr_handles := []\<rparr>"

text \<open>Opening a sequence of files, whatever is done with the handles.\<close>

definition open_all :: "(string \<Rightarrow> 'h result) \<Rightarrow> string list \<Rightarrow> 'h resources \<Rightarrow> 'h resources" where
  "open_all opener us r = foldl (\<lambda>r u. snd (open_once u opener r)) r us"

definition last_n :: "nat \<Rightarrow> 'a list \<Rightarrow> 'a list" where
  "last_n m xs = drop (length xs - m) xs"

lemma evict_spec:
  "0 \<le> m \<Longrightarrow> evict m d = (Inr (), last_n (nat m) d, map snd (take (length d - nat m) d))"
proof (induction m d rule: evict.induct)
  case (2 m k h d)
  show ?case
  proof (cases "int (length ((k, h) # d)) > m")
    case True
    then have "length ((k, h) # d) - nat m = Suc (length d - nat m)" using 2(2) by auto
    with True 2 show ?thesis by (auto simp: last_n_def)
  next
    case False
    then have "length ((k, h) # d) - nat m = 0" by simp
    with False show ?thesis by (simp add: last_n_def)
  qed
qed (simp add: last_n_def)

lemma last_n_snoc: "last_n m (last_n m xs @ [x]) = last_n m (xs @ [x])"
  by (cases "length xs \<le> m") (auto simp: last_n_def Suc_diff_le)

lemma last_n_map: "map f (last_n m xs) = last_n m (map f xs)"
  by (simp add: last_n_def drop_map)

lemma filter_neq_absent: "u \<notin> set xs \<Longrightarrow> List.filter (\<lambda>v. v \<noteq> u) xs = xs"
  by (induction xs) auto

text \<open>Moving a cached key to the end, or adding a new one and evicting: both keep the \<open>m\<close> keys used last.\<close>

lemma last_n_move:
  assumes "distinct xs" "u \<in> set (last_n m xs)"
  shows "List.filter (\<lambda>v. v \<noteq> u) (last_n m xs) @ [u] = last_n m (List.filter (\<lambda>v. v \<noteq> u) xs @ [u])"
proof -
  let ?k = "length xs - m"
  have split: "xs = take ?k xs @ last_n m xs" by (simp add: last_n_def)
  with assms have t: "u \<notin> set (take ?k xs)" by (metis disjoint_iff distinct_append)
  then have f: "List.filter (\<lambda>v. v \<noteq> u) xs = take ?k xs @ List.filter (\<lambda>v. v \<noteq> u) (last_n m xs)"
    by (metis split filter_append filter_neq_absent)
  have "u \<in> set xs" using assms(2) by (metis split in_set_conv_decomp append_assoc set_append UnCI)
  then have len: "length (List.filter (\<lambda>v. v \<noteq> u) xs @ [u]) = length xs"
    using assms(1) by (induction xs) (auto simp: filter_neq_absent)
  have "drop ?k (List.filter (\<lambda>v. v \<noteq> u) xs @ [u]) = List.filter (\<lambda>v. v \<noteq> u) (last_n m xs) @ [u]"
    by (simp add: f)
  then show ?thesis unfolding last_n_def [of m "_ @ [u]"] len by simp
qed

lemma last_n_add:
  assumes "distinct xs" "u \<notin> set (last_n m xs)"
  shows "last_n m (last_n m xs @ [u]) = last_n m (List.filter (\<lambda>v. v \<noteq> u) xs @ [u])"
proof -
  let ?k = "length xs - m"
  have split: "xs = take ?k xs @ last_n m xs" by (simp add: last_n_def)
  have f: "List.filter (\<lambda>v. v \<noteq> u) xs = List.filter (\<lambda>v. v \<noteq> u) (take ?k xs) @ last_n m xs"
    using assms(2) by (metis split filter_append filter_neq_absent)
  show ?thesis
  proof (cases "length xs \<le> m")
    case True
    then show ?thesis using f by (simp add: last_n_def)
  next
    case False
    then have "length (last_n m xs) = m" by (simp add: last_n_def)
    then show ?thesis unfolding f by (simp add: last_n_def)
  qed
qed

lemma remdups_snoc: "remdups (us @ [u]) = List.filter (\<lambda>v. v \<noteq> u) (remdups us) @ [u]"
  by (induction us) (auto simp: filter_neq_absent)

lemma map_fst_move_to_end: "k \<in> fst ` set d \<Longrightarrow> distinct (map fst d) \<Longrightarrow> map fst (move_to_end k d) = List.filter (\<lambda>v. v \<noteq> k) (map fst d) @ [k]"
proof -
  have "distinct (map fst d) \<Longrightarrow> map fst (List.filter (\<lambda>(j, _). j = k) d) = (if k \<in> fst ` set d then [k] else [])"
    by (induction d) (auto simp: filter_empty_conv image_iff)
  moreover have "map fst (List.filter (\<lambda>(j, _). j \<noteq> k) d) = List.filter (\<lambda>v. v \<noteq> k) (map fst d)"
    by (induction d) auto
  ultimately show "k \<in> fst ` set d \<Longrightarrow> distinct (map fst d) \<Longrightarrow> ?thesis" by (simp add: move_to_end_def)
qed

lemma length_move_to_end: "length (move_to_end k d) = length d"
  by (induction d) (auto simp: move_to_end_def)

text \<open>What holds of the cache after opening \<open>us\<close>.\<close>

definition cache_after :: "int \<Rightarrow> string list \<Rightarrow> 'h resources \<Rightarrow> bool" where
  "cache_after m us r \<longleftrightarrow> lr_max_open r = m
     \<and> map fst (lr_handles r) = last_n (nat m) (remdups us)
     \<and> lr_open_count r = int (length (lr_handles r) + length (lr_closed r))
     \<and> int (length (remdups us)) \<le> lr_open_count r
     \<and> (int (length (remdups us)) \<le> m \<longrightarrow> lr_closed r = [])"

lemma cache_step:
  assumes r: "cache_after m us r" and m: "0 \<le> m" and opener: "opener u = Inr h"
  shows "cache_after m (us @ [u]) (snd (open_once u opener r)) \<and> isl (fst (open_once u opener r)) = False"
proof (cases "map_of (lr_handles r) u")
  case None
  then have keys: "u \<notin> set (last_n (nat m) (remdups us))"
    using r by (metis cache_after_def image_set map_of_eq_None_iff)
  let ?d = "lr_handles r @ [(u, h)]"
  let ?r = "snd (open_once u opener r)"
  have eq: "open_once u opener r = (Inr h, r\<lparr>lr_open_count := lr_open_count r + 1,
      lr_handles := last_n (nat m) ?d, lr_closed := lr_closed r @ map snd (take (length ?d - nat m) ?d)\<rparr>)"
    using None r m by (simp add: open_once_def opener evict_spec cache_after_def)
  have k: "map fst (last_n (nat m) ?d) = last_n (nat m) (remdups (us @ [u]))"
    using r last_n_add [OF _ keys] by (simp add: last_n_map cache_after_def remdups_snoc)
  have c: "length (last_n (nat m) ?d) + length (map snd (take (length ?d - nat m) ?d)) = length ?d"
    by (auto simp: last_n_def)
  have len: "length (remdups (us @ [u])) \<le> Suc (length (remdups us))" by (simp add: remdups_snoc)
  have "lr_closed ?r = []" if small: "int (length (remdups (us @ [u]))) \<le> m"
  proof -
    have nu: "u \<notin> set us"
    proof
      assume "u \<in> set us"
      then have "length (remdups (us @ [u])) = length (remdups us)"
        by (simp add: length_remdups_card_conv insert_absorb)
      with small have "last_n (nat m) (remdups us) = remdups us" by (simp add: last_n_def)
      with keys \<open>u \<in> set us\<close> show False by simp
    qed
    then have "length (remdups (us @ [u])) = Suc (length (remdups us))"
      by (simp add: remdups_snoc filter_neq_absent)
    moreover from this small have "length (lr_handles r) = length (remdups us)"
      using r by (metis cache_after_def diff_is_0_eq drop0 last_n_def length_map Suc_leD nat_int nat_mono of_nat_Suc le_trans lessI less_imp_le_nat)
    ultimately show ?thesis using small r by (simp add: eq cache_after_def)
  qed
  with r k c len show ?thesis unfolding eq by (auto simp: cache_after_def)
next
  case (Some g)
  then have "u \<in> fst ` set (lr_handles r)" by (metis domI dom_map_of_conv_image_fst)
  moreover from this have u: "u \<in> set (last_n (nat m) (remdups us))" using r by (metis cache_after_def image_set)
  moreover have "distinct (map fst (lr_handles r))" using r by (simp add: cache_after_def last_n_def)
  ultimately have "map fst (move_to_end u (lr_handles r)) = last_n (nat m) (remdups (us @ [u]))"
    using r last_n_move [OF _ u] by (simp add: map_fst_move_to_end cache_after_def remdups_snoc)
  moreover have "u \<in> set us" using u by (auto simp: last_n_def dest: in_set_dropD)
  then have "length (remdups (us @ [u])) = length (remdups us)"
    by (simp add: length_remdups_card_conv insert_absorb)
  ultimately show ?thesis
    using r Some by (simp add: open_once_def cache_after_def length_move_to_end)
qed

text \<open>
  C12. The cache of open files is exactly a least-recently-used cache of \<open>max_open\<close> entries: after
  any sequence of reads it holds the \<open>max_open\<close> files used last, in order of last use; no more
  handles are open than the bound allows; while the files fit, each is opened exactly once and none
  is closed; and after \<open>close\<close> every handle opened has been closed.
\<close>

theorem open_once_lru:
  assumes "0 \<le> m" "\<And>u. opener u = Inr (handle u)"
  shows "let r = open_all opener us (new_resources m)
     in map fst (lr_handles r) = last_n (nat m) (remdups us)
      \<and> int (length (lr_handles r)) \<le> m
      \<and> (int (length (remdups us)) \<le> m \<longrightarrow> lr_open_count r = int (length (remdups us)) \<and> lr_closed r = [])
      \<and> lr_handles (close_resources r) = []
      \<and> int (length (lr_closed (close_resources r))) = lr_open_count (close_resources r)"
proof -
  have "cache_after m us (open_all opener us (new_resources m))"
  proof (induction us rule: rev_induct)
    case Nil
    show ?case using assms(1) by (simp add: open_all_def new_resources_def cache_after_def last_n_def)
  next
    case (snoc u us)
    then show ?case using cache_step [OF snoc.IH assms(1) assms(2)] by (simp add: open_all_def)
  qed
  then show ?thesis
    using assms(1) by (auto simp: Let_def cache_after_def close_resources_def last_n_def
      dest: arg_cong [where f = length])
qed

theorem open_once_lru_witness:
  "map fst (lr_handles (open_all (\<lambda>u. Inr u) [''a'', ''b'', ''a'', ''c''] (new_resources 2))) = [''a'', ''c'']"
  using open_once_lru [of 2 "\<lambda>u. Inr u" "\<lambda>u. u" "[''a'', ''b'', ''a'', ''c'']"]
  by (simp add: Let_def last_n_def)

section \<open>Plans\<close>

text \<open>
  A partial is dynamically typed: a plan that goes on past failed chunks wraps each one in
  \<open>_Partial\<close>. \<open>Bare\<close> is a value of the analysis itself.
\<close>

datatype 'r pvalue = Bare 'r | Partial "'r pvalue" "failed_chunk list"

text \<open>
  The parts of a plan, each a user's callable or the wrapper \<open>skipping\<close> puts around one. A user's
  process reads a partition with the worker's resources; a \<open>Bindable\<close> one has a hook that returns a
  copy with service endpoints bound, or raises. A user's \<open>combine\<close> handed a wrapped partial is a
  type error of the plan.
\<close>

datatype ('r, 'h) process =
    UserProcess "partition \<Rightarrow> ('r, 'h resources) action" "((string \<rightharpoonup> string) \<Rightarrow> ('r, 'h) process result) option"
  | SkipProcess "('r, 'h) process" "'r pvalue" "(string \<times> failed_chunk) list"

datatype 'r combiner =
    UserCombine "'r \<Rightarrow> 'r \<Rightarrow> 'r result"
  | SkipCombine "'r combiner" int

record ('r, 'h) plan =
  pl_process :: "('r, 'h) process"
  pl_combine :: "'r combiner"
  pl_empty :: "'r pvalue"
  pl_tasks :: "task list"
  pl_next_tasks :: "(exec_context \<Rightarrow> task list option) option"
  pl_stop :: "stop_condition option"
  pl_open_once :: bool
  pl_services :: "string list"
  pl_finalize :: "('r \<Rightarrow> 'r result) option"

text \<open>A label without a file's entry count always exists.\<close>

definition task_label :: "partition \<Rightarrow> string" where
  "task_label p = (case chunk_label p None None of Inr l \<Rightarrow> l | Inl _ \<Rightarrow> [])"

lemma chunk_label_task [simp]: "chunk_label p None None = Inr (task_label p)"
  by (simp add: task_label_def chunk_label_def Let_def)

text \<open>A skipping process turns a failed chunk into an empty partial that names why there is none.\<close>

fun run_process :: "('r, 'h) process \<Rightarrow> partition \<Rightarrow> ('r pvalue, 'h resources) action" where
  "run_process (UserProcess f _) p = act_bind (f p) (\<lambda>r. act_return (Bare r))"
| "run_process (SkipProcess inner mt lost) p =
     act_bind (act_lift (chunk_label p None None)) (\<lambda>label.
       case (if lost \<noteq> [] then map_of lost label else None) of
         Some failed \<Rightarrow> act_return (Partial mt [failed])
       | None \<Rightarrow>
           act_except (act_bind (run_process inner p) (\<lambda>v. act_return (Partial v [])))
             (\<lambda>exc. act_return (Partial mt [mk_failed_chunk label p exc])))"

fun run_combine :: "'r combiner \<Rightarrow> 'r pvalue \<Rightarrow> 'r pvalue \<Rightarrow> 'r pvalue result" where
  "run_combine (UserCombine f) (Bare a) (Bare b) = result_bind (f a b) (\<lambda>r. Inr (Bare r))"
| "run_combine (SkipCombine c budget) (Partial a fa) (Partial b fb) =
     (let failed = fa @ fb
      in if int (length failed) > budget then Inl (TooManyFailedChunksError (by_label failed))
         else result_bind (run_combine c a b) (\<lambda>v. Inr (Partial v failed)))"
| "run_combine _ _ _ = Inl (TypeError ''combine got a partial of another kind'')"

fun n_failed :: "'r pvalue \<Rightarrow> int" where
  "n_failed (Partial _ failed) = int (length failed)"
| "n_failed (Bare _) = 0"

fun skipped_error :: "'r pvalue \<Rightarrow> string option" where
  "skipped_error (Partial _ (f # _)) = Some (fc_error f)"
| "skipped_error _ = None"

record 'r exec_result =
  er_value :: "'r pvalue"
  er_n_partitions :: int
  er_n_combines :: int
  er_stopped :: "stop_reason option"
  er_failed :: "failed_chunk list"

text \<open>
  \<open>finalize_result\<close> on a \<open>Plan\<close>: the result, and the text of the warning it issues when chunks are
  missing. A user's \<open>finalize\<close> is handed the unwrapped value.
\<close>

definition finalize_result :: "('r, 'h) plan \<Rightarrow> 'r exec_result \<Rightarrow> 'r exec_result result \<times> string list" where
  "finalize_result plan result =
     (let (result, warned) =
        (case er_value result of
           Partial v failed \<Rightarrow>
             (let failed = by_label failed
              in (result\<lparr>er_value := v, er_failed := failed\<rparr>,
                  if failed \<noteq> [] then [dec (int (length failed)) @
                    '' failed chunk(s) are missing from this value; see .failed''] else []))
         | Bare _ \<Rightarrow> (result, []))
      in (case pl_finalize plan of
            None \<Rightarrow> Inr result
          | Some fn \<Rightarrow>
              (case er_value result of
                 Bare v \<Rightarrow> result_bind (fn v) (\<lambda>v'. Inr (result\<lparr>er_value := Bare v'\<rparr>))
               | Partial _ _ \<Rightarrow> Inl (TypeError ''finalize got a partial of another kind'')), warned))"

definition is_skipping :: "('r, 'h) process \<Rightarrow> bool" where
  "is_skipping p = (case p of SkipProcess _ _ _ \<Rightarrow> True | UserProcess _ _ \<Rightarrow> False)"

definition skipping :: "('r, 'h) plan \<Rightarrow> int \<Rightarrow> ('r, 'h) plan result" where
  "skipping plan skip_failed =
     (let budget = (if skip_failed \<noteq> 0 then Some skip_failed
                    else (case pl_stop plan of Some s \<Rightarrow> max_errors s | None \<Rightarrow> None))
      in case budget of
           None \<Rightarrow> Inr plan
         | Some b \<Rightarrow>
             if b < 0 then Inl (ValueError (''a failed-chunk budget must be >= 0, got '' @ dec b))
             else if b = 0 \<or> is_skipping (pl_process plan) then Inr plan
             else Inr (plan\<lparr>
               pl_process := SkipProcess (pl_process plan) (pl_empty plan) [],
               pl_combine := SkipCombine (pl_combine plan) b,
               pl_empty := Partial (pl_empty plan) [],
               pl_stop := Some ((case pl_stop plan of Some s \<Rightarrow> s | None \<Rightarrow> no_stop_condition)\<lparr>max_errors := Some b\<rparr>)\<rparr>))"

text \<open>
  A rerun after a worker was lost: \<open>Inl\<close> is the exception raised, the error itself when there is
  no such rerun. (\<open>skipping\<close> wraps \<open>process\<close>, \<open>combine\<close> and \<open>stop\<close> together, which the casts say.)
\<close>

definition labelled :: "task list \<Rightarrow> (string \<times> partition) list result" where
  "labelled tasks = result_bind
     (traverse (\<lambda>t. result_bind (chunk_label (task_partition t) None None) (\<lambda>l. Inr (l, task_partition t))) tasks)
     (\<lambda>items. Inr (dict_merge [] items))"

definition without_lost :: "('r, 'h) plan \<Rightarrow> exn \<Rightarrow> ('r, 'h) plan result" where
  "without_lost plan err =
     (case (pl_process plan, pl_combine plan, pl_stop plan) of
        (SkipProcess inner mt lost, SkipCombine c b, Some stop) \<Rightarrow>
          (if pl_next_tasks plan \<noteq> None then Inl err
           else (let label = exn_partition err
                 in result_bind (labelled (pl_tasks plan)) (\<lambda>parts.
                   case map_of parts label of
                     None \<Rightarrow> Inl err
                   | Some p \<Rightarrow>
                       (let budget = b - (if map_of lost label \<noteq> None then 1 else 0);
                            lost' = AList.update label (mk_failed_chunk label p err) lost
                        in if int (length lost') > budget
                           then Inl (TooManyFailedChunksError (by_label (map snd lost')))
                           else Inr (plan\<lparr>pl_process := SkipProcess inner mt lost',
                                          pl_combine := SkipCombine c budget,
                                          pl_stop := Some (stop\<lparr>max_errors := Some budget\<rparr>)\<rparr>)))))
      | _ \<Rightarrow> Inl err)"

section \<open>A saved plan\<close>

text \<open>
  \<open>Plan.save\<close> and \<open>Plan.load\<close>: a header that names the version, then a pickle. \<open>pickled\<close> and
  \<open>unpickle\<close> are \<open>cloudpickle.dumps\<close> and \<open>pickle.load\<close>; \<open>ver\<close> is \<open>version()\<close>.
\<close>

definition saved_plan :: string where
  "saved_plan = ''graphed-plan ''"

definition is_space :: "char \<Rightarrow> bool" where
  "is_space c \<longleftrightarrow> c = CHR '' '' \<or> (9 \<le> (of_char c :: nat) \<and> (of_char c :: nat) \<le> 13)"

definition strip_ws :: "string \<Rightarrow> string" where
  "strip_ws s = rev (dropWhile is_space (rev (dropWhile is_space s)))"

definition save_plan :: "string \<Rightarrow> string \<Rightarrow> string" where
  "save_plan ver pickled = saved_plan @ ver @ [CHR 0x0A] @ pickled"

definition load_plan :: "string \<Rightarrow> (string \<Rightarrow> 'p result) \<Rightarrow> string \<Rightarrow> string \<Rightarrow> 'p result" where
  "load_plan ver unpickle path file =
     (let header = takeWhile (\<lambda>c. c \<noteq> CHR 0x0A) file;
          rest = drop (Suc (length header)) file
      in if \<not> starts_with saved_plan header
         then Inl (ValueError (py_repr path @ '' is not a file Plan.save wrote''))
         else (let saved = strip_ws (drop (length saved_plan) header)
               in if saved \<noteq> ver
                  then Inl (ValueError (py_repr path @ '' was saved by graphed '' @ saved @ '' and this is graphed '' @ ver @
                    '': a saved plan loads only on the version that wrote it, so rebuild it from the analysis''))
                  else unpickle rest))"

section \<open>Services a plan needs\<close>

fun is_bindable :: "('r, 'h) process \<Rightarrow> bool" where
  "is_bindable (UserProcess _ b) = (b \<noteq> None)"
| "is_bindable (SkipProcess _ _ _) = True"

fun bind_process :: "('r, 'h) process \<Rightarrow> (string \<rightharpoonup> string) \<Rightarrow> ('r, 'h) process result" where
  "bind_process (UserProcess f b) endpoints = (case b of Some g \<Rightarrow> g endpoints | None \<Rightarrow> Inr (UserProcess f b))"
| "bind_process (SkipProcess inner mt lost) endpoints =
     (if is_bindable inner
      then result_bind (bind_process inner endpoints) (\<lambda>inner'. Inr (SkipProcess inner' mt lost))
      else Inr (SkipProcess inner mt lost))"

text \<open>
  \<open>_require_parts\<close>: each pass binds every part and names one more unbound service. \<open>names\<close> are the
  keys of \<open>missing\<close> in insertion order; \<open>None\<close> is a loop that does not end.
\<close>

fun bind_all :: "((string \<rightharpoonup> string) \<Rightarrow> 'p result) list \<Rightarrow> (string \<rightharpoonup> string) \<Rightarrow> unit result" where
  "bind_all [] m = Inr ()"
| "bind_all (b # bs) m = result_bind (b m) (\<lambda>_. bind_all bs m)"

definition unbound_endpoints :: "string list \<Rightarrow> (string \<rightharpoonup> string)" where
  "unbound_endpoints names = (\<lambda>n. if n \<in> set names then Some ''tcp://unbound:0'' else None)"

partial_function (option) require_parts :: "((string \<rightharpoonup> string) \<Rightarrow> 'p result) list \<Rightarrow> string list \<Rightarrow> unit result option" where
  "require_parts parts names =
     (case bind_all parts (unbound_endpoints names) of
        Inr _ \<Rightarrow> Some (if names \<noteq> [] then Inl (UnboundServiceError (sort names)) else Inr ())
      | Inl e \<Rightarrow>
          (case e of
             UnboundServiceError ns \<Rightarrow>
               (case ns of
                  n # _ \<Rightarrow> if n \<in> set names then Some (Inl e) else require_parts parts (names @ [n])
                | [] \<Rightarrow> Some (Inl e))
           | _ \<Rightarrow> Some (Inl e)))"

definition require_bound :: "('r, 'h) plan \<Rightarrow> unit result option" where
  "require_bound plan =
     (if pl_services plan = [] then Some (Inr ())
      else require_parts (if is_bindable (pl_process plan) then [bind_process (pl_process plan)] else []) [])"

text \<open>
  The \<open>Bindable\<close> contract: a part that calls services raises naming one of them while some have no
  endpoint, and binds once all have one.
\<close>

definition lawful_bind :: "((string \<rightharpoonup> string) \<Rightarrow> 'p result) \<Rightarrow> string set \<Rightarrow> bool" where
  "lawful_bind b needs \<longleftrightarrow> finite needs
     \<and> (\<forall>m. (needs \<subseteq> dom m \<longrightarrow> (\<exists>p. b m = Inr p))
          \<and> (\<not> needs \<subseteq> dom m \<longrightarrow> (\<exists>n ns. b m = Inl (UnboundServiceError (n # ns)) \<and> n \<in> needs - dom m)))"

lemma lawful_bindD:
  assumes "lawful_bind b needs"
  shows "finite needs"
    and "needs \<subseteq> dom m \<Longrightarrow> \<exists>p. b m = Inr p"
    and "\<not> needs \<subseteq> dom m \<Longrightarrow> \<exists>n ns. b m = Inl (UnboundServiceError (n # ns)) \<and> n \<in> needs - dom m"
proof -
  from assms have f: "finite needs" and a: "\<forall>m. (needs \<subseteq> dom m \<longrightarrow> (\<exists>p. b m = Inr p))
      \<and> (\<not> needs \<subseteq> dom m \<longrightarrow> (\<exists>n ns. b m = Inl (UnboundServiceError (n # ns)) \<and> n \<in> needs - dom m))"
    unfolding lawful_bind_def by (rule conjunct1, rule conjunct2)
  from f show "finite needs" .
  show "needs \<subseteq> dom m \<Longrightarrow> \<exists>p. b m = Inr p"
    by (rule a [THEN spec, THEN conjunct1, THEN mp])
  show "\<not> needs \<subseteq> dom m \<Longrightarrow> \<exists>n ns. b m = Inl (UnboundServiceError (n # ns)) \<and> n \<in> needs - dom m"
    by (rule a [THEN spec, THEN conjunct2, THEN mp])
qed

lemma lawful_bindI:
  "finite needs \<Longrightarrow> (\<And>m. needs \<subseteq> dom m \<Longrightarrow> \<exists>p. b m = Inr p) \<Longrightarrow>
   (\<And>m. \<not> needs \<subseteq> dom m \<Longrightarrow> \<exists>n ns. b m = Inl (UnboundServiceError (n # ns)) \<and> n \<in> needs - dom m) \<Longrightarrow>
   lawful_bind b needs"
  unfolding lawful_bind_def by (intro conjI allI impI)

lemma dom_unbound_endpoints [simp]: "dom (unbound_endpoints names) = set names"
  by (auto simp: unbound_endpoints_def dom_def)

lemma bind_all_lawful:
  assumes "list_all2 lawful_bind parts needs"
  shows "if \<Union> (set needs) \<subseteq> dom m then bind_all parts m = Inr ()
         else \<exists>n ns. bind_all parts m = Inl (UnboundServiceError (n # ns)) \<and> n \<in> \<Union> (set needs) - dom m"
  using assms
proof (induction parts needs rule: list_all2_induct)
  case (Cons b bs x xs)
  show ?case
  proof (cases "x \<subseteq> dom m")
    case True
    then obtain p where "b m = Inr p" using lawful_bindD(2) [OF Cons(1)] by blast
    with Cons(3) True show ?thesis by (auto split: if_splits)
  next
    case False
    then obtain n ns where "b m = Inl (UnboundServiceError (n # ns))" "n \<in> x - dom m"
      using lawful_bindD(3) [OF Cons(1)] by blast
    with False show ?thesis by auto
  qed
qed simp

lemma require_parts_terminates:
  assumes "list_all2 lawful_bind parts needs" "distinct names" "set names \<subseteq> \<Union> (set needs)"
  shows "\<exists>all. set all = \<Union> (set needs) \<and> distinct all \<and> require_parts parts names =
    Some (if all \<noteq> [] then Inl (UnboundServiceError (sort all)) else Inr ())"
  using assms(2,3)
proof (induction "card (\<Union> (set needs) - set names)" arbitrary: names rule: less_induct)
  case less
  let ?m = "unbound_endpoints names"
  have fin: "finite (\<Union> (set needs))"
    using assms(1) by (induction parts needs rule: list_all2_induct) (auto dest: lawful_bindD(1))
  show ?case
  proof (cases "\<Union> (set needs) \<subseteq> set names")
    case True
    then have "bind_all parts ?m = Inr ()" using bind_all_lawful [OF assms(1), of ?m] by simp
    then have "require_parts parts names = Some (if names \<noteq> [] then Inl (UnboundServiceError (sort names)) else Inr ())"
      by (subst require_parts.simps) simp
    with less True show ?thesis by blast
  next
    case False
    then obtain n ns where n: "bind_all parts ?m = Inl (UnboundServiceError (n # ns))" "n \<in> \<Union> (set needs) - set names"
      using bind_all_lawful [OF assms(1), of ?m] by auto
    then have "require_parts parts names = require_parts parts (names @ [n])"
      by (subst require_parts.simps) simp
    moreover have "card (\<Union> (set needs) - set (names @ [n])) < card (\<Union> (set needs) - set names)"
      using n(2) fin by (intro psubset_card_mono) auto
    ultimately show ?thesis using less n(2) by simp
  qed
qed

lemma bind_process_lawful:
  assumes "lawful_bind (bind_process inner) needs" "is_bindable inner"
  shows "lawful_bind (bind_process (SkipProcess inner mt lost)) needs"
proof (rule lawful_bindI)
  show "finite needs" by (rule lawful_bindD(1) [OF assms(1)])
next
  fix m :: "string \<rightharpoonup> string"
  assume "needs \<subseteq> dom m"
  from lawful_bindD(2) [OF assms(1) this] show "\<exists>p. bind_process (SkipProcess inner mt lost) m = Inr p"
    using assms(2) by auto
next
  fix m :: "string \<rightharpoonup> string"
  assume "\<not> needs \<subseteq> dom m"
  from lawful_bindD(3) [OF assms(1) this]
  show "\<exists>n ns. bind_process (SkipProcess inner mt lost) m = Inl (UnboundServiceError (n # ns)) \<and> n \<in> needs - dom m"
    using assms(2) by auto
qed

text \<open>
  C11. The check before a run always ends, and reports every service without an endpoint at once, in
  name order: with lawful parts it raises \<open>UnboundServiceError\<close> with the sorted list of all the
  services the parts need, or returns when they need none.
\<close>

theorem require_parts_reports_all:
  assumes "list_all2 lawful_bind parts needs"
  shows "require_parts parts [] =
    Some (if \<Union> (set needs) = {} then Inr () else Inl (UnboundServiceError (sorted_list_of_set (\<Union> (set needs)))))"
proof -
  obtain all where all: "set all = \<Union> (set needs)" "distinct all"
      "require_parts parts [] = Some (if all \<noteq> [] then Inl (UnboundServiceError (sort all)) else Inr ())"
    using require_parts_terminates [OF assms, of "[]"] by auto
  then have "sorted_list_of_set (\<Union> (set needs)) = sort all"
    by (metis sorted_list_of_set_sort_remdups remdups_id_iff_distinct)
  moreover have "all = [] \<longleftrightarrow> \<Union> (set needs) = {}" using all(1) by (metis set_empty2)
  ultimately show ?thesis using all(3) by simp
qed

theorem require_parts_reports_all_witness:
  "let part = (\<lambda>s m. if m s = None then Inl (UnboundServiceError [s]) else Inr (s :: string)) in
   require_parts [part ''triton'', part ''corrections''] []
     = Some (Inl (UnboundServiceError [''corrections'', ''triton'']))"
proof -
  let ?part = "\<lambda>s m. if m s = None then Inl (UnboundServiceError [s]) else Inr (s :: string)"
  have "lawful_bind (?part s) {s}" for s by (auto simp: lawful_bind_def)
  then have "list_all2 lawful_bind [?part ''triton'', ?part ''corrections''] [{''triton''}, {''corrections''}]" by simp
  from require_parts_reports_all [OF this] show ?thesis by (simp add: Let_def insert_commute)
qed

section \<open>Reruns after lost workers\<close>

text \<open>The reruns a lost worker's error makes possible, one after the other.\<close>

fun rerun_chain :: "('r, 'h) plan \<Rightarrow> exn list \<Rightarrow> ('r, 'h) plan result" where
  "rerun_chain plan [] = Inr plan"
| "rerun_chain plan (e # es) = result_bind (without_lost plan e) (\<lambda>p. rerun_chain p es)"

definition lost_chunks :: "('r, 'h) plan \<Rightarrow> (string \<times> failed_chunk) list" where
  "lost_chunks plan = (case pl_process plan of SkipProcess _ _ lost \<Rightarrow> lost | UserProcess _ _ \<Rightarrow> [])"

definition reruns_left :: "('r, 'h) plan \<Rightarrow> int" where
  "reruns_left plan = (case pl_combine plan of SkipCombine _ b \<Rightarrow> b - int (length (lost_chunks plan)) | UserCombine _ \<Rightarrow> 0)"

lemma length_update: "length (AList.update k v d) = (if k \<in> fst ` set d then length d else Suc (length d))"
  by (induction d) auto

lemma without_lost_step:
  assumes "without_lost plan e = Inr q"
  shows "reruns_left q = reruns_left plan - 1" "0 \<le> reruns_left q"
    "fst ` set (lost_chunks q) = insert (exn_partition e) (fst ` set (lost_chunks plan))"
    "pl_tasks q = pl_tasks plan"
    "\<exists>inner mt. pl_process plan = SkipProcess inner mt (lost_chunks plan) \<and> pl_process q = SkipProcess inner mt (lost_chunks q)"
proof -
  from assms obtain inner mt lost c b stop parts p where
      plan: "pl_process plan = SkipProcess inner mt lost" "pl_combine plan = SkipCombine c b"
    and parts: "labelled (pl_tasks plan) = Inr parts" "map_of parts (exn_partition e) = Some p"
    and q: "q = plan\<lparr>pl_process := SkipProcess inner mt (AList.update (exn_partition e) (mk_failed_chunk (exn_partition e) p e) lost),
          pl_combine := SkipCombine c (b - (if map_of lost (exn_partition e) \<noteq> None then 1 else 0)),
          pl_stop := Some (stop\<lparr>max_errors := Some (b - (if map_of lost (exn_partition e) \<noteq> None then 1 else 0))\<rparr>)\<rparr>"
    and le: "int (length (AList.update (exn_partition e) (mk_failed_chunk (exn_partition e) p e) lost))
          \<le> b - (if map_of lost (exn_partition e) \<noteq> None then 1 else 0)"
    by (auto simp: without_lost_def Let_def result_bind_Inr_iff split: process.splits combiner.splits option.splits if_splits)
  have mem: "map_of lost (exn_partition e) \<noteq> None \<longleftrightarrow> exn_partition e \<in> fst ` set lost"
    by (metis domIff dom_map_of_conv_image_fst)
  have cost: "(if map_of lost (exn_partition e) \<noteq> None then 1 else 0 :: int) = (if exn_partition e \<in> fst ` set lost then 1 else 0)"
    using mem by simp
  show "reruns_left q = reruns_left plan - 1" "0 \<le> reruns_left q"
    using le [unfolded cost] q [unfolded cost] by (simp_all add: reruns_left_def lost_chunks_def plan length_update split: if_splits)
  show "fst ` set (lost_chunks q) = insert (exn_partition e) (fst ` set (lost_chunks plan))"
    by (simp add: q lost_chunks_def plan dom_update)
  show "pl_tasks q = pl_tasks plan" by (simp add: q)
  show "\<exists>inner mt. pl_process plan = SkipProcess inner mt (lost_chunks plan) \<and> pl_process q = SkipProcess inner mt (lost_chunks q)"
    by (simp add: q lost_chunks_def plan)
qed

lemma rerun_chain_steps:
  "rerun_chain plan errs = Inr q \<Longrightarrow> 0 \<le> reruns_left plan \<Longrightarrow>
   reruns_left q = reruns_left plan - int (length errs) \<and> 0 \<le> reruns_left q
   \<and> fst ` set (lost_chunks q) = exn_partition ` set errs \<union> fst ` set (lost_chunks plan)
   \<and> pl_tasks q = pl_tasks plan"
proof (induction errs arbitrary: plan)
  case (Cons e errs)
  then obtain p where p: "without_lost plan e = Inr p" "rerun_chain p errs = Inr q" by (auto simp: result_bind_Inr_iff)
  with Cons.IH [OF p(2)] without_lost_step [OF p(1)] show ?case by auto
qed simp

lemma rerun_chain_process:
  "rerun_chain plan errs = Inr q \<Longrightarrow> pl_process plan = SkipProcess inner mt (lost_chunks plan) \<Longrightarrow>
   pl_process q = SkipProcess inner mt (lost_chunks q)"
proof (induction errs arbitrary: plan)
  case (Cons e errs)
  then obtain p where p: "without_lost plan e = Inr p" "rerun_chain p errs = Inr q" by (auto simp: result_bind_Inr_iff)
  with Cons without_lost_step(5) [OF p(1)] show ?case by auto
qed simp

text \<open>
  C10. Reruns after lost workers end: a plan that skips up to \<open>k\<close> failed chunks can be rerun at most
  \<open>k\<close> times, whichever chunks the lost workers are blamed for and however often; the tasks stay the
  same, the chunks left out are exactly the blamed ones, and a blamed chunk is not read again: its
  partial is an empty one that carries a failure.
\<close>

theorem lost_worker_reruns_bounded:
  assumes "\<not> is_skipping (pl_process plan)" "0 < k" "skipping plan k = Inr p0" "rerun_chain p0 errs = Inr q"
  shows "int (length errs) \<le> k
     \<and> fst ` set (lost_chunks q) = exn_partition ` set errs
     \<and> pl_tasks q = pl_tasks plan
     \<and> (\<forall>p r. task_label p \<in> exn_partition ` set errs \<longrightarrow>
          (\<exists>f. run_process (pl_process q) p r = (Inr (Partial (pl_empty plan) [f]), r)))"
proof -
  from assms(1-3) have p0: "pl_process p0 = SkipProcess (pl_process plan) (pl_empty plan) []"
      "pl_combine p0 = SkipCombine (pl_combine plan) k" "pl_tasks p0 = pl_tasks plan"
    by (auto simp: skipping_def Let_def)
  have left: "reruns_left p0 = k" "lost_chunks p0 = []" by (simp_all add: reruns_left_def lost_chunks_def p0)
  note steps = rerun_chain_steps [OF assms(4)]
  have proc: "pl_process q = SkipProcess (pl_process plan) (pl_empty plan) (lost_chunks q)"
    by (rule rerun_chain_process [OF assms(4)]) (simp add: p0 left)
  have "\<exists>f. run_process (pl_process q) p r = (Inr (Partial (pl_empty plan) [f]), r)"
    if "task_label p \<in> fst ` set (lost_chunks q)" for p r
  proof -
    from that obtain f where "map_of (lost_chunks q) (task_label p) = Some f" "lost_chunks q \<noteq> []"
      by (metis domD dom_map_of_conv_image_fst empty_iff image_empty list.set(1))
    then show ?thesis by (simp add: proc action_simps)
  qed
  with steps left assms(2) p0(3) show ?thesis by auto
qed

theorem lost_worker_reruns_bounded_witness:
  "let plan = \<lparr>pl_process = UserProcess (\<lambda>p r. (Inr (n_entries p), r)) None, pl_combine = UserCombine (\<lambda>a b. Inr (a + b)),
         pl_empty = Bare 0, pl_tasks = [\<lparr>task_key = 0, task_partition = mk_partition ''a'' [] 0 5\<rparr>], pl_next_tasks = None,
         pl_stop = None, pl_open_once = False, pl_services = [], pl_finalize = None\<rparr> :: (int, unit) plan;
       e = UserError ''WorkerLost'' ''killed'' None ''a (entries 0-5)''
   in \<exists>p0 q. skipping plan 2 = Inr p0 \<and> rerun_chain p0 [e, e] = Inr q
        \<and> fst ` set (lost_chunks q) = {''a (entries 0-5)''} \<and> (\<forall>q'. rerun_chain p0 [e, e, e] \<noteq> Inr q')"
proof -
  let ?plan = "\<lparr>pl_process = UserProcess (\<lambda>p r. (Inr (n_entries p), r)) None, pl_combine = UserCombine (\<lambda>a b. Inr (a + b)),
         pl_empty = Bare 0, pl_tasks = [\<lparr>task_key = 0, task_partition = mk_partition ''a'' [] 0 5\<rparr>], pl_next_tasks = None,
         pl_stop = None, pl_open_once = False, pl_services = [], pl_finalize = None\<rparr> :: (int, unit) plan"
  let ?e = "UserError ''WorkerLost'' ''killed'' None ''a (entries 0-5)''"
  have l: "task_label (mk_partition ''a'' [] 0 5) = ''a (entries 0-5)''" by code_simp
  obtain p0 where p0: "skipping ?plan 2 = Inr p0" by (simp add: skipping_def is_skipping_def)
  have user: "\<not> is_skipping (pl_process ?plan)" by (simp add: is_skipping_def)
  obtain q where q: "rerun_chain p0 [?e, ?e] = Inr q"
    using p0 by (auto simp: skipping_def is_skipping_def without_lost_def labelled_def l dict_merge_def Let_def)
  have "rerun_chain p0 [?e, ?e, ?e] \<noteq> Inr q'" for q'
    using lost_worker_reruns_bounded [OF user _ p0, of "[?e, ?e, ?e]" q'] by auto
  with p0 q lost_worker_reruns_bounded [OF user _ p0 q] show ?thesis unfolding Let_def by fastforce
qed

end
