(* ===== verification/Runner.thy ===== *)
theory Runner
  imports Execution
begin

text \<open>
  The reference runner of \<open>core/execution.py\<close>: what a monitor is told, the switch other threads
  pause and cancel a run with, and \<open>SequentialRunner\<close> on a \<open>Plan\<close>, first as a function of what it
  reads from the switch, then as a step relation in which the other threads move between its steps.
\<close>

section \<open>Monitors\<close>

datatype task_phase = SUBMITTED | STARTED | FINISHED | ERRORED

text \<open>A task event, less its clock reading.\<close>

record task_event =
  ev_phase :: task_phase
  ev_key :: int
  ev_worker :: string
  ev_partition :: string
  ev_n_entries :: int
  ev_bytes_read :: "int option"
  ev_error :: "string option"

text \<open>A monitor with state \<open>'m\<close>; the run hooks are optional and any hook may raise.\<close>

record 'm monitor =
  mon_lean :: bool
  mon_on_task :: "task_event \<Rightarrow> (unit, 'm) action"
  mon_run_start :: "(int \<Rightarrow> (unit, 'm) action) option"
  mon_run_end :: "(unit, 'm) action option"

record ('m, 'h) world =
  w_monitor :: 'm
  w_resources :: "'h resources"

definition in_monitor :: "('a, 'm) action \<Rightarrow> ('a, ('m, 'h) world) action" where
  "in_monitor m = (\<lambda>w. case m (w_monitor w) of (r, s) \<Rightarrow> (r, w\<lparr>w_monitor := s\<rparr>))"

definition in_resources :: "('a, 'h resources) action \<Rightarrow> ('a, ('m, 'h) world) action" where
  "in_resources m = (\<lambda>w. case m (w_resources w) of (r, s) \<Rightarrow> (r, w\<lparr>w_resources := s\<rparr>))"

text \<open>\<open>contextlib.suppress(Exception)\<close>\<close>

definition suppress :: "(unit, 's) action \<Rightarrow> (unit, 's) action" where
  "suppress m = act_except m (\<lambda>_. act_return ())"

definition emit_task :: "'m monitor option \<Rightarrow> task_event \<Rightarrow> (unit, ('m, 'h) world) action" where
  "emit_task mon ev = (case mon of None \<Rightarrow> act_return () | Some mo \<Rightarrow> suppress (in_monitor (mon_on_task mo ev)))"

definition lean_events :: "'m monitor option \<Rightarrow> bool" where
  "lean_events mon = (case mon of None \<Rightarrow> False | Some mo \<Rightarrow> mon_lean mo)"

definition call_hook :: "(unit, 'm) action option \<Rightarrow> (unit, ('m, 'h) world) action" where
  "call_hook hook = (case hook of None \<Rightarrow> act_return () | Some h \<Rightarrow> suppress (in_monitor h))"

text \<open>A hook that raises an \<open>Interrupt\<close> after the body replaces the body's outcome.\<close>

definition observed_run :: "'m monitor option \<Rightarrow> int \<Rightarrow> ('a, ('m, 'h) world) action \<Rightarrow> ('a, ('m, 'h) world) action" where
  "observed_run mon n_tasks body =
     act_then (call_hook (case mon of None \<Rightarrow> None | Some mo \<Rightarrow> map_option (\<lambda>h. h n_tasks) (mon_run_start mo)))
       (\<lambda>w. case body w of
          (r, w') \<Rightarrow> act_then (call_hook (case mon of None \<Rightarrow> None | Some mo \<Rightarrow> mon_run_end mo)) (act_lift r) w')"

definition mk_event :: "task_phase \<Rightarrow> task \<Rightarrow> string option \<Rightarrow> bool \<Rightarrow> task_event" where
  "mk_event phase t error lean =
     \<lparr>ev_phase = phase, ev_key = task_key t, ev_worker = ''seq'',
      ev_partition = (if lean then [] else partition_label (task_partition t)),
      ev_n_entries = n_entries (task_partition t), ev_bytes_read = None, ev_error = error\<rparr>"

section \<open>Pause, resume, cancel\<close>

datatype run_state = RUNNING | PAUSED | CANCELLED

definition move :: "run_state \<Rightarrow> run_state option \<Rightarrow> run_state \<Rightarrow> run_state" where
  "move target only_from st = (if only_from = None \<or> only_from = Some st then target else st)"

definition pause :: "run_state \<Rightarrow> run_state" where
  "pause = move PAUSED (Some RUNNING)"

definition resume :: "run_state \<Rightarrow> run_state" where
  "resume = move RUNNING (Some PAUSED)"

definition cancel :: "run_state \<Rightarrow> run_state" where
  "cancel = move CANCELLED None"

definition reset :: "run_state \<Rightarrow> run_state" where
  "reset = move RUNNING None"

text \<open>\<open>apply\<close>: the dashboard's wire form.\<close>

definition apply_command :: "string \<Rightarrow> run_state \<Rightarrow> run_state result" where
  "apply_command cmd st =
     (if cmd = ''pause'' then Inr (pause st)
      else if cmd = ''resume'' then Inr (resume st)
      else if cmd = ''cancel'' then Inr (cancel st)
      else Inl (ValueError (''unknown run-control command '' @ py_repr cmd @ '' (expected pause, resume or cancel)'')))"

text \<open>
  \<open>wait\<close> without a timeout: the states in which its predicate lets it return. Until then the waiter sleeps, and it looks
  again only when it is notified.
\<close>

definition may_wake :: "run_state \<Rightarrow> bool" where
  "may_wake st \<longleftrightarrow> st \<noteq> PAUSED"

section \<open>The sequential runner\<close>

text \<open>
  What one run reads from its control: the state on entry, and what each \<open>wait\<close> before a task
  returned.
\<close>

record control_view =
  cv_entry :: run_state
  cv_waits :: "nat \<Rightarrow> run_state"

definition ordered_tasks :: "('r, 'h) plan \<Rightarrow> task list" where
  "ordered_tasks plan = sort_key task_key (pl_tasks plan)"

definition exec_result_of :: "'r pvalue \<Rightarrow> nat \<Rightarrow> stop_reason option \<Rightarrow> 'r exec_result" where
  "exec_result_of v n stopped =
     \<lparr>er_value = v, er_n_partitions = int n, er_n_combines = max 0 (int n - 1), er_stopped = stopped, er_failed = []\<rparr>"

text \<open>One task: its events, its process and the combine with the value so far.\<close>

definition run_task :: "('r, 'h) plan \<Rightarrow> 'm monitor option \<Rightarrow> task \<Rightarrow> 'r pvalue \<Rightarrow> ('r pvalue, ('m, 'h) world) action" where
  "run_task plan mon t v =
     act_then (if mon \<noteq> None \<and> \<not> lean_events mon then emit_task mon (mk_event STARTED t None False) else act_return ())
       (act_bind
         (act_except (in_resources (run_process (pl_process plan) (task_partition t)))
           (\<lambda>exc. act_then (emit_task mon (mk_event ERRORED t (Some (error_summary exc)) (lean_events mon))) (act_raise exc)))
         (\<lambda>part. act_bind (act_lift (run_combine (pl_combine plan) v part))
           (\<lambda>v'. let why = skipped_error part;
                     phase = (if why = None \<or> why = Some [] then FINISHED else ERRORED)
                 in act_then (emit_task mon (mk_event phase t why (lean_events mon))) (act_return v'))))"

fun run_loop :: "('r, 'h) plan \<Rightarrow> 'm monitor option \<Rightarrow> control_view option \<Rightarrow> task list \<Rightarrow> nat \<Rightarrow> 'r pvalue \<Rightarrow>
    ('r exec_result, ('m, 'h) world) action" where
  "run_loop plan mon ctl [] n v = act_return (exec_result_of v n None)"
| "run_loop plan mon ctl (t # ts) n v =
     (if (case ctl of None \<Rightarrow> False | Some c \<Rightarrow> cv_waits c n = CANCELLED)
      then act_return (exec_result_of v n (Some STOP_CANCELLED))
      else act_bind (run_task plan mon t v) (\<lambda>v'. run_loop plan mon ctl ts (Suc n) v'))"

definition submit_all :: "'m monitor option \<Rightarrow> task list \<Rightarrow> (unit, ('m, 'h) world) action" where
  "submit_all mon ts = act_each (\<lambda>t. emit_task mon (mk_event SUBMITTED t None False)) ts"

definition start_resources :: "('m, 'h) world \<Rightarrow> ('m, 'h) world" where
  "start_resources w = w\<lparr>w_resources := new_resources 128\<rparr>"

definition end_resources :: "('m, 'h) world \<Rightarrow> ('m, 'h) world" where
  "end_resources w = w\<lparr>w_resources := close_resources (w_resources w)\<rparr>"

definition run_tasks :: "('r, 'h) plan \<Rightarrow> 'm monitor option \<Rightarrow> control_view option \<Rightarrow> ('r exec_result, ('m, 'h) world) action" where
  "run_tasks plan mon ctl w =
     act_finally
       (if (case ctl of None \<Rightarrow> False | Some c \<Rightarrow> cv_entry c = CANCELLED)
        then act_return (exec_result_of (pl_empty plan) 0 (Some STOP_CANCELLED))
        else act_then (submit_all mon (ordered_tasks plan)) (run_loop plan mon ctl (ordered_tasks plan) 0 (pl_empty plan)))
       end_resources (start_resources w)"

text \<open>
  What the \<open>finally\<close> block does to the switch: a cancel ends this run only, whether or not a check
  saw it.
\<close>

definition control_after :: "run_state \<Rightarrow> run_state" where
  "control_after st = (if st = CANCELLED then reset st else st)"

text \<open>\<open>run\<close> on a \<open>Plan\<close>: the result, or \<open>None\<close> when the check for services does not end.\<close>

definition run_plan :: "('r, 'h) plan \<Rightarrow> int \<Rightarrow> 'm monitor option \<Rightarrow> control_view option \<Rightarrow> ('m, 'h) world \<Rightarrow>
    (('r exec_result result \<times> string list) \<times> ('m, 'h) world) option" where
  "run_plan plan skip_failed mon ctl w =
     (case require_bound plan of
        None \<Rightarrow> None
      | Some (Inl e) \<Rightarrow> Some ((Inl e, []), w)
      | Some (Inr _) \<Rightarrow>
          (case skipping plan skip_failed of
             Inl e \<Rightarrow> Some ((Inl e, []), w)
           | Inr plan' \<Rightarrow>
               (case observed_run mon (int (length (pl_tasks plan'))) (run_tasks plan' mon ctl) w of
                  (Inl e, w') \<Rightarrow> Some ((Inl e, []), w')
                | (Inr res, w') \<Rightarrow> Some (finalize_result plan' res, w'))))"

section \<open>The runner among other threads\<close>

text \<open>Before a task the runner is in \<open>wait\<close>: it looks at the switch, or it sleeps on the condition (the last field).\<close>

datatype 'r runner_phase = AtEntry | AtTask "task list" "'r pvalue" nat bool | Ended "'r exec_result result"

datatype command = PauseCmd | ResumeCmd | CancelCmd

fun do_command :: "command \<Rightarrow> run_state \<Rightarrow> run_state" where
  "do_command PauseCmd = pause"
| "do_command ResumeCmd = resume"
| "do_command CancelCmd = cancel"

type_synonym ('r, 'm, 'h) config = "run_state \<times> 'r runner_phase \<times> ('m, 'h) world"

text \<open>\<open>_move\<close> ends with \<open>notify_all\<close>, whether or not it moved: a sleeping waiter looks at the switch again.\<close>

fun notify_all :: "'r runner_phase \<Rightarrow> 'r runner_phase" where
  "notify_all (AtTask ts v n _) = AtTask ts v n False"
| "notify_all AtEntry = AtEntry"
| "notify_all (Ended r) = Ended r"

text \<open>One step: a command of another thread, at any time, or a step of the runner.\<close>

inductive step :: "('r, 'h) plan \<Rightarrow> 'm monitor option \<Rightarrow> ('r, 'm, 'h) config \<Rightarrow> ('r, 'm, 'h) config \<Rightarrow> bool"
  for plan :: "('r, 'h) plan" and mon :: "'m monitor option" where
  other: "step plan mon (st, ph, w) (do_command c st, notify_all ph, w)"
| entry_cancelled: "step plan mon (CANCELLED, AtEntry, w)
    (control_after CANCELLED, Ended (Inr (exec_result_of (pl_empty plan) 0 (Some STOP_CANCELLED))), end_resources w)"
| entry: "st \<noteq> CANCELLED \<Longrightarrow> submit_all mon (ordered_tasks plan) w = (Inr (), w') \<Longrightarrow>
    step plan mon (st, AtEntry, w) (st, AtTask (ordered_tasks plan) (pl_empty plan) 0 False, w')"
| entry_raises: "st \<noteq> CANCELLED \<Longrightarrow> submit_all mon (ordered_tasks plan) w = (Inl e, w') \<Longrightarrow>
    step plan mon (st, AtEntry, w) (control_after st, Ended (Inl e), end_resources w')"
| sleeps: "\<not> may_wake st \<Longrightarrow> step plan mon (st, AtTask (t # ts) v n False, w) (st, AtTask (t # ts) v n True, w)"
| task_cancelled: "may_wake CANCELLED \<Longrightarrow> step plan mon (CANCELLED, AtTask (t # ts) v n False, w)
    (control_after CANCELLED, Ended (Inr (exec_result_of v n (Some STOP_CANCELLED))), end_resources w)"
| task_runs: "may_wake st \<Longrightarrow> st \<noteq> CANCELLED \<Longrightarrow> run_task plan mon t v w = (Inr v', w') \<Longrightarrow>
    step plan mon (st, AtTask (t # ts) v n False, w) (st, AtTask ts v' (Suc n) False, w')"
| task_raises: "may_wake st \<Longrightarrow> st \<noteq> CANCELLED \<Longrightarrow> run_task plan mon t v w = (Inl e, w') \<Longrightarrow>
    step plan mon (st, AtTask (t # ts) v n False, w) (control_after st, Ended (Inl e), end_resources w')"
| exhausted: "step plan mon (st, AtTask [] v n b, w)
    (control_after st, Ended (Inr (exec_result_of v n None)), end_resources w)"

inductive reachable :: "('r, 'h) plan \<Rightarrow> 'm monitor option \<Rightarrow> ('r, 'm, 'h) config \<Rightarrow> ('r, 'm, 'h) config \<Rightarrow> bool"
  for plan :: "('r, 'h) plan" and mon :: "'m monitor option" where
  here: "reachable plan mon c c"
| onward: "reachable plan mon c d \<Longrightarrow> step plan mon d e \<Longrightarrow> reachable plan mon c e"

section \<open>The step relation implements the function\<close>

inductive_simps step_Ended: "step plan mon (st, Ended r, w) d"

text \<open>
  What is known of a configuration reached from the entry: which calls of \<open>wait\<close> let a task start.
\<close>

definition waits_so_far :: "run_state \<Rightarrow> nat \<Rightarrow> run_state \<Rightarrow> control_view" where
  "waits_so_far entry n reading = \<lparr>cv_entry = entry, cv_waits = (\<lambda>i. if i < n then RUNNING else reading)\<rparr>"

lemma run_loop_cong:
  "(\<And>i. n \<le> i \<Longrightarrow> cv_waits c i = CANCELLED \<longleftrightarrow> cv_waits d i = CANCELLED) \<Longrightarrow>
   run_loop plan mon (Some c) ts n v = run_loop plan mon (Some d) ts n v"
proof (induction ts arbitrary: n v)
  case (Cons t ts)
  have "run_loop plan mon (Some c) ts (Suc n) = run_loop plan mon (Some d) ts (Suc n)"
    by (rule ext, rule Cons.IH) (simp add: Cons.prems)
  with Cons.prems [of n] show ?case by simp
qed simp

text \<open>
  The rest of the run from a configuration: what every continuation, whatever \<open>wait\<close> returns from
  here on, makes of the whole run.
\<close>

definition continues :: "('r, 'h) plan \<Rightarrow> 'm monitor option \<Rightarrow> ('m, 'h) world \<Rightarrow> task list \<Rightarrow> 'r pvalue \<Rightarrow> nat \<Rightarrow> ('m, 'h) world \<Rightarrow> bool" where
  "continues plan mon w0 ts v n w \<longleftrightarrow>
     (\<forall>c. cv_entry c = RUNNING \<longrightarrow> (\<forall>i < n. cv_waits c i = RUNNING) \<longrightarrow>
       run_tasks plan mon (Some c) w0 = act_finally (run_loop plan mon (Some c) ts n v) end_resources w)"

definition accounted :: "('r, 'h) plan \<Rightarrow> 'm monitor option \<Rightarrow> ('m, 'h) world \<Rightarrow> ('r, 'm, 'h) config \<Rightarrow> bool" where
  "accounted plan mon w0 cfg =
     (case cfg of (st, ph, w) \<Rightarrow>
        (case ph of
           AtEntry \<Rightarrow> w = start_resources w0
         | AtTask ts v n _ \<Rightarrow> continues plan mon w0 ts v n w \<and> n + length ts = length (pl_tasks plan)
         | Ended r \<Rightarrow> \<exists>c. run_tasks plan mon (Some c) w0 = (r, w)))"

lemma run_tasks_entry:
  "cv_entry c \<noteq> CANCELLED \<Longrightarrow> run_tasks plan mon (Some c) w0 =
     act_finally (act_then (submit_all mon (ordered_tasks plan)) (run_loop plan mon (Some c) (ordered_tasks plan) 0 (pl_empty plan)))
       end_resources (start_resources w0)"
  by (simp add: run_tasks_def)

lemma accounted_step:
  assumes "accounted plan mon w0 c" "step plan mon c d"
  shows "accounted plan mon w0 d"
  using assms(2,1)
proof (induction rule: step.cases)
  case (other st ph w c)
  then show ?case by (cases ph) (simp_all add: accounted_def)
next
  case (sleeps st t ts v n w)
  then show ?case by (simp add: accounted_def)
next
  case (entry_cancelled w)
  have "run_tasks plan mon (Some (waits_so_far CANCELLED 0 RUNNING)) w0 =
      (Inr (exec_result_of (pl_empty plan) 0 (Some STOP_CANCELLED)), end_resources (start_resources w0))"
    by (simp add: run_tasks_def waits_so_far_def action_simps)
  with entry_cancelled show ?case by (auto simp: accounted_def)
next
  case (entry st w w')
  then have "w = start_resources w0" by (simp add: accounted_def)
  with entry have "continues plan mon w0 (ordered_tasks plan) (pl_empty plan) 0 w'"
    by (simp add: continues_def run_tasks_entry action_simps)
  with entry show ?case by (simp add: accounted_def ordered_tasks_def)
next
  case (entry_raises st w e w')
  then have "run_tasks plan mon (Some (waits_so_far RUNNING 0 RUNNING)) w0 = (Inl e, end_resources w')"
    by (simp add: accounted_def run_tasks_entry waits_so_far_def action_simps)
  with entry_raises show ?case by (auto simp: accounted_def)
next
  case (task_cancelled t ts v n w)
  then have "continues plan mon w0 (t # ts) v n w" by (simp add: accounted_def)
  then have "run_tasks plan mon (Some (waits_so_far RUNNING n CANCELLED)) w0 =
      (Inr (exec_result_of v n (Some STOP_CANCELLED)), end_resources w)"
    by (simp add: continues_def waits_so_far_def action_simps)
  with task_cancelled show ?case by (auto simp: accounted_def)
next
  case (task_runs st t v w v' w' ts n)
  then have "continues plan mon w0 (t # ts) v n w" by (simp add: accounted_def)
  then have "continues plan mon w0 ts v' (Suc n) w'"
    using task_runs by (simp add: continues_def action_simps less_Suc_eq)
  with task_runs show ?case by (simp add: accounted_def)
next
  case (task_raises st t v w e w' ts n)
  then have "continues plan mon w0 (t # ts) v n w" by (simp add: accounted_def)
  then have "run_tasks plan mon (Some (waits_so_far RUNNING n RUNNING)) w0 = (Inl e, end_resources w')"
    using task_raises by (simp add: continues_def waits_so_far_def action_simps)
  with task_raises show ?case by (auto simp: accounted_def)
next
  case (exhausted st v n b w)
  then have "continues plan mon w0 [] v n w" by (auto simp: accounted_def)
  then have "run_tasks plan mon (Some (waits_so_far RUNNING n RUNNING)) w0 = (Inr (exec_result_of v n None), end_resources w)"
    by (simp add: continues_def waits_so_far_def action_simps)
  with exhausted show ?case by (auto simp: accounted_def)
qed

lemma accounted_reachable:
  "reachable plan mon c d \<Longrightarrow> accounted plan mon w0 c \<Longrightarrow> accounted plan mon w0 d"
  by (induction rule: reachable.induct) (auto intro: accounted_step)

text \<open>
  C3. However the commands of other threads interleave with the run, what it ends with is what the
  runner's function computes from some sequence of readings of the switch: the same value or
  exception, the same events emitted and the same files closed.
\<close>

theorem runner_refines_function:
  assumes "reachable plan mon (st0, AtEntry, start_resources w0) (st, Ended r, w)"
  shows "\<exists>view. run_tasks plan mon (Some view) w0 = (r, w)"
proof -
  have "accounted plan mon w0 (st0, AtEntry, start_resources w0)" by (simp add: accounted_def)
  from accounted_reachable [OF assms this] show ?thesis by (simp add: accounted_def)
qed

theorem runner_refines_function_witness:
  "let plan = \<lparr>pl_process = UserProcess (\<lambda>p r. (Inr (n_entries p), r)) None, pl_combine = UserCombine (\<lambda>a b. Inr (a + b)),
       pl_empty = Bare 0, pl_tasks = [\<lparr>task_key = 0, task_partition = mk_partition ''a'' [] 0 5\<rparr>], pl_next_tasks = None,
       pl_stop = None, pl_open_once = False, pl_services = [], pl_finalize = None\<rparr> :: (int, unit) plan;
     w = \<lparr>w_monitor = (), w_resources = new_resources 128\<rparr>
   in \<exists>view. run_tasks plan None (Some view) w =
        (Inr (exec_result_of (Bare 0) 0 (Some STOP_CANCELLED)), end_resources (start_resources w))"
proof -
  let ?plan = "\<lparr>pl_process = UserProcess (\<lambda>p r. (Inr (n_entries p), r)) None, pl_combine = UserCombine (\<lambda>a b. Inr (a + b)),
       pl_empty = Bare 0, pl_tasks = [\<lparr>task_key = 0, task_partition = mk_partition ''a'' [] 0 5\<rparr>], pl_next_tasks = None,
       pl_stop = None, pl_open_once = False, pl_services = [], pl_finalize = None\<rparr> :: (int, unit) plan"
  let ?w = "\<lparr>w_monitor = (), w_resources = new_resources 128\<rparr> :: (unit, unit) world"
  have "reachable ?plan None (RUNNING, AtEntry, start_resources ?w) (CANCELLED, AtEntry, start_resources ?w)"
    using onward [OF here other [of ?plan None RUNNING AtEntry "start_resources ?w" CancelCmd]]
    by (simp add: cancel_def move_def)
  from onward [OF this entry_cancelled] runner_refines_function
  show ?thesis unfolding Let_def by fastforce
qed

section \<open>A cancelled run\<close>

lemma fst_finally: "fst (act_finally m f s) = fst (m s)"
  by (simp add: action_simps)

lemma submit_all_silent: "submit_all None ts w = (Inr (), w)"
  by (induction ts) (simp_all add: submit_all_def emit_task_def action_simps)

text \<open>A loop that is cancelled after \<open>k\<close> more tasks does what a loop over those tasks does.\<close>

definition stop_at :: "stop_reason option \<Rightarrow> 'r exec_result result \<Rightarrow> 'r exec_result result" where
  "stop_at why r = result_bind r (\<lambda>res. Inr (res\<lparr>er_stopped := why\<rparr>))"

lemma run_loop_cancelled:
  assumes "\<And>i. i < k \<Longrightarrow> cv_waits c (n + i) \<noteq> CANCELLED" "cv_waits c (n + k) = CANCELLED" "k < length ts"
  shows "run_loop plan mon (Some c) ts n v w =
    (stop_at (Some STOP_CANCELLED) (fst (run_loop plan mon None (take k ts) n v w)), snd (run_loop plan mon None (take k ts) n v w))"
  using assms
proof (induction ts arbitrary: k n v w)
  case (Cons t ts)
  show ?case
  proof (cases k)
    case 0
    with Cons.prems(2) show ?thesis by (simp add: action_simps stop_at_def exec_result_of_def)
  next
    case (Suc j)
    have "cv_waits c n \<noteq> CANCELLED" using Cons.prems(1) [of 0] Suc by simp
    moreover have "run_loop plan mon (Some c) ts (Suc n) v' w' =
       (stop_at (Some STOP_CANCELLED) (fst (run_loop plan mon None (take j ts) (Suc n) v' w')),
        snd (run_loop plan mon None (take j ts) (Suc n) v' w'))" for v' w'
      using Cons.prems Suc by (intro Cons.IH) force+
    ultimately show ?thesis
      by (auto simp: Suc action_simps stop_at_def split: prod.splits sum.splits)
  qed
qed simp

lemma ordered_tasks_take: "ordered_tasks (plan\<lparr>pl_tasks := take k (ordered_tasks plan)\<rparr>) = take k (ordered_tasks plan)"
  by (simp add: ordered_tasks_def take_map [symmetric] sorted_wrt_take)

lemma run_loop_tasks: "run_loop (plan\<lparr>pl_tasks := x\<rparr>) mon ctl ts n v = run_loop plan mon ctl ts n v"
proof (induction ts arbitrary: n v)
  case (Cons t ts)
  have "run_task (plan\<lparr>pl_tasks := x\<rparr>) mon t v = run_task plan mon t v" by (simp add: run_task_def)
  moreover have "run_loop (plan\<lparr>pl_tasks := x\<rparr>) mon ctl ts (Suc n) = run_loop plan mon ctl ts (Suc n)"
    by (rule ext, rule Cons.IH)
  ultimately show ?case by simp
qed simp

text \<open>
  C7. A run cancelled before its \<open>k\<close>-th task returns exactly what a run over the first \<open>k\<close> tasks, in
  key order, returns, marked as cancelled: no task is lost, run twice or cut in the middle.
\<close>

theorem cancelled_run_is_prefix:
  assumes "cv_entry view = RUNNING" "\<And>i. i < k \<Longrightarrow> cv_waits view i = RUNNING" "cv_waits view k = CANCELLED"
    and "k < length (pl_tasks plan)"
  shows "run_tasks plan None (Some view) w =
    (case run_tasks (plan\<lparr>pl_tasks := take k (ordered_tasks plan)\<rparr>) None None w of
       (r, w') \<Rightarrow> (stop_at (Some STOP_CANCELLED) r, w'))"
proof -
  have "run_loop plan None (Some view) (ordered_tasks plan) 0 (pl_empty plan) (start_resources w) =
      (stop_at (Some STOP_CANCELLED)
         (fst (run_loop plan None None (take k (ordered_tasks plan)) 0 (pl_empty plan) (start_resources w))),
       snd (run_loop plan None None (take k (ordered_tasks plan)) 0 (pl_empty plan) (start_resources w)))"
    using assms by (intro run_loop_cancelled) (simp_all add: ordered_tasks_def)
  then show ?thesis
    using assms(1)
    by (simp add: run_tasks_def ordered_tasks_take submit_all_silent action_simps run_loop_tasks)
qed

theorem cancelled_run_is_prefix_witness:
  "let t = (\<lambda>k. \<lparr>task_key = k, task_partition = mk_partition ''a'' [] 0 (10 * k)\<rparr>);
       plan = \<lparr>pl_process = UserProcess (\<lambda>p r. (Inr (n_entries p), r)) None, pl_combine = UserCombine (\<lambda>a b. Inr (a + b)),
         pl_empty = Bare 0, pl_tasks = [t 2, t 1], pl_next_tasks = None,
         pl_stop = None, pl_open_once = False, pl_services = [], pl_finalize = None\<rparr> :: (int, unit) plan;
       w = \<lparr>w_monitor = (), w_resources = new_resources 128\<rparr>
   in fst (run_tasks plan None (Some (waits_so_far RUNNING 1 CANCELLED)) w) =
        Inr (exec_result_of (Bare 10) 1 (Some STOP_CANCELLED))"
proof -
  let ?t = "\<lambda>k. \<lparr>task_key = k, task_partition = mk_partition ''a'' [] 0 (10 * k)\<rparr>"
  let ?plan = "\<lparr>pl_process = UserProcess (\<lambda>p r. (Inr (n_entries p), r)) None, pl_combine = UserCombine (\<lambda>a b. Inr (a + b)),
         pl_empty = Bare 0, pl_tasks = [?t 2, ?t 1], pl_next_tasks = None,
         pl_stop = None, pl_open_once = False, pl_services = [], pl_finalize = None\<rparr> :: (int, unit) plan"
  let ?w = "\<lparr>w_monitor = (), w_resources = new_resources 128\<rparr> :: (unit, unit) world"
  have o: "take 1 (ordered_tasks ?plan) = [?t 1]" by (simp add: ordered_tasks_def)
  have "fst (run_tasks (?plan\<lparr>pl_tasks := [?t 1]\<rparr>) None None ?w) = Inr (exec_result_of (Bare 10) 1 None)"
    by (simp add: run_tasks_def ordered_tasks_def submit_all_silent run_task_def emit_task_def in_resources_def
        start_resources_def new_resources_def n_entries_def action_simps)
  moreover have "run_tasks ?plan None (Some (waits_so_far RUNNING 1 CANCELLED)) ?w =
    (case run_tasks (?plan\<lparr>pl_tasks := take 1 (ordered_tasks ?plan)\<rparr>) None None ?w of
       (r, w') \<Rightarrow> (stop_at (Some STOP_CANCELLED) r, w'))"
    by (rule cancelled_run_is_prefix) (simp_all add: waits_so_far_def)
  ultimately show ?thesis
    unfolding Let_def o by (auto simp: stop_at_def exec_result_of_def split: prod.splits)
qed

section \<open>A monitor is passive\<close>

text \<open>A monitor whose hooks raise nothing but \<open>Exception\<close>s.\<close>

definition calm :: "(unit, 's) action \<Rightarrow> bool" where
  "calm m \<longleftrightarrow> (\<forall>s e s'. m s = (Inl e, s') \<longrightarrow> is_exception e)"

definition calm_monitor :: "'m monitor \<Rightarrow> bool" where
  "calm_monitor mo \<longleftrightarrow> (\<forall>ev. calm (mon_on_task mo ev))
     \<and> (\<forall>h n. mon_run_start mo = Some h \<longrightarrow> calm (h n)) \<and> (\<forall>h. mon_run_end mo = Some h \<longrightarrow> calm h)"

text \<open>Actions that return and leave the worker's resources as they are.\<close>

definition quiet :: "(unit, ('m, 'h) world) action \<Rightarrow> bool" where
  "quiet m \<longleftrightarrow> (\<forall>w. fst (m w) = Inr () \<and> w_resources (snd (m w)) = w_resources w)"

lemma quiet_suppress: "calm m \<Longrightarrow> quiet (suppress (in_monitor m))"
  by (auto simp: quiet_def calm_def suppress_def in_monitor_def action_simps split: prod.splits sum.splits)

lemma quiet_return [simp]: "quiet (act_return ())"
  by (simp add: quiet_def action_simps)

lemma quietD: "quiet m \<Longrightarrow> \<exists>w'. m w = (Inr (), w') \<and> w_resources w' = w_resources w"
  unfolding quiet_def by (metis prod.collapse)

lemma quiet_then: "quiet a \<Longrightarrow> quiet b \<Longrightarrow> quiet (act_then a b)"
proof -
  assume ab: "quiet a" "quiet b"
  have "fst (act_then a b w) = Inr () \<and> w_resources (snd (act_then a b w)) = w_resources w" for w
    using quietD [OF ab(1), of w] quietD [OF ab(2), of "snd (a w)"] by (auto simp: action_simps)
  then show "quiet (act_then a b)" by (simp add: quiet_def)
qed

lemma quiet_emit: "case mon of None \<Rightarrow> True | Some mo \<Rightarrow> calm_monitor mo \<Longrightarrow> quiet (emit_task mon ev)"
  by (auto simp: emit_task_def calm_monitor_def intro: quiet_suppress split: option.splits)

lemma quiet_submit: "case mon of None \<Rightarrow> True | Some mo \<Rightarrow> calm_monitor mo \<Longrightarrow> quiet (submit_all mon ts)"
  unfolding submit_all_def by (induction ts) (simp_all add: quiet_then quiet_emit)

text \<open>Two actions that agree on results and resources from worlds that agree on resources.\<close>

definition agree :: "('a, ('m, 'h) world) action \<Rightarrow> ('a, ('n, 'h) world) action \<Rightarrow> bool" where
  "agree a b \<longleftrightarrow> (\<forall>v w. w_resources v = w_resources w \<longrightarrow>
     fst (a v) = fst (b w) \<and> w_resources (snd (a v)) = w_resources (snd (b w)))"

lemma agree_bind:
  assumes "agree a b" "\<And>x. agree (f x) (g x)"
  shows "agree (act_bind a f) (act_bind b g)"
  unfolding agree_def
proof (intro allI impI, goal_cases)
  case (1 v w)
  with assms(1) have "fst (a v) = fst (b w)" "w_resources (snd (a v)) = w_resources (snd (b w))"
    by (auto simp: agree_def)
  with assms(2) show ?case
    by (cases "a v"; cases "b w") (auto simp: agree_def action_simps split: sum.split)
qed

lemma agree_then: "agree a b \<Longrightarrow> agree c d \<Longrightarrow> agree (act_then a c) (act_then b d)"
  unfolding act_then_def by (rule agree_bind)

lemma agree_quiet: "quiet a \<Longrightarrow> quiet b \<Longrightarrow> agree a b"
  by (simp add: agree_def quiet_def)

lemma agree_except:
  assumes "agree a b" "\<And>e. agree (f e) (g e)"
  shows "agree (act_except a f) (act_except b g)"
  unfolding agree_def
proof (intro allI impI, goal_cases)
  case (1 v w)
  with assms(1) have "fst (a v) = fst (b w)" "w_resources (snd (a v)) = w_resources (snd (b w))"
    by (auto simp: agree_def)
  with assms(2) show ?case
    by (cases "a v"; cases "b w") (auto simp: agree_def action_simps split: sum.split)
qed

lemma agree_resources: "agree (in_resources m) (in_resources m)"
  by (auto simp: agree_def in_resources_def split: prod.split)

lemma agree_lift: "agree (act_lift r) (act_lift r)" "agree (act_return x) (act_return x)" "agree (act_raise e) (act_raise e)"
  by (simp_all add: agree_def action_simps)

lemma agree_run_task:
  assumes "case mon of None \<Rightarrow> True | Some mo \<Rightarrow> calm_monitor mo"
  shows "agree (run_task plan mon t v) (run_task plan None t v)"
  unfolding run_task_def Let_def
  by (intro agree_then agree_bind agree_except agree_resources agree_lift agree_quiet)
     (use assms in \<open>auto simp: quiet_emit\<close>)

lemma agree_run_loop:
  assumes "case mon of None \<Rightarrow> True | Some mo \<Rightarrow> calm_monitor mo"
  shows "agree (run_loop plan mon ctl ts n v) (run_loop plan None ctl ts n v)"
proof (induction ts arbitrary: n v)
  case (Cons t ts)
  then show ?case by (auto intro: agree_lift agree_bind agree_run_task [OF assms])
qed (simp add: agree_lift)

lemma run_tasks_eq: "run_tasks plan mon ctl = (\<lambda>w. act_finally
       (if (case ctl of None \<Rightarrow> False | Some c \<Rightarrow> cv_entry c = CANCELLED)
        then act_return (exec_result_of (pl_empty plan) 0 (Some STOP_CANCELLED))
        else act_then (submit_all mon (ordered_tasks plan)) (run_loop plan mon ctl (ordered_tasks plan) 0 (pl_empty plan)))
       end_resources (start_resources w))"
  by (rule ext) (rule run_tasks_def)

lemma agree_finally:
  assumes "agree a b"
  shows "agree (\<lambda>w. act_finally a end_resources (start_resources w)) (\<lambda>w. act_finally b end_resources (start_resources w))"
  unfolding agree_def
proof (intro allI impI, goal_cases)
  case (1 v w)
  then have "w_resources (start_resources v) = w_resources (start_resources w)" by (simp add: start_resources_def)
  with assms have "fst (a (start_resources v)) = fst (b (start_resources w))"
      "w_resources (snd (a (start_resources v))) = w_resources (snd (b (start_resources w)))"
    unfolding agree_def by blast+
  then show ?case by (simp add: action_simps end_resources_def)
qed

lemma agree_run_tasks:
  assumes "case mon of None \<Rightarrow> True | Some mo \<Rightarrow> calm_monitor mo"
  shows "agree (run_tasks plan mon ctl) (run_tasks plan None ctl)"
  unfolding run_tasks_eq
proof (rule agree_finally, cases "case ctl of None \<Rightarrow> False | Some c \<Rightarrow> cv_entry c = CANCELLED", goal_cases)
  case 2
  show ?case
    unfolding if_not_P [OF 2] by (intro agree_then agree_run_loop agree_quiet quiet_submit assms) simp
qed (simp add: agree_lift)

lemma agree_observed:
  assumes "calm_monitor mo" "agree a b"
  shows "agree (observed_run (Some mo) n a) (observed_run None n b)"
proof -
  have hooks: "quiet (call_hook (map_option (\<lambda>h. h n) (mon_run_start mo)))" "quiet (call_hook (mon_run_end mo))"
    using assms(1) by (auto simp: call_hook_def calm_monitor_def intro: quiet_suppress split: option.split)
  have "agree (\<lambda>w. case a w of (r, w') \<Rightarrow> act_then (call_hook (mon_run_end mo)) (act_lift r) w')
      (\<lambda>w. case b w of (r, w') \<Rightarrow> act_then (call_hook None) (act_lift r) w')"
    unfolding agree_def
  proof (intro allI impI, goal_cases)
    case (1 v w)
    obtain w' where "call_hook (mon_run_end mo) (snd (a v)) = (Inr (), w')" "w_resources w' = w_resources (snd (a v))"
      using quietD [OF hooks(2)] by blast
    moreover from assms(2) 1 have "fst (a v) = fst (b w)" "w_resources (snd (a v)) = w_resources (snd (b w))"
      unfolding agree_def by blast+
    moreover have "call_hook None w'' = (Inr (), w'')" for w'' :: "('d, 'b) world"
      by (simp add: call_hook_def action_simps)
    ultimately show ?case
      by (cases "a v"; cases "b w") (simp add: action_simps)
  qed
  moreover have "quiet (call_hook None)" by (simp add: call_hook_def)
  ultimately show ?thesis
    using hooks(1) unfolding observed_run_def by (intro agree_then agree_quiet) simp_all
qed

text \<open>
  C8. A monitor is passive: attached or not, lean or not, and whatever its hooks do short of raising
  an interrupt, the run returns the same result or exception and reads and closes the same files.
\<close>

theorem monitor_is_passive:
  assumes "calm_monitor mo" "w_resources v = w_resources w"
  shows "map_option (\<lambda>(r, x). (r, w_resources x)) (run_plan plan k (Some mo) ctl v)
       = map_option (\<lambda>(r, x). (r, w_resources x)) (run_plan plan k None ctl w)"
proof -
  have "agree (observed_run (Some mo) n (run_tasks p (Some mo) ctl)) (observed_run None n (run_tasks p None ctl))" for n p
    by (rule agree_observed [OF assms(1) agree_run_tasks]) (simp add: assms(1))
  then have "fst (observed_run (Some mo) n (run_tasks p (Some mo) ctl) v) = fst (observed_run None n (run_tasks p None ctl) w)
      \<and> w_resources (snd (observed_run (Some mo) n (run_tasks p (Some mo) ctl) v)) = w_resources (snd (observed_run None n (run_tasks p None ctl) w))" for n p
    using assms(2) unfolding agree_def by blast
  then show ?thesis
    using assms(2) by (auto simp: run_plan_def prod_eq_iff split: option.split sum.split prod.split)
qed

theorem monitor_is_passive_witness:
  "let mo = \<lparr>mon_lean = False, mon_on_task = (\<lambda>ev m. (Inl (ValueError ''broken monitor''), ev_key ev # m)),
         mon_run_start = None, mon_run_end = None\<rparr> :: int list monitor;
       plan = \<lparr>pl_process = UserProcess (\<lambda>p r. (Inr (n_entries p), r)) None, pl_combine = UserCombine (\<lambda>a b. Inr (a + b)),
         pl_empty = Bare 0, pl_tasks = [\<lparr>task_key = 0, task_partition = mk_partition ''a'' [] 0 5\<rparr>], pl_next_tasks = None,
         pl_stop = None, pl_open_once = False, pl_services = [], pl_finalize = None\<rparr> :: (int, unit) plan;
       v = \<lparr>w_monitor = [], w_resources = new_resources 1\<rparr>; w = \<lparr>w_monitor = (), w_resources = new_resources 1\<rparr>
   in map_option (\<lambda>(r, x). (r, w_resources x)) (run_plan plan 0 (Some mo) None v)
       = map_option (\<lambda>(r, x). (r, w_resources x)) (run_plan plan 0 None None w)"
  unfolding Let_def by (rule monitor_is_passive) (auto simp: calm_monitor_def calm_def)

section \<open>Runs that go on past failed chunks\<close>

text \<open>
  The values and the failures of the tasks, in task order, for a process whose result for a
  partition is \<open>g\<close>.
\<close>

definition good_values :: "(partition \<Rightarrow> 'r result) \<Rightarrow> task list \<Rightarrow> 'r list" where
  "good_values g ts = concat (map (\<lambda>t. case g (task_partition t) of Inr x \<Rightarrow> [x] | Inl _ \<Rightarrow> []) ts)"

definition failures :: "(partition \<Rightarrow> 'r result) \<Rightarrow> task list \<Rightarrow> failed_chunk list" where
  "failures g ts = concat (map (\<lambda>t. let p = task_partition t in
     case g p of Inr _ \<Rightarrow> [] | Inl e \<Rightarrow> [mk_failed_chunk (task_label p) p e]) ts)"

text \<open>A process that is a function of its partition, and raises exceptions only.\<close>

definition computes :: "('r, 'h) process \<Rightarrow> (partition \<Rightarrow> 'r result) \<Rightarrow> bool" where
  "computes proc g \<longleftrightarrow> (\<exists>f b. proc = UserProcess f b \<and> (\<forall>p r. fst (f p r) = g p))
     \<and> (\<forall>p e. g p = Inl e \<longrightarrow> is_exception e)"

lemma skip_process_result:
  assumes "computes proc g"
  shows "fst (run_process (SkipProcess proc (Bare z) []) p r) =
    Inr (case g p of Inr x \<Rightarrow> Partial (Bare x) [] | Inl e \<Rightarrow> Partial (Bare z) [mk_failed_chunk (task_label p) p e])"
proof -
  from assms obtain f b where f: "proc = UserProcess f b" "fst (f p r) = g p" "\<And>e. g p = Inl e \<Longrightarrow> is_exception e"
    unfolding computes_def by blast
  then show ?thesis
    by (cases "f p r"; cases "g p") (auto simp: action_simps)
qed

lemma fst_in_resources: "fst (in_resources m w) = fst (m (w_resources w))"
  by (simp add: in_resources_def split: prod.split)

lemma silent_run_task:
  "run_task plan None t v w =
    (case in_resources (run_process (pl_process plan) (task_partition t)) w of
       (Inl e, w') \<Rightarrow> (Inl e, w')
     | (Inr part, w') \<Rightarrow> (run_combine (pl_combine plan) v part, w'))"
  by (auto simp: run_task_def emit_task_def action_simps Let_def split: prod.split sum.split)

lemma skip_loop:
  assumes proc: "computes proc g"
    and plan: "pl_process plan = SkipProcess proc (Bare z) []" "pl_combine plan = SkipCombine (UserCombine (\<lambda>a b. Inr (c a b))) k"
    and unit: "\<And>v. c v z = v" and fl: "int (length fl) \<le> k"
  shows "fst (run_loop plan None None ts n (Partial (Bare v) fl) w) =
    (if int (length (fl @ failures g ts)) \<le> k
     then Inr (exec_result_of (Partial (Bare (foldl c v (good_values g ts))) (fl @ failures g ts)) (n + length ts) None)
     else Inl (TooManyFailedChunksError (by_label (take (Suc (nat k)) (fl @ failures g ts)))))"
  using fl
proof (induction ts arbitrary: n v fl w)
  case (Cons t ts)
  have "fst (in_resources (run_process (pl_process plan) (task_partition t)) w) =
      Inr (case g (task_partition t) of Inr x \<Rightarrow> Partial (Bare x) []
        | Inl e \<Rightarrow> Partial (Bare z) [mk_failed_chunk (task_label (task_partition t)) (task_partition t) e])"
    unfolding fst_in_resources plan(1) by (rule skip_process_result [OF proc])
  then obtain w' where w': "in_resources (run_process (pl_process plan) (task_partition t)) w =
      (Inr (case g (task_partition t) of Inr x \<Rightarrow> Partial (Bare x) []
        | Inl e \<Rightarrow> Partial (Bare z) [mk_failed_chunk (task_label (task_partition t)) (task_partition t) e]), w')"
    by (metis prod.collapse)
  show ?case
  proof (cases "g (task_partition t)")
    case (Inr x)
    then have "run_task plan None t (Partial (Bare v) fl) w = (Inr (Partial (Bare (c v x)) fl), w')"
      using Cons.prems by (simp add: silent_run_task w' plan(2) Let_def)
    with Inr Cons.IH [OF Cons.prems, of "Suc n" "c v x" w'] show ?thesis
      by (simp add: action_simps failures_def good_values_def)
  next
    case (Inl e)
    let ?f = "mk_failed_chunk (task_label (task_partition t)) (task_partition t) e"
    have f: "failures g (t # ts) = ?f # failures g ts" by (simp add: failures_def Inl Let_def)
    show ?thesis
    proof (cases "int (length (fl @ [?f])) \<le> k")
      case True
      with Inl have "run_task plan None t (Partial (Bare v) fl) w = (Inr (Partial (Bare v) (fl @ [?f])), w')"
        by (simp add: silent_run_task w' plan(2) Let_def unit)
      with Inl f Cons.IH [OF True, of "Suc n" v w'] show ?thesis
        by (simp add: action_simps good_values_def)
    next
      case False
      with Inl have "run_task plan None t (Partial (Bare v) fl) w = (Inl (TooManyFailedChunksError (by_label (fl @ [?f]))), w')"
        by (simp add: silent_run_task w' plan(2) Let_def)
      moreover have "take (Suc (nat k)) (fl @ failures g (t # ts)) = fl @ [?f]"
      proof -
        have "nat k = length fl" using False Cons.prems by simp
        then show ?thesis by (simp add: f)
      qed
      ultimately show ?thesis using False f by (simp add: action_simps)
    qed
  qed
qed (simp add: failures_def good_values_def action_simps)

definition finalized :: "('r, 'h) plan \<Rightarrow> 'r \<Rightarrow> 'r result" where
  "finalized plan v = (case pl_finalize plan of None \<Rightarrow> Inr v | Some fn \<Rightarrow> fn v)"

text \<open>
  C1. A run with a budget of \<open>k\<close> failed chunks: if at most \<open>k\<close> tasks fail, the value is the fold, in
  key order, of exactly the tasks that succeeded, and \<open>failed\<close> lists exactly those that did not,
  with their dead letters, sorted by label; otherwise the run raises with the first \<open>k + 1\<close>
  failures.
\<close>

theorem skip_failed_run:
  assumes "computes (pl_process plan) g" "pl_combine plan = UserCombine (\<lambda>a b. Inr (c a b))"
    and "pl_empty plan = Bare z" "\<And>v. c v z = v" "pl_services plan = []" "0 < k"
  shows "map_option (fst \<circ> fst) (run_plan plan k None None w) =
    Some (let ts = ordered_tasks plan; failed = failures g ts in
      if int (length failed) \<le> k
      then result_bind (finalized plan (foldl c z (good_values g ts)))
             (\<lambda>v. Inr \<lparr>er_value = Bare v, er_n_partitions = int (length ts),
                       er_n_combines = max 0 (int (length ts) - 1), er_stopped = None, er_failed = by_label failed\<rparr>)
      else Inl (TooManyFailedChunksError (by_label (take (Suc (nat k)) failed))))"
proof -
  have not_skip: "\<not> is_skipping (pl_process plan)"
    using assms(1) by (auto simp: computes_def is_skipping_def)
  obtain stop where skip: "skipping plan k = Inr (plan\<lparr>
       pl_process := SkipProcess (pl_process plan) (Bare z) [],
       pl_combine := SkipCombine (UserCombine (\<lambda>a b. Inr (c a b))) k,
       pl_empty := Partial (Bare z) [], pl_stop := Some stop\<rparr>)" (is "_ = Inr ?plan")
    using not_skip assms by (simp add: skipping_def)
  have tasks: "ordered_tasks ?plan = ordered_tasks plan" by (simp add: ordered_tasks_def)
  have "fst (run_tasks ?plan None None w) =
     (if int (length (failures g (ordered_tasks plan))) \<le> k
      then Inr (exec_result_of (Partial (Bare (foldl c z (good_values g (ordered_tasks plan)))) (failures g (ordered_tasks plan)))
             (length (ordered_tasks plan)) None)
      else Inl (TooManyFailedChunksError (by_label (take (Suc (nat k)) (failures g (ordered_tasks plan))))))"
    using skip_loop [where plan = ?plan and fl = "[]" and k = k and c = c and z = z and w = "start_resources w" and n = 0
        and ts = "ordered_tasks plan" and v = z, OF assms(1) _ _ assms(4)] assms(6)
    by (simp add: run_tasks_def submit_all_silent action_simps tasks)
  then obtain w' where run: "run_tasks ?plan None None w =
     (if int (length (failures g (ordered_tasks plan))) \<le> k
      then Inr (exec_result_of (Partial (Bare (foldl c z (good_values g (ordered_tasks plan)))) (failures g (ordered_tasks plan)))
             (length (ordered_tasks plan)) None)
      else Inl (TooManyFailedChunksError (by_label (take (Suc (nat k)) (failures g (ordered_tasks plan))))), w')"
    by (cases "run_tasks ?plan None None w") simp
  have observed: "observed_run None n m w = m w" for n and m :: "('x, ('c, 'b) world) action"
    by (simp add: observed_run_def call_hook_def action_simps split: prod.split)
  show ?thesis
  proof (cases "int (length (failures g (ordered_tasks plan))) \<le> k")
    case True
    with run show ?thesis
      using assms(5)
      by (simp add: run_plan_def require_bound_def skip observed Let_def finalize_result_def finalized_def
          exec_result_of_def split: option.split)
  next
    case False
    with run show ?thesis
      using assms(5) by (simp add: run_plan_def require_bound_def skip observed Let_def)
  qed
qed

theorem skip_failed_run_witness:
  "let g = (\<lambda>p. if entry_start p = 5 then Inl (ValueError ''bad basket'') else Inr (n_entries p));
       plan = \<lparr>pl_process = UserProcess (\<lambda>p r. (g p, r)) None, pl_combine = UserCombine (\<lambda>a b. Inr (a + b)),
         pl_empty = Bare 0, pl_tasks = [\<lparr>task_key = 1, task_partition = mk_partition ''a'' [] 5 9\<rparr>,
           \<lparr>task_key = 0, task_partition = mk_partition ''a'' [] 0 5\<rparr>], pl_next_tasks = None,
         pl_stop = None, pl_open_once = False, pl_services = [], pl_finalize = None\<rparr> :: (int, unit) plan;
       w = \<lparr>w_monitor = (), w_resources = new_resources 1\<rparr>
   in \<exists>res. map_option (fst \<circ> fst) (run_plan plan 1 None None w) = Some (Inr res) \<and> er_value res = Bare 5
        \<and> map fc_partition (er_failed res) = [''a (entries 5-9)'']"
proof -
  let ?g = "\<lambda>p. if entry_start p = 5 then Inl (ValueError ''bad basket'') else Inr (n_entries p)"
  let ?plan = "\<lparr>pl_process = UserProcess (\<lambda>p r. (?g p, r)) None, pl_combine = UserCombine (\<lambda>a b. Inr (a + b)),
         pl_empty = Bare 0, pl_tasks = [\<lparr>task_key = 1, task_partition = mk_partition ''a'' [] 5 9\<rparr>,
           \<lparr>task_key = 0, task_partition = mk_partition ''a'' [] 0 5\<rparr>], pl_next_tasks = None,
         pl_stop = None, pl_open_once = False, pl_services = [], pl_finalize = None\<rparr> :: (int, unit) plan"
  let ?w = "\<lparr>w_monitor = (), w_resources = new_resources 1\<rparr> :: (unit, unit) world"
  have o: "ordered_tasks ?plan = [\<lparr>task_key = 0, task_partition = mk_partition ''a'' [] 0 5\<rparr>,
      \<lparr>task_key = 1, task_partition = mk_partition ''a'' [] 5 9\<rparr>]"
    by (simp add: ordered_tasks_def)
  have l: "task_label (mk_partition ''a'' [] 5 9) = ''a (entries 5-9)''" by code_simp
  let ?f = "mk_failed_chunk ''a (entries 5-9)'' (mk_partition ''a'' [] 5 9) (ValueError ''bad basket'')"
  let ?res = "\<lparr>er_value = Bare 5, er_n_partitions = 2, er_n_combines = 1, er_stopped = None, er_failed = [?f]\<rparr>"
  have "computes (pl_process ?plan) ?g" by (simp add: computes_def)
  note run = skip_failed_run [OF this, of "(+)" 0 1 ?w]
  have "map_option (fst \<circ> fst) (run_plan ?plan 1 None None ?w) = Some (Inr ?res)"
    by (rule trans [OF run])
      (simp_all add: Let_def o failures_def good_values_def finalized_def n_entries_def by_label_def l)
  then have "\<exists>res. map_option (fst \<circ> fst) (run_plan ?plan 1 None None ?w) = Some (Inr res) \<and> er_value res = Bare 5
        \<and> map fc_partition (er_failed res) = [''a (entries 5-9)'']"
    by (rule exI [of _ ?res, OF conjI]) (simp add: mk_failed_chunk_def)
  then show ?thesis unfolding Let_def .
qed

section \<open>Progress\<close>

text \<open>The steps a runner still has to make: two for each task, one of them to fall asleep.\<close>

definition work_left :: "('r, 'h) plan \<Rightarrow> ('r, 'm, 'h) config \<Rightarrow> nat" where
  "work_left plan c =
     (case fst (snd c) of
        AtEntry \<Rightarrow> 2 * length (pl_tasks plan) + 4
      | AtTask ts _ _ asleep \<Rightarrow> 2 * length ts + (if asleep then 2 else 3)
      | Ended _ \<Rightarrow> 0)"

lemma length_ordered_tasks [simp]: "length (ordered_tasks plan) = length (pl_tasks plan)"
  by (simp add: ordered_tasks_def)

text \<open>A waiter sleeps only while the switch is paused, since every command notifies it.\<close>

definition no_lost_wakeup :: "('r, 'm, 'h) config \<Rightarrow> bool" where
  "no_lost_wakeup c \<longleftrightarrow> (case fst (snd c) of AtTask _ _ _ asleep \<Rightarrow> asleep \<longrightarrow> fst c = PAUSED | _ \<Rightarrow> True)"

lemma no_lost_wakeup_step: "step plan mon c d \<Longrightarrow> no_lost_wakeup c \<Longrightarrow> no_lost_wakeup d"
proof (induction rule: step.cases)
  case (other st ph w c)
  then show ?case by (cases ph) (simp_all add: no_lost_wakeup_def)
qed (simp_all add: no_lost_wakeup_def may_wake_def)

lemma no_lost_wakeup_reachable: "reachable plan mon c d \<Longrightarrow> no_lost_wakeup c \<Longrightarrow> no_lost_wakeup d"
  by (induction rule: reachable.induct) (auto intro: no_lost_wakeup_step)

lemma reachable_trans: "reachable plan mon d e \<Longrightarrow> reachable plan mon c d \<Longrightarrow> reachable plan mon c e"
  by (induction rule: reachable.induct) (auto intro: reachable.intros)

lemma entry_gets_on: "\<exists>d. step plan mon (st, AtEntry, w) d \<and> work_left plan d < work_left plan (st, AtEntry, w)"
proof (cases "st = CANCELLED")
  case True
  then show ?thesis using entry_cancelled [of plan mon w] by (force simp: work_left_def)
next
  case False
  obtain r w' where "submit_all mon (ordered_tasks plan) w = (r, w')" by (cases "submit_all mon (ordered_tasks plan) w")
  then show ?thesis
    using entry [OF False, of mon plan w w'] entry_raises [OF False, of mon plan w _ w']
    by (cases r) (force simp: work_left_def)+
qed

lemma task_gets_on:
  assumes "st \<noteq> PAUSED"
  shows "\<exists>d. step plan mon (st, AtTask (t # us) v n False, w) d \<and> work_left plan d < work_left plan (st, AtTask (t # us) v n False, w)"
proof (cases "st = CANCELLED")
  case True
  then show ?thesis using task_cancelled [of plan mon t us v n w] by (force simp: work_left_def may_wake_def)
next
  case False
  with assms have "may_wake st" by (simp add: may_wake_def)
  moreover obtain r w' where "run_task plan mon t v w = (r, w')" by (cases "run_task plan mon t v w")
  ultimately show ?thesis
    using False task_runs [of st plan mon t v w _ w' us n] task_raises [of st plan mon t v w _ w' us n]
    by (cases r) (force simp: work_left_def)+
qed

lemma runner_gets_on:
  assumes "no_lost_wakeup (st, ph, w)" "\<nexists>r. ph = Ended r" "st \<noteq> PAUSED"
  shows "\<exists>d. step plan mon (st, ph, w) d \<and> work_left plan d < work_left plan (st, ph, w)"
proof (cases ph)
  case AtEntry
  show ?thesis unfolding AtEntry by (rule entry_gets_on)
next
  case (AtTask ts v n b)
  with assms have b: "b = False" by (simp add: no_lost_wakeup_def)
  show ?thesis
  proof (cases ts)
    case Nil
    then show ?thesis using exhausted [of plan mon st v n b w] by (force simp: AtTask work_left_def)
  next
    case (Cons t us)
    show ?thesis unfolding AtTask Cons b by (rule task_gets_on [OF assms(3)])
  qed
next
  case (Ended r)
  with assms(2) show ?thesis by simp
qed

lemma runner_keeps_switch:
  "step plan mon c d \<Longrightarrow> work_left plan d < work_left plan c \<Longrightarrow> fst d = fst c \<or> (\<exists>r. fst (snd d) = Ended r)"
proof (induction rule: step.cases)
  case (other st ph w c)
  then show ?case by (cases ph) (simp_all add: work_left_def split: if_splits)
qed simp_all

text \<open>Left alone, a run that is not paused ends; a paused one ends after a resume.\<close>

lemma unpaused_run_ends:
  "no_lost_wakeup c \<Longrightarrow> fst c \<noteq> PAUSED \<Longrightarrow> \<exists>st r w. reachable plan mon c (st, Ended r, w)"
proof (induction "work_left plan c" arbitrary: c rule: less_induct)
  case less
  obtain st ph w where c: "c = (st, ph, w)" by (cases c)
  show ?case
  proof (cases "\<exists>r. ph = Ended r")
    case True
    then show ?thesis by (auto simp: c intro: here)
  next
    case False
    with less.prems c obtain d where d: "step plan mon c d" "work_left plan d < work_left plan c"
      using runner_gets_on [of st ph w plan mon] by auto
    have "\<exists>st r w. reachable plan mon d (st, Ended r, w)"
    proof (cases "\<exists>r. fst (snd d) = Ended r")
      case True
      then show ?thesis by (metis here prod.collapse)
    next
      case False
      with runner_keeps_switch [OF d] less.prems(2) have "fst d \<noteq> PAUSED" by auto
      with less.hyps [OF d(2)] no_lost_wakeup_step [OF d(1) less.prems(1)] show ?thesis by blast
    qed
    with reachable_trans [OF _ onward [OF here d(1)]] show ?thesis by blast
  qed
qed

lemma run_can_end: "no_lost_wakeup c \<Longrightarrow> \<exists>st r w. reachable plan mon c (st, Ended r, w)"
proof (cases "fst c = PAUSED")
  case True
  assume n: "no_lost_wakeup c"
  obtain ph w where c: "c = (PAUSED, ph, w)" using True by (cases c) auto
  from other [of plan mon PAUSED ph w ResumeCmd] have s: "step plan mon c (RUNNING, notify_all ph, w)"
    by (simp add: c resume_def move_def)
  from unpaused_run_ends [OF no_lost_wakeup_step [OF s n]] reachable_trans [OF _ onward [OF here s]]
  show ?thesis by (metis fst_conv run_state.distinct(1))
qed (rule unpaused_run_ends)

text \<open>
  C9. A run is never stuck. Whatever the other threads did so far, a command changes nothing but the switch, and it
  wakes the runner if that is asleep; every other step leaves less to do; in every state of the switch but
  \<open>PAUSED\<close> the runner can go on, also from its sleep, so a resume or a cancel is never missed; and every run
  can still be brought to its end.
\<close>

theorem runner_progress:
  assumes "reachable plan mon (st0, AtEntry, w0) c"
  shows "(step plan mon c d \<longrightarrow> work_left plan d < work_left plan c
      \<or> (\<exists>cmd. d = (do_command cmd (fst c), notify_all (fst (snd c)), snd (snd c))))
   \<and> ((\<nexists>r. fst (snd c) = Ended r) \<and> fst c \<noteq> PAUSED \<longrightarrow>
        (\<exists>d. step plan mon c d \<and> work_left plan d < work_left plan c))
   \<and> (\<exists>st r w. reachable plan mon c (st, Ended r, w))"
proof (intro conjI impI)
  assume "step plan mon c d"
  then show "work_left plan d < work_left plan c \<or> (\<exists>cmd. d = (do_command cmd (fst c), notify_all (fst (snd c)), snd (snd c)))"
    by (cases rule: step.cases) (auto simp: work_left_def)
next
  have n: "no_lost_wakeup c" by (rule no_lost_wakeup_reachable [OF assms]) (simp add: no_lost_wakeup_def)
  then show "\<exists>st r w. reachable plan mon c (st, Ended r, w)" by (rule run_can_end)
  assume "(\<nexists>r. fst (snd c) = Ended r) \<and> fst c \<noteq> PAUSED"
  with n runner_gets_on show "\<exists>d. step plan mon c d \<and> work_left plan d < work_left plan c" by (cases c) force
qed

text \<open>A run paused before its only task, which sleeps until a cancel wakes it.\<close>

definition paused_plan :: "(int, unit) plan" where
  "paused_plan = \<lparr>pl_process = UserProcess (\<lambda>p r. (Inr (n_entries p), r)) None, pl_combine = UserCombine (\<lambda>a b. Inr (a + b)),
     pl_empty = Bare 0, pl_tasks = [\<lparr>task_key = 0, task_partition = mk_partition ''a'' [] 0 5\<rparr>], pl_next_tasks = None,
     pl_stop = None, pl_open_once = False, pl_services = [], pl_finalize = None\<rparr>"

theorem runner_progress_witness:
  "let c = (CANCELLED, AtTask (pl_tasks paused_plan) (Bare 0) 0 False, start_resources \<lparr>w_monitor = (), w_resources = new_resources 1\<rparr>)
       :: (int, unit, unit) config
   in reachable paused_plan None (RUNNING, AtEntry, snd (snd c)) c \<and> (\<exists>d. step paused_plan None c d \<and> work_left paused_plan d < work_left paused_plan c)"
proof -
  let ?w = "start_resources \<lparr>w_monitor = (), w_resources = new_resources 1\<rparr> :: (unit, unit) world" and ?ts = "pl_tasks paused_plan"
  have o: "ordered_tasks paused_plan = ?ts" "pl_empty paused_plan = Bare 0" "?ts = [\<lparr>task_key = 0, task_partition = mk_partition ''a'' [] 0 5\<rparr>]"
    by (simp_all add: ordered_tasks_def paused_plan_def)
  have "step paused_plan None (RUNNING, AtEntry, ?w) (RUNNING, AtTask ?ts (Bare 0) 0 False, ?w)"
    using entry [of RUNNING None paused_plan ?w ?w] by (simp add: submit_all_silent o)
  moreover have "step paused_plan None (RUNNING, AtTask ?ts (Bare 0) 0 False, ?w) (PAUSED, AtTask ?ts (Bare 0) 0 False, ?w)"
    using other [of paused_plan None RUNNING "AtTask ?ts (Bare 0) 0 False" ?w PauseCmd] by (simp add: pause_def move_def)
  moreover have "step paused_plan None (PAUSED, AtTask ?ts (Bare 0) 0 False, ?w) (PAUSED, AtTask ?ts (Bare 0) 0 True, ?w)"
    unfolding o(3) by (rule sleeps) (simp add: may_wake_def)
  moreover have "step paused_plan None (PAUSED, AtTask ?ts (Bare 0) 0 True, ?w) (CANCELLED, AtTask ?ts (Bare 0) 0 False, ?w)"
    using other [of paused_plan None PAUSED "AtTask ?ts (Bare 0) 0 True" ?w CancelCmd] by (simp add: cancel_def move_def)
  ultimately have r: "reachable paused_plan None (RUNNING, AtEntry, ?w) (CANCELLED, AtTask ?ts (Bare 0) 0 False, ?w)"
    by (meson here onward)
  from runner_progress [OF r] r show ?thesis unfolding Let_def by (metis fst_conv snd_conv runner_phase.distinct(5) run_state.distinct(5))
qed

end
