(* ===== verification/Encoding.thy ===== *)
theory Encoding
  imports Json
begin

text \<open>
  Encodings of the Python standard library as far as the durable formats use them: \<open>str.encode\<close>
  (UTF-8 of 8-bit code points), \<open>base64.b64encode\<close> with \<open>b64decode\<close>, and the length-prefixed
  framing of \<open>core/plan.py\<close>. An encoder and its decoder share the locale \<open>codec\<close>.

  \<open>b64decode\<close> drops characters outside the alphabet, as Python does; padding that does not close a
  group of four is refused (Python tolerates some of it).
\<close>

section \<open>The contract of an encoding\<close>

text \<open>\<open>canon\<close> is what decoding makes of a value: the value itself, or its dictionaries key-sorted.\<close>

locale codec =
  fixes ok :: "'a \<Rightarrow> bool" and enc :: "'a \<Rightarrow> 'b" and dec :: "'b \<Rightarrow> 'c result" and canon :: "'a \<Rightarrow> 'c"
  assumes round_trip: "ok x \<Longrightarrow> dec (enc x) = Inr (canon x)"
begin

lemma enc_inject: "ok x \<Longrightarrow> ok y \<Longrightarrow> enc x = enc y \<Longrightarrow> canon x = canon y"
  by (metis round_trip sum.inject(2))

lemma list_round_trip: "list_all ok xs \<Longrightarrow> traverse dec (map enc xs) = Inr (map canon xs)"
  by (induction xs) (simp_all add: round_trip)

end

section \<open>UTF-8\<close>

definition utf8_char :: "char \<Rightarrow> string" where
  "utf8_char c = (if (of_char c :: nat) < 128 then [c]
     else [char_of (192 + (of_char c :: nat) div 64), char_of (128 + (of_char c :: nat) mod 64)])"

definition utf8 :: "string \<Rightarrow> string" where
  "utf8 s = concat (map utf8_char s)"

fun utf8_decode :: "string \<Rightarrow> string result" where
  "utf8_decode [] = Inr []"
| "utf8_decode (c # cs) =
     (if (of_char c :: nat) < 128 then result_bind (utf8_decode cs) (\<lambda>s. Inr (c # s))
      else (case cs of
        d # ds \<Rightarrow>
          if (of_char c :: nat) \<in> {194, 195} \<and> 128 \<le> (of_char d :: nat) \<and> (of_char d :: nat) < 192
          then result_bind (utf8_decode ds) (\<lambda>s. Inr (char_of (((of_char c :: nat) - 192) * 64 + (of_char d - 128)) # s))
          else Inl (UserError ''UnicodeDecodeError'' [] None [])
      | [] \<Rightarrow> Inl (UserError ''UnicodeDecodeError'' [] None [])))"

lemma char_code_less: "(of_char c :: nat) < 256"
  by (rule nat_of_char_less_256)

lemma utf8_decode_char: "utf8_decode (utf8_char c @ s) = result_bind (utf8_decode s) (\<lambda>t. Inr (c # t))"
proof (cases "(of_char c :: nat) < 128")
  case True
  then show ?thesis by (simp add: utf8_char_def)
next
  case False
  let ?n = "of_char c :: nat"
  have n: "?n < 256" by (rule char_code_less)
  then have "?n div 64 < 4" by (simp add: less_mult_imp_div_less)
  moreover have "128 div 64 \<le> ?n div 64" using False by (intro div_le_mono) simp
  ultimately have q: "?n div 64 = 2 \<or> ?n div 64 = 3" by linarith
  have "of_char (char_of (192 + ?n div 64) :: char) = 192 + ?n div 64"
    using q by (auto simp: of_char_of)
  moreover have "?n mod 64 < 64" by simp
  then have "of_char (char_of (128 + ?n mod 64) :: char) = 128 + ?n mod 64" by (simp add: of_char_of)
  moreover have "?n div 64 * 64 + ?n mod 64 = ?n" by simp
  ultimately show ?thesis
    using False q \<open>?n mod 64 < 64\<close> by (auto simp: utf8_char_def)
qed

interpretation utf8: codec "\<lambda>_. True" utf8 utf8_decode "\<lambda>s. s"
proof
  fix s :: string
  show "utf8_decode (utf8 s) = Inr s"
    by (induction s) (simp_all add: utf8_def utf8_decode_char)
qed

lemma utf8_inject [simp]: "utf8 s = utf8 t \<longleftrightarrow> s = t"
  using utf8.enc_inject by auto

section \<open>Base64\<close>

definition b64_char :: "nat \<Rightarrow> char" where
  "b64_char n = (if n < 26 then char_of (65 + n) else if n < 52 then char_of (71 + n)
     else if n < 62 then char_of (n - 4) else if n = 62 then CHR ''+'' else CHR ''/'')"

definition b64_val :: "char \<Rightarrow> nat option" where
  "b64_val c = (let n = (of_char c :: nat) in
     if 65 \<le> n \<and> n \<le> 90 then Some (n - 65) else if 97 \<le> n \<and> n \<le> 122 then Some (n - 71)
     else if 48 \<le> n \<and> n \<le> 57 then Some (n + 4) else if n = 43 then Some 62 else if n = 47 then Some 63 else None)"

fun b64encode :: "string \<Rightarrow> string" where
  "b64encode [] = []"
| "b64encode [a] =
     [b64_char (of_char a div 4), b64_char (of_char a mod 4 * 16), CHR ''='', CHR ''='']"
| "b64encode [a, b] =
     [b64_char (of_char a div 4), b64_char (of_char a mod 4 * 16 + of_char b div 16), b64_char (of_char b mod 16 * 4), CHR ''='']"
| "b64encode (a # b # c # r) =
     b64_char (of_char a div 4) # b64_char (of_char a mod 4 * 16 + of_char b div 16)
       # b64_char (of_char b mod 16 * 4 + of_char c div 64) # b64_char (of_char c mod 64) # b64encode r"

definition b64_error :: "string result" where
  "b64_error = Inl (UserError ''Error'' ''Incorrect padding'' None [])"

fun b64_quads :: "string \<Rightarrow> string result" where
  "b64_quads [] = Inr []"
| "b64_quads [w, x, y, z] =
     (case (b64_val w, b64_val x) of
        (Some m, Some n) \<Rightarrow>
          (case b64_val y of
             None \<Rightarrow> if z = CHR ''='' then Inr [char_of (m * 4 + n div 16)] else b64_error
           | Some p \<Rightarrow>
               (case b64_val z of
                  None \<Rightarrow> Inr [char_of (m * 4 + n div 16), char_of (n mod 16 * 16 + p div 4)]
                | Some q \<Rightarrow> Inr [char_of (m * 4 + n div 16), char_of (n mod 16 * 16 + p div 4), char_of (p mod 4 * 64 + q)]))
      | _ \<Rightarrow> b64_error)"
| "b64_quads (w # x # y # z # r) =
     (case (b64_val w, b64_val x, b64_val y, b64_val z) of
        (Some m, Some n, Some p, Some q) \<Rightarrow>
          result_bind (b64_quads r) (\<lambda>s.
            Inr (char_of (m * 4 + n div 16) # char_of (n mod 16 * 16 + p div 4) # char_of (p mod 4 * 64 + q) # s))
      | _ \<Rightarrow> b64_error)"
| "b64_quads _ = b64_error"

definition b64decode :: "string \<Rightarrow> string result" where
  "b64decode s = b64_quads (List.filter (\<lambda>c. b64_val c \<noteq> None \<or> c = CHR ''='') s)"

lemma b64_val_char [simp]: "n < 64 \<Longrightarrow> b64_val (b64_char n) = Some n"
  by (auto simp: b64_val_def b64_char_def Let_def of_char_of)

lemma b64_val_pad [simp]: "b64_val (CHR ''='') = None"
  by (simp add: b64_val_def)

lemma b64_char_not_pad: "n < 64 \<Longrightarrow> b64_char n \<noteq> CHR ''=''"
  by (metis b64_val_char b64_val_pad option.distinct(1))

lemma char_quot [simp]:
  "(of_char c :: nat) div 4 < 64" "(of_char c :: nat) mod 4 * 16 < 64" "(of_char c :: nat) mod 16 * 4 < 64"
  "(of_char a :: nat) mod 4 * 16 + of_char b div 16 < 64" "(of_char a :: nat) mod 16 * 4 + of_char b div 64 < 64"
proof -
  have c: "(of_char x :: nat) < 256" for x by (rule char_code_less)
  show "(of_char c :: nat) div 4 < 64" using c [of c] by (simp add: less_mult_imp_div_less)
  have "(of_char c :: nat) mod 4 < 4" "(of_char c :: nat) mod 16 < 16" by simp_all
  then show "(of_char c :: nat) mod 4 * 16 < 64" "(of_char c :: nat) mod 16 * 4 < 64" by linarith+
  have "(of_char b :: nat) div 16 < 16" "(of_char b :: nat) div 64 < 4" using c [of b] by (simp_all add: less_mult_imp_div_less)
  moreover have "(of_char a :: nat) mod 4 < 4" "(of_char a :: nat) mod 16 < 16" by simp_all
  ultimately show "(of_char a :: nat) mod 4 * 16 + of_char b div 16 < 64" "(of_char a :: nat) mod 16 * 4 + of_char b div 64 < 64"
    by linarith+
qed

lemma b64_bytes:
  "(of_char a :: nat) div 4 * 4 + (of_char a mod 4 * 16 + (of_char b :: nat) div 16) div 16 = of_char a"
  "(of_char a :: nat) div 4 * 4 + (of_char a mod 4 * 16) div 16 = of_char a"
  "((of_char a :: nat) mod 4 * 16 + (of_char b :: nat) div 16) mod 16 * 16 + (of_char b mod 16 * 4 + (of_char c :: nat) div 64) div 4 = of_char b"
  "((of_char a :: nat) mod 4 * 16 + (of_char b :: nat) div 16) mod 16 * 16 + (of_char b mod 16 * 4) div 4 = of_char b"
  "((of_char b :: nat) mod 16 * 4 + (of_char c :: nat) div 64) mod 4 * 64 + of_char c mod 64 = of_char c"
proof -
  have b: "(of_char x :: nat) div 16 < 16" "(of_char x :: nat) div 64 < 4" for x
    using char_code_less [of x] by (simp_all add: less_mult_imp_div_less)
  show "(of_char a :: nat) div 4 * 4 + (of_char a mod 4 * 16 + (of_char b :: nat) div 16) div 16 = of_char a"
    "(of_char a :: nat) div 4 * 4 + (of_char a mod 4 * 16) div 16 = of_char a"
    "((of_char a :: nat) mod 4 * 16 + (of_char b :: nat) div 16) mod 16 * 16 + (of_char b mod 16 * 4 + (of_char c :: nat) div 64) div 4 = of_char b"
    "((of_char a :: nat) mod 4 * 16 + (of_char b :: nat) div 16) mod 16 * 16 + (of_char b mod 16 * 4) div 4 = of_char b"
    "((of_char b :: nat) mod 16 * 4 + (of_char c :: nat) div 64) mod 4 * 64 + of_char c mod 64 = of_char c"
    using b [of b] b [of c] by (simp_all add: mod_mult_self3)
qed

lemma b64_high [simp]:
  "(of_char b :: nat) div 16 div 16 = 0" "(of_char b :: nat) div 16 mod 16 = of_char b div 16"
  "(of_char b :: nat) div 64 div 4 = 0" "(of_char b :: nat) div 64 mod 4 = of_char b div 64"
proof -
  have "(of_char b :: nat) div 16 < 16" "(of_char b :: nat) div 64 < 4"
    using char_code_less [of b] by (simp_all add: less_mult_imp_div_less)
  then show "(of_char b :: nat) div 16 div 16 = 0" "(of_char b :: nat) div 16 mod 16 = of_char b div 16"
    "(of_char b :: nat) div 64 div 4 = 0" "(of_char b :: nat) div 64 mod 4 = of_char b div 64" by simp_all
qed

lemma b64_quads_encode: "b64_quads (b64encode s) = Inr s"
proof (induction s rule: b64encode.induct)
  case (2 a)
  then show ?case by (simp add: b64_bytes)
next
  case (3 a b)
  then show ?case by (simp add: b64_bytes)
next
  case (4 a b c r)
  show ?case
  proof (cases "b64encode r")
    case Nil
    then have "r = []" by (cases r rule: b64encode.cases) auto
    then show ?thesis by (simp add: b64_bytes)
  next
    case (Cons x xs)
    with 4 show ?thesis by (simp add: b64_bytes)
  qed
qed simp

lemma b64encode_alphabet: "c \<in> set (b64encode s) \<Longrightarrow> b64_val c \<noteq> None \<or> c = CHR ''=''"
  by (induction s rule: b64encode.induct) auto

interpretation b64: codec "\<lambda>_. True" b64encode b64decode "\<lambda>s. s"
proof
  fix s
  have "List.filter (\<lambda>c. b64_val c \<noteq> None \<or> c = CHR ''='') (b64encode s) = b64encode s"
    by (rule filter_True) (auto dest: b64encode_alphabet)
  then show "b64decode (b64encode s) = Inr s" by (simp add: b64decode_def b64_quads_encode)
qed

section \<open>Framing\<close>

text \<open>\<open>n.to_bytes(width, "big")\<close>\<close>

fun be_bytes :: "nat \<Rightarrow> nat \<Rightarrow> string" where
  "be_bytes 0 n = []"
| "be_bytes (Suc w) n = be_bytes w (n div 256) @ [char_of (n mod 256)]"

definition frame :: "string list \<Rightarrow> string" where
  "frame parts = concat (map (\<lambda>p. be_bytes 8 (length p) @ p) parts)"

lemma length_be_bytes [simp]: "length (be_bytes w n) = w"
  by (induction w arbitrary: n) auto

lemma be_bytes_inject:
  "m < 256 ^ w \<Longrightarrow> n < 256 ^ w \<Longrightarrow> be_bytes w m = be_bytes w n \<Longrightarrow> m = n"
proof (induction w arbitrary: m n)
  case (Suc w)
  have "m div 256 < 256 ^ w" "n div 256 < 256 ^ w"
    using Suc.prems(1,2) by (simp_all add: less_mult_imp_div_less mult.commute)
  moreover from Suc.prems(3) have "be_bytes w (m div 256) = be_bytes w (n div 256)"
      and "(char_of (m mod 256) :: char) = char_of (n mod 256)" by simp_all
  ultimately have "m div 256 = n div 256" and "m mod 256 = n mod 256"
    using Suc.IH by (blast, metis char_of_eq_iff mod_mod_trivial of_char_of)
  then show ?case by (metis div_mult_mod_eq)
qed simp

text \<open>Framed lists of parts, each shorter than \<open>2 ^ 64\<close> bytes, are equal only when the parts are.\<close>

definition framable :: "string list \<Rightarrow> bool" where
  "framable parts \<longleftrightarrow> list_all (\<lambda>p. length p < 256 ^ 8) parts"

lemma frame_inject: "framable ps \<Longrightarrow> framable qs \<Longrightarrow> frame ps = frame qs \<Longrightarrow> ps = qs"
proof (induction ps arbitrary: qs)
  case Nil
  then show ?case by (cases qs) (auto simp: frame_def dest: arg_cong [where f = length])
next
  case (Cons p ps)
  then obtain q qs' where qs: "qs = q # qs'"
    by (cases qs) (auto simp: frame_def dest: arg_cong [where f = length])
  with Cons.prems(3) have eq: "be_bytes 8 (length p) @ p @ frame ps = be_bytes 8 (length q) @ q @ frame qs'"
    by (simp add: frame_def)
  then have len: "be_bytes 8 (length p) = be_bytes 8 (length q)" and rest: "p @ frame ps = q @ frame qs'"
    by (simp_all only: append_eq_append_conv length_be_bytes simp_thms)
  from len have "length p = length q"
    using Cons.prems(1,2) by (intro be_bytes_inject [of _ 8]) (simp_all add: framable_def qs)
  with rest have "p = q" "frame ps = frame qs'" by simp_all
  with Cons qs show ?case by (simp add: framable_def)
qed

end
