(* ===== verification/Journal.thy ===== *)
theory Journal
  imports Encoding
begin

text \<open>
  Append-only logs of JSON records (\<open>checkpoint/store.py\<close>: \<open>_record_line\<close>, \<open>_parse_record\<close>,
  \<open>Store._append\<close>, \<open>Store._read_lines\<close>), and what is read back after crashes in the middle of
  appends: a torn line, and the lines that later appends are glued to it.
\<close>

section \<open>Records and lines\<close>

definition newline :: char where "newline = CHR 0x0A"

definition record_line :: "json \<Rightarrow> string" where
  "record_line rec = dumps rec @ [newline]"

text \<open>\<open>None\<close> is a torn line, and also the document \<open>null\<close>, which Python reads as \<open>None\<close>.\<close>

definition parse_record :: "string \<Rightarrow> json option" where
  "parse_record raw = (case loads raw of Some JNull \<Rightarrow> None | r \<Rightarrow> r)"

text \<open>Universal newlines: a line ends at a line feed or at a carriage return.\<close>

fun split_lines :: "string \<Rightarrow> string list" where
  "split_lines [] = [[]]"
| "split_lines (c # cs) =
     (if c = newline \<or> c = CHR 0x0D then [] # split_lines cs
      else (case split_lines cs of l # ls \<Rightarrow> (c # l) # ls | [] \<Rightarrow> [[c]]))"

definition read_lines :: "string \<Rightarrow> json list" where
  "read_lines content = List.map_filter parse_record (split_lines content)"

section \<open>Text that cannot go on\<close>

text \<open>After a value nothing but one of these characters, or the end, lets a document go on.\<close>

definition inert :: "string \<Rightarrow> bool" where
  "inert r \<longleftrightarrow> \<not> next_is (CHR '','') r \<and> \<not> next_is (CHR ''}'') r \<and> \<not> next_is (CHR '']'') r \<and> \<not> next_is (CHR '':'') r"

lemma inert_Nil [simp]: "inert []"
  by (simp add: inert_def next_is_def skip_ws_def)

lemma inert_Cons: "\<not> is_ws c \<Longrightarrow> c \<noteq> CHR '','' \<Longrightarrow> c \<noteq> CHR ''}'' \<Longrightarrow> c \<noteq> CHR '']'' \<Longrightarrow> c \<noteq> CHR '':'' \<Longrightarrow> inert (c # r)"
  by (simp add: inert_def next_is_def skip_ws_def)

lemma inert_brace [simp]: "inert (CHR ''{'' # r)"
  by (rule inert_Cons) (simp_all add: is_ws_def)

text \<open>
  Text that blocks whatever is cut off before it: it starts like an object, and neither a value nor a
  string that ends in it lets a document go on.
\<close>

definition blocker :: "string \<Rightarrow> bool" where
  "blocker m \<longleftrightarrow> (m = [] \<or> hd m = CHR ''{'')
     \<and> (\<forall>f v r. parse_value f m = Some (v, r) \<longrightarrow> inert r)
     \<and> (\<forall>t r. parse_str m = Some (t, r) \<longrightarrow> inert r)"

lemma blocker_Nil [simp]: "blocker []"
proof -
  have "parse_value f [] = None" for f by (cases f) (simp_all add: parse_value.simps(2))
  then show ?thesis by (simp add: blocker_def)
qed

lemma blockerD:
  assumes "blocker m"
  shows "m = [] \<or> (\<exists>m'. m = CHR ''{'' # m')"
    and "parse_value f m = Some (v, r) \<Longrightarrow> inert r"
    and "parse_str m = Some (t, r) \<Longrightarrow> inert r"
    and "inert m" and "stops m"
  using assms unfolding blocker_def
  by (cases m; auto simp: stops_def num_char_def is_digit_def)+

lemma esc_char_cases:
  "esc_char c = [c] \<and> c \<noteq> CHR 0x22 \<and> c \<noteq> CHR 0x5C \<and> (32 :: nat) \<le> of_char c
   \<or> (\<exists>e. esc_char c = [CHR 0x5C, e] \<and> e \<noteq> CHR ''u'')
   \<or> esc_char c = [CHR 0x5C, CHR ''u'', CHR ''0'', CHR ''0'', hex_digit (of_char c div 16), hex_digit (of_char c mod 16)]"
  by (simp add: esc_char_def)

lemma hex4_brace: "hex4 a b c d = None" if "CHR ''{'' \<in> {a, b, c, d}"
  using that by (auto simp: hex4_def hex_val_def split: option.split)

lemma parse_str_backslash: "blocker m \<Longrightarrow> parse_str (CHR 0x5C # m) = None"
  by (drule blockerD(1)) (auto simp: unescape_def)

lemma parse_str_u:
  "blocker m \<Longrightarrow> length h < 4 \<Longrightarrow> CHR ''{'' \<notin> set h \<Longrightarrow> parse_str (CHR 0x5C # CHR ''u'' # h @ m) = None"
proof -
  assume m: "blocker m" and h: "length h < 4"
  show ?thesis
  proof (cases m)
    case Nil
    with h show ?thesis by (auto split: list.split)
  next
    case (Cons c m')
    with blockerD(1) [OF m] have c: "c = CHR ''{''" by auto
    have "parse_str (CHR 0x5C # CHR ''u'' # h1 # h2 # h3 # h4 # r) = None" if "CHR ''{'' \<in> {h1, h2, h3, h4}" for h1 h2 h3 h4 r
      using hex4_brace [OF that] by simp
    moreover have "length h = 0 \<or> length h = 1 \<or> length h = 2 \<or> length h = 3" using h by linarith
    ultimately show ?thesis
      using Cons c
      by (auto simp: length_Suc_conv eval_nat_numeral split: list.split)
  qed
qed

lemma of_char_brace: "of_char (CHR ''{'') = (123 :: nat)"
  by simp

text \<open>A string cut off before its closing quote.\<close>

lemma cut_string:
  "concat (map esc_char s) = p @ q \<Longrightarrow> blocker m \<Longrightarrow> parse_str (p @ m) = Some (t, r) \<Longrightarrow> inert r"
proof (induction s arbitrary: p t)
  case Nil
  then show ?case by (auto dest: blockerD(3))
next
  case (Cons c s)
  show ?case
  proof (cases "length (esc_char c) \<le> length p")
    case True
    with Cons.prems(1) obtain p' where p': "p = esc_char c @ p'" "concat (map esc_char s) = p' @ q"
      by (auto simp: append_eq_append_conv2)
    with Cons.prems(3) obtain t' where "parse_str (p' @ m) = Some (t', r)"
      by (auto simp: parse_str_esc cons_fst_Some)
    with Cons.IH [OF p'(2) Cons.prems(2)] show ?thesis by blast
  next
    case False
    then obtain u where u: "esc_char c = p @ u" "u \<noteq> []"
      using Cons.prems(1) by (auto simp: append_eq_append_conv2)
    consider "p = []" | "p = [CHR 0x5C]"
      | h where "p = CHR 0x5C # CHR ''u'' # h" "length h < 4" "set h \<subseteq> set (esc_char c)"
        "esc_char c = [CHR 0x5C, CHR ''u'', CHR ''0'', CHR ''0'', hex_digit (of_char c div 16), hex_digit (of_char c mod 16)]"
      using u esc_char_cases [of c]
      by (auto simp: Cons_eq_append_conv append_eq_Cons_conv)
    then show ?thesis
    proof cases
      case 1
      with Cons.prems blockerD(3) [OF Cons.prems(2)] show ?thesis by simp
    next
      case 2
      with parse_str_backslash [OF Cons.prems(2)] Cons.prems(3) show ?thesis
        by (simp del: parse_str.simps)
    next
      case (3 h)
      have "of_char (hex_digit n) \<noteq> (123 :: nat)" if "n < 16" for n using that by (simp add: of_char_hex_digit)
      then have "hex_digit n \<noteq> CHR ''{''" if "n < 16" for n using that by (metis of_char_brace)
      moreover have "(of_char c :: nat) div 16 < 16" using char_code_less [of c] by (simp add: less_mult_imp_div_less)
      ultimately have "hex_digit (of_char c div 16) \<noteq> CHR ''{''" "hex_digit (of_char c mod 16) \<noteq> CHR ''{''"
        by simp_all
      then have "CHR ''{'' \<notin> set (esc_char c)" unfolding 3(4) by simp
      with 3(3) have "CHR ''{'' \<notin> set h" by blast
      with parse_str_u [OF Cons.prems(2) 3(2)] Cons.prems(3) 3(1) show ?thesis by simp
    qed
  qed
qed

section \<open>A value cut short\<close>

lemma parse_str_quote: "parse_str (CHR 0x22 # r) = Some ([], r)"
  by simp

lemma cut_str_value:
  assumes "write_str s = CHR 0x22 # p @ q" "q \<noteq> []" "blocker m" "parse_str (p @ m) = Some (t, r)"
  shows "inert r"
proof -
  from assms(1,2) obtain q' where "concat (map esc_char s) = p @ q'"
    by (cases q rule: rev_cases) (auto simp: write_str_def)
  with cut_string [OF _ assms(3,4)] show ?thesis .
qed

lemma cut_number:
  assumes "list_all num_char t" "t = p @ q" "p \<noteq> []" "is_digit (hd t) \<or> hd t = CHR ''-''" "blocker m"
    "parse_value f (p @ m) = Some (v, r)"
  shows "inert r"
proof -
  from assms(6) obtain f' where f: "f = Suc f'" by (cases f) auto
  have h: "is_digit (hd p) \<or> hd p = CHR ''-''" using assms(2-4) by (cases p) auto
  have "parse_number (p @ m) = Some (v, r)"
    using assms(6) parse_word_number [OF refl assms(3) h, of f' m] f by (simp del: parse_value.simps)
  moreover have "dropWhile num_char (p @ m) = m"
    using assms(1,2) blockerD(5) [OF assms(5)] takeWhile_token [of p m] by simp
  ultimately have "r = m" by (auto simp: parse_number_def Let_def split: if_splits)
  then show ?thesis using blockerD(4) [OF assms(5)] by simp
qed

lemma parse_whole:
  assumes "wf_json j" "stops r" "parse_value f (jwrite j @ r) = Some (v, r')"
  shows "v = j \<and> r' = r"
proof -
  let ?F = "max f (2 * length (jwrite j))"
  have "parse_value ?F (jwrite j @ r) = Some (j, r)" by (rule parse_jwrite(1)) (use assms in auto)
  moreover have "parse_value ?F (jwrite j @ r) = Some (v, r')" by (rule parse_mono [OF assms(3)]) simp
  ultimately show ?thesis by simp
qed

lemma blocker_skip_ws: "blocker m \<Longrightarrow> skip_ws m = m"
  by (drule blockerD(1)) (auto simp: skip_ws_def is_ws_def)

lemma inert_next: "inert r \<Longrightarrow> c \<in> {CHR '','', CHR ''}'', CHR '']'', CHR '':''} \<Longrightarrow> \<not> next_is c r"
  by (auto simp: inert_def)

lemma parse_elems_dead:
  assumes "\<And>v r. parse_value (f - 1) s = Some (v, r) \<Longrightarrow> inert r"
  shows "parse_elems f acc s = None"
  using assms by (cases f) (auto simp: parse_elems.simps(2) inert_next split: option.splits)

lemma cut_word:
  assumes "w \<in> {''null'', ''true'', ''false''}" "w = p @ q" "p \<noteq> []" "q \<noteq> []" "blocker m"
  shows "parse_value f (p @ m) = None"
proof -
  have "p \<in> {''n'', ''nu'', ''nul'', ''t'', ''tr'', ''tru'', ''f'', ''fa'', ''fal'', ''fals''}"
    using assms(1-4) by (auto simp: Cons_eq_append_conv append_eq_Cons_conv)
  moreover have "\<forall>p \<in> {''n'', ''nu'', ''nul'', ''t'', ''tr'', ''tru'', ''f'', ''fa'', ''fal'', ''fals''}.
      parse_word p = None \<and> parse_word (p @ CHR ''{'' # m') = None \<and> p \<noteq> []
      \<and> hd p \<notin> {CHR ''{'', CHR ''['', CHR 0x22}" for m'
    by (simp add: parse_word_def parse_number_def num_char_def is_digit_def int_token_def float_token_def
        unsign_def int_digits_def)
  ultimately have "parse_word (p @ m) = None" "hd (p @ m) \<notin> {CHR ''{'', CHR ''['', CHR 0x22}"
    using blockerD(1) [OF assms(5)] by auto
  then show ?thesis using assms(3) by (cases f) (auto simp: parse_value.simps(2))
qed

lemma value_head_next:
  "value_head (hd s) \<Longrightarrow> s \<noteq> [] \<Longrightarrow> skip_ws s = s \<and> \<not> next_is (CHR '']'') s \<and> \<not> next_is (CHR ''}'') s \<and> \<not> next_is (CHR '','') s"
  by (cases s) (auto simp: value_head_def skip_ws_def next_is_def)

lemma elems_head: "wf_elems xs \<Longrightarrow> write_elems xs = p @ q \<Longrightarrow> xs \<noteq> [] \<Longrightarrow> p \<noteq> [] \<Longrightarrow> value_head (hd p)"
  using jwrite_head [of "hd xs"] by (cases xs) (auto simp: neq_Nil_conv Cons_eq_append_conv append_eq_Cons_conv)

lemma members_head: "write_members kvs = p @ q \<Longrightarrow> kvs \<noteq> [] \<Longrightarrow> p \<noteq> [] \<Longrightarrow> hd p = CHR 0x22"
  by (cases kvs; cases p) (auto simp: write_str_def)

text \<open>What follows an element or a member, cut after its first character.\<close>

lemma cut_tail:
  assumes "(case xs of [] \<Rightarrow> [d] | _ \<Rightarrow> CHR '','' # w) = p @ q" "q \<noteq> []" "p \<noteq> []"
  shows "xs \<noteq> [] \<and> (\<exists>p'. p = CHR '','' # p' \<and> w = p' @ q)"
  using assms by (cases xs; cases p) simp_all

lemma cut_tail_stops:
  assumes "(case xs of [] \<Rightarrow> [d] | _ \<Rightarrow> CHR '','' # w) = p @ q" "q \<noteq> []" "stops m"
  shows "stops (p @ m)"
proof (cases "p = []")
  case False
  from cut_tail [OF assms(1,2) this] show ?thesis by auto
qed (use assms(3) in simp)

lemma parse_members_brace: "blocker m \<Longrightarrow> parse_members f acc m = None"
  by (drule blockerD(1)) (cases f; auto simp: parse_members.simps(2))

text \<open>
  The three ways to cut: a value (what is left of it may still be read as a value, but nothing can go
  on after it), the elements of an array, the members of an object.
\<close>

lemma cut_json:
  "wf_json j \<Longrightarrow> jwrite j = p @ q \<Longrightarrow> q \<noteq> [] \<Longrightarrow> blocker m \<Longrightarrow> parse_value f (p @ m) = Some (v, r) \<Longrightarrow>
     inert r \<and> (p \<noteq> [] \<longrightarrow> (\<forall>kvs. j \<noteq> JObj kvs))"
  "wf_elems xs \<Longrightarrow> xs \<noteq> [] \<Longrightarrow> write_elems xs = p @ q \<Longrightarrow> q \<noteq> [] \<Longrightarrow> blocker m \<Longrightarrow>
     parse_elems f acc (p @ m) = None"
  "wf_members kvs \<Longrightarrow> kvs \<noteq> [] \<Longrightarrow> write_members kvs = p @ q \<Longrightarrow> q \<noteq> [] \<Longrightarrow> blocker m \<Longrightarrow>
     parse_members f macc (p @ m) = None"
proof (induction j and xs and kvs arbitrary: p q f v r and p q f acc and p q f macc
    rule: jwrite_write_elems_write_members.induct)
  case 1
  with cut_word [of "''null''" p q m f] blockerD(2) [OF 1(4)] show ?case by (cases "p = []") auto
next
  case (2 b)
  with cut_word [of "jwrite (JBool b)" p q m f] blockerD(2) [OF 2(4)] show ?case
    by (cases "p = []"; cases b) auto
next
  case (3 i)
  with cut_number [of "dec i" p q m f v r] dec_token [of i] number_head [of "dec i"] blockerD(2) [OF 3(4)]
  show ?case by (cases "p = []") auto
next
  case (4 t)
  with cut_number [of t p q m f v r] number_head [of t] blockerD(2) [OF 4(4)]
  show ?case by (cases "p = []") (auto simp: float_token_def)
next
  case (5 s)
  show ?case
  proof (cases p)
    case Nil
    with 5 blockerD(2) [OF 5(4)] show ?thesis by auto
  next
    case (Cons c p')
    with 5(2) have c: "c = CHR 0x22" "write_str s = CHR 0x22 # p' @ q" by (auto simp: write_str_def)
    with 5(5) Cons obtain t where "parse_str (p' @ m) = Some (t, r)"
      by (cases f) (auto simp: parse_value.simps(2))
    with cut_str_value [OF c(2) 5(3,4)] show ?thesis by auto
  qed
next
  case (6 xs)
  show ?case
  proof (cases p)
    case Nil
    with 6 blockerD(2) [OF 6(5)] show ?thesis by auto
  next
    case (Cons c p')
    with 6(3) have c: "c = CHR ''[''" by auto
    have "parse_value f (p @ m) = None"
    proof (cases "p' = []")
      case True
      then show ?thesis using Cons c blockerD(1) [OF 6(5)] inert_next [OF blockerD(4) [OF 6(5)]] parse_elems_dead [of _ m]
          blockerD(2) [OF 6(5)] blocker_skip_ws [OF 6(5)]
        by (cases f) (simp_all add: parse_value.simps(2))
    next
      case False
      with Cons 6(3,4) c have n: "xs \<noteq> []" by (cases p') auto
      then obtain y ys where y: "xs = y # ys" by (cases xs) auto
      with Cons 6(3) c have w: "write_elems xs = p' @ q" by simp
      have "parse_elems f' [] (p' @ m) = None" for f' using 6(1) [OF y _ n w 6(4,5)] 6(2) by simp
      moreover have "value_head (hd (p' @ m))" using elems_head [of xs p' q] w n False 6(2) by simp
      ultimately show ?thesis using Cons c False value_head_next [of "p' @ m"]
        by (cases f) (simp_all add: parse_value.simps(2))
    qed
    with 6 show ?thesis by simp
  qed
next
  case (7 kvs)
  show ?case
  proof (cases p)
    case Nil
    with 7 blockerD(2) [OF 7(5)] show ?thesis by auto
  next
    case (Cons c p')
    with 7(3) have c: "c = CHR ''{''" by auto
    have "parse_value f (p @ m) = None"
    proof (cases "p' = []")
      case True
      then show ?thesis using Cons c blockerD(1) [OF 7(5)] inert_next [OF blockerD(4) [OF 7(5)]] 
          blockerD(2) [OF 7(5)] blocker_skip_ws [OF 7(5)]
        parse_members_brace [OF 7(5)]
        by (cases f) (simp_all add: parse_value.simps(2))
    next
      case False
      with Cons 7(3,4) c have n: "kvs \<noteq> []" by (cases p') auto
      then obtain y ys where y: "kvs = y # ys" by (cases kvs) auto
      with Cons 7(3) c have w: "write_members kvs = p' @ q" by simp
      have "parse_members f' [] (p' @ m) = None" for f' using 7(1) [OF y _ n w 7(4,5)] 7(2) by simp
      moreover have "value_head (hd (p' @ m))" using members_head [of kvs p' q] w n False by (simp add: value_head_def is_ws_def)
      ultimately show ?thesis using Cons c False value_head_next [of "p' @ m"]
        by (cases f) (simp_all add: parse_value.simps(2))
    qed
    with 7 show ?thesis by simp
  qed
next
  case 8
  then show ?case by simp
next
  case (9 x xs)
  have x: "wf_json x" and xs: "wf_elems xs" using 9(3) by auto
  let ?t = "case xs of [] \<Rightarrow> '']'' | _ \<Rightarrow> CHR '','' # write_elems xs"
  have w: "jwrite x @ ?t = p @ q" using 9(5) by simp
  show ?case
  proof (cases "length p < length (jwrite x)")
    case True
    then obtain q' where q': "jwrite x = p @ q'" "q' \<noteq> []" using w by (auto simp: append_eq_append_conv2)
    show ?thesis by (rule parse_elems_dead) (use 9(1) [OF x q' 9(7)] in blast)
  next
    case False
    then obtain p' where p: "p = jwrite x @ p'" "?t = p' @ q" using w by (auto simp: append_eq_append_conv2)
    have st: "stops (p' @ m)"
      by (rule cut_tail_stops [OF p(2) 9(6) blockerD(5) [OF 9(7)]])
    have whole: "v = x \<and> r = p' @ m" if "parse_value g (p @ m) = Some (v, r)" for g v r
      using parse_whole [OF x st] that p(1) by simp
    show ?thesis
    proof (cases p')
      case Nil
      with whole blockerD(4) [OF 9(7)] show ?thesis by (intro parse_elems_dead) auto
    next
      case (Cons c p2)
      with cut_tail [OF p(2) 9(6)] have c: "xs \<noteq> []" "c = CHR '',''" "write_elems xs = p2 @ q" by simp_all
      then obtain y ys where y: "xs = y # ys" by (cases xs) auto
      have IH: "parse_elems g a (p2 @ m) = None" for g a using 9(2) [OF y xs c(1,3) 9(6,7)] .
      have "skip_ws (p2 @ m) = p2 @ m"
        using elems_head [OF xs c(3,1)] value_head_next [of "p2 @ m"] blocker_skip_ws [OF 9(7)] by (cases p2) auto
      then have "next_is (CHR '','') (p' @ m)" "skip_ws (after (p' @ m)) = p2 @ m" using Cons c(2) by simp_all
      with IH whole show ?thesis
        by (cases f; cases "parse_value (f - 1) (p @ m)") (auto simp: parse_elems.simps(2))
    qed
  qed
next
  case 10
  then show ?case by simp
next
  case (11 k v kvs)
  have v: "wf_json v" and kvs: "wf_members kvs" using 11(3) by auto
  let ?t = "case kvs of [] \<Rightarrow> ''}'' | _ \<Rightarrow> CHR '','' # write_members kvs"
  have w: "write_str k @ (CHR '':'' # jwrite v @ ?t) = p @ q" using 11(5) by simp
  show ?case
  proof (cases "length p < length (write_str k)")
    case True
    then obtain q' where q': "write_str k = p @ q'" "q' \<noteq> []" using w by (auto simp: append_eq_append_conv2)
    show ?thesis
    proof (cases p)
      case Nil
      then show ?thesis using parse_members_brace [OF 11(7)] by simp
    next
      case (Cons c p2)
      then have c: "c = CHR 0x22" using q' by (simp add: write_str_def)
      have "inert r" if "parse_str (p2 @ m) = Some (t, r)" for t r
        using cut_str_value [OF _ q'(2) 11(7) that, of k] q'(1) Cons c by simp
      with Cons c show ?thesis
        by (cases f) (auto simp: parse_members.simps(2) inert_next split: option.splits)
    qed
  next
    case False
    then obtain p' where p: "p = write_str k @ p'" "CHR '':'' # jwrite v @ ?t = p' @ q" using w by (auto simp: append_eq_append_conv2)
    have str: "parse_str (tl (p @ m)) = Some (k, p' @ m)" "p @ m \<noteq> []" "hd (p @ m) = CHR 0x22"
      using p(1) by (simp_all add: write_str_def parse_str_write)
    show ?thesis
    proof (cases p')
      case Nil
      with str inert_next [OF blockerD(4) [OF 11(7)]] show ?thesis
        by (cases f) (auto simp: parse_members.simps(2))
    next
      case (Cons c p2)
      then have c: "c = CHR '':''" "jwrite v @ ?t = p2 @ q" using p(2) by auto
      have ws: "skip_ws (p2 @ m) = p2 @ m"
      proof (cases p2)
        case Nil
        then show ?thesis using blocker_skip_ws [OF 11(7)] by simp
      next
        case (Cons d p3)
        with c(2) jwrite_head [OF v] have "value_head d" by (metis append_Cons hd_append2 list.sel(1))
        with Cons value_head_next [of "p2 @ m"] show ?thesis by simp
      qed
      have go: "parse_members f macc (p @ m) = None"
        if "\<And>g u r. parse_value g (p2 @ m) = Some (u, r) \<Longrightarrow>
              \<not> next_is (CHR ''}'') r \<and> (next_is (CHR '','') r \<longrightarrow> (\<forall>h a. parse_members h a (skip_ws (after r)) = None))"
      proof (cases f)
        case (Suc g)
        have n: "next_is (CHR '':'') (p' @ m)" "skip_ws (after (p' @ m)) = p2 @ m" using Cons c(1) ws by simp_all
        show ?thesis
        proof (cases "parse_value g (p2 @ m)")
          case None
          then show ?thesis
            by (simp only: Suc parse_members.simps(2) str n option.case prod.case if_True if_False simp_thms)
        next
          case (Some ur)
          obtain u r where ur: "ur = (u, r)" by (cases ur)
          from that [OF Some [unfolded ur]] show ?thesis
            by (auto simp only: Suc parse_members.simps(2) str n Some ur option.case prod.case if_True if_False simp_thms split: if_splits)
        qed
      qed simp
      show ?thesis
      proof (cases "length p2 < length (jwrite v)")
        case True
        then obtain q' where q': "jwrite v = p2 @ q'" "q' \<noteq> []" using c(2) by (auto simp: append_eq_append_conv2)
        have "inert r" if "parse_value g (p2 @ m) = Some (u, r)" for g u r using 11(1) [OF v q' 11(7) that] by simp
        then have "\<not> next_is (CHR ''}'') r \<and> \<not> next_is (CHR '','') r"
          if "parse_value g (p2 @ m) = Some (u, r)" for g u r using that inert_next by fastforce
        with go show ?thesis by simp
      next
        case False
        then obtain p3 where p3: "p2 = jwrite v @ p3" "?t = p3 @ q" using c(2) by (auto simp: append_eq_append_conv2)
        have st: "stops (p3 @ m)"
          by (rule cut_tail_stops [OF p3(2) 11(6) blockerD(5) [OF 11(7)]])
        have whole: "r = p3 @ m" if "parse_value g (p2 @ m) = Some (u, r)" for g u r
          using parse_whole [OF v st] that p3(1) by simp
        show ?thesis
        proof (cases p3)
          case Nil
          with whole inert_next [OF blockerD(4) [OF 11(7)]] show ?thesis by (intro go) auto
        next
          case (Cons d p4)
          with cut_tail [OF p3(2) 11(6)] have d: "kvs \<noteq> []" "d = CHR '',''" "write_members kvs = p4 @ q" by simp_all
          then obtain y ys where y: "kvs = y # ys" by (cases kvs) auto
          have IH: "parse_members g a (p4 @ m) = None" for g a using 11(2) [OF y kvs d(1,3) 11(6,7)] .
          have "skip_ws (p4 @ m) = p4 @ m"
            using members_head [OF d(3,1)] blocker_skip_ws [OF 11(7)] by (cases p4) auto
          then have n: "\<not> next_is (CHR ''}'') (p3 @ m)" "skip_ws (after (p3 @ m)) = p4 @ m"
            using Cons d(2) by simp_all
          show ?thesis by (rule go) (use whole n IH in simp)
        qed
      qed
    qed
  qed
qed

section \<open>Lines made of pieces\<close>

text \<open>
  A record is a nonempty object whose first key starts with a letter. A line of a log is a sequence of
  pieces, each the beginning of a record's text; only the last can be whole with its line feed.
\<close>

definition plain_record :: "json \<Rightarrow> bool" where
  "plain_record j \<longleftrightarrow> (case j of JObj ((k, v) # kvs) \<Rightarrow> wf_json j \<and> k \<noteq> [] \<and>
      (let c = hd k in esc_char c = [c] \<and> \<not> is_ws c \<and> c \<notin> {CHR '','', CHR ''}'', CHR '']'', CHR '':'', CHR 0x22})
    | _ \<Rightarrow> False)"

lemma plain_recordD:
  assumes "plain_record j"
  shows "wf_json j"
    and "\<exists>kvs. j = JObj kvs"
    and "\<exists>c w. jwrite j = CHR ''{'' # CHR 0x22 # c # w \<and> inert (c # t)"
proof -
  from assms obtain k v kvs where j: "j = JObj ((k, v) # kvs)" "wf_json j"
      "k \<noteq> []" "esc_char (hd k) = [hd k]" "\<not> is_ws (hd k)" "hd k \<notin> {CHR '','', CHR ''}'', CHR '']'', CHR '':'', CHR 0x22}"
    unfolding plain_record_def by (auto split: json.splits list.splits simp: Let_def)
  then show "wf_json j" "\<exists>kvs. j = JObj kvs" by simp_all
  obtain c cs where k: "k = c # cs" using j(3) by (cases k) auto
  with j(4) have "jwrite j = CHR ''{'' # CHR 0x22 # c # concat (map esc_char cs) @ tl (write_str k) @ []
     \<or> (\<exists>w. jwrite j = CHR ''{'' # CHR 0x22 # c # w)" unfolding j(1) by (simp add: write_str_def)
  moreover have "inert (c # t)" using j(5,6) k by (intro inert_Cons) auto
  ultimately show "\<exists>c w. jwrite j = CHR ''{'' # CHR 0x22 # c # w \<and> inert (c # t)" by blast
qed

lemma piece_blocks:
  assumes "plain_record j" "jwrite j = p @ q" "p \<noteq> []" "blocker m"
  shows "blocker (p @ m)"
    and "parse_value f (p @ m) = Some (v, r) \<Longrightarrow> q = [] \<and> v = j \<and> r = m"
proof -
  obtain c w where w: "jwrite j = CHR ''{'' # CHR 0x22 # c # w" using plain_recordD(3) [OF assms(1)] by blast
  have d: "inert (c # t)" for t using plain_recordD(3) [OF assms(1), of t] w by auto
  show V: "q = [] \<and> v = j \<and> r = m" if "parse_value f (p @ m) = Some (v, r)" for f v r
  proof (cases "q = []")
    case True
    then show ?thesis using parse_whole [OF plain_recordD(1) [OF assms(1)] blockerD(5) [OF assms(4)]] that assms(2) by simp
  next
    case False
    from cut_json(1) [OF plain_recordD(1) [OF assms(1)] assms(2) this assms(4) that] plain_recordD(2) [OF assms(1)] assms(3)
    show ?thesis by blast
  qed
  have S: "inert r" if "parse_str (p @ m) = Some (t, r)" for t r
  proof -
    consider "p = [CHR ''{'']" | p' where "p = CHR ''{'' # CHR 0x22 # p'" "p' = [] \<or> hd p' = c"
      using assms(2,3) w by (cases p; cases "tl p"; cases "tl (tl p)") auto
    then show ?thesis
    proof cases
      case 1
      with that obtain t' where "parse_str m = Some (t', r)" by (auto simp: cons_fst_Some)
      then show ?thesis using blockerD(3) [OF assms(4)] by blast
    next
      case 2
      with that have "r = p' @ m" by (auto simp: cons_fst_Some)
      with 2 d blockerD(4) [OF assms(4)] show ?thesis by (cases p') auto
    qed
  qed
  have "hd (p @ m) = CHR ''{''" using assms(2,3) w by (cases p) auto
  moreover have "inert r" if "parse_value f (p @ m) = Some (v, r)" for f v r
    using V [OF that] blockerD(4) [OF assms(4)] by simp
  ultimately show "blocker (p @ m)" unfolding blocker_def using S by auto
qed

text \<open>The text of a record has no control characters, so a line of a log is never split inside one.\<close>

definition printable :: "char \<Rightarrow> bool" where
  "printable c \<longleftrightarrow> (32 :: nat) \<le> of_char c"

lemma printable_newline: "\<not> printable newline" "\<not> printable (CHR 0x0D)"
  by (simp_all add: printable_def newline_def)

lemma printable_delim:
  "printable (CHR '','')" "printable (CHR '':'')" "printable (CHR ''['')" "printable (CHR '']'')"
  "printable (CHR ''{'')" "printable (CHR ''}'')"
  by (simp_all add: printable_def)

lemma printable_esc: "list_all printable (esc_char c)"
proof -
  have "hex_digit n = CHR ''0'' \<or> (48 :: nat) \<le> of_char (hex_digit n)" if "n < 16" for n
    using that by (auto simp: of_char_hex_digit)
  moreover have "(of_char c :: nat) div 16 < 16" using char_code_less [of c] by (simp add: less_mult_imp_div_less)
  ultimately show ?thesis by (auto simp: esc_char_def printable_def of_char_hex_digit)
qed

lemma printable_write_str: "list_all printable (write_str s)"
proof -
  have "list_all printable (concat (map esc_char s))"
    by (induction s) (simp_all add: printable_esc)
  then show ?thesis by (simp add: write_str_def printable_def)
qed

lemma printable_num: "list_all num_char t \<Longrightarrow> list_all printable t"
  by (induction t) (auto simp: num_char_def is_digit_def printable_def)

lemma printable_jwrite:
  "wf_json j \<Longrightarrow> list_all printable (jwrite j)"
  "wf_elems xs \<Longrightarrow> list_all printable (write_elems xs)"
  "wf_members kvs \<Longrightarrow> list_all printable (write_members kvs)"
proof (induction j and xs and kvs rule: jwrite_write_elems_write_members.induct)
  case (3 i)
  then show ?case using dec_token [of i] printable_num by simp
next
  case (4 t)
  then show ?case using printable_num by (simp add: float_token_def)
next
  case (11 k v kvs)
  then have "list_all printable (jwrite v)" by (cases kvs) simp_all
  moreover have "list_all printable (CHR '':'' # (case kvs of [] \<Rightarrow> ''}'' | _ \<Rightarrow> CHR '','' # write_members kvs))"
  proof (cases kvs)
    case (Cons x xs)
    with 11 have "list_all printable (write_members kvs)" by simp
    then show ?thesis by (simp add: Cons printable_delim del: write_members.simps)
  qed (simp add: printable_delim)
  ultimately show ?case using printable_write_str [of k] by (simp del: list.case)
next
  case (6 xs)
  then have "xs \<noteq> [] \<Longrightarrow> list_all printable (write_elems xs)" by (cases xs) (simp_all del: write_elems.simps)
  then show ?case by (cases xs) (simp_all add: printable_delim del: write_elems.simps)
next
  case (7 kvs)
  then have "kvs \<noteq> [] \<Longrightarrow> list_all printable (write_members kvs)" by (cases kvs) (simp_all del: write_members.simps)
  then show ?case by (cases kvs) (simp_all add: printable_delim del: write_members.simps)
next
  case (9 x xs)
  then have "xs \<noteq> [] \<Longrightarrow> list_all printable (write_elems xs)" by (cases xs) (simp_all del: write_elems.simps)
  with 9 show ?case
    unfolding write_elems.simps(2) [of x] by (cases xs) (simp_all add: printable_delim del: write_elems.simps)
next
  case (5 s)
  show ?case using printable_write_str [of s] by simp
qed (simp_all add: printable_def)

lemma split_lines_printable:
  "list_all printable l \<Longrightarrow> split_lines (l @ s) = (case split_lines s of x # xs \<Rightarrow> (l @ x) # xs | [] \<Rightarrow> [l])"
proof (induction l)
  case Nil
  then show ?case by (cases s) (auto split: list.split)
next
  case (Cons c l)
  then show ?case using printable_newline by (auto split: list.split)
qed

lemma split_lines_line:
  assumes "list_all printable l"
  shows "split_lines l = [l]" and "split_lines (l @ newline # s) = l # split_lines s"
  using split_lines_printable [OF assms, of "[]"] split_lines_printable [OF assms, of "newline # s"] by simp_all

section \<open>Logs\<close>

text \<open>
  An append that may be cut by a crash: the record and how many characters of its line reached the
  file. It is whole when the record's text did, and ended when the line feed did too.
\<close>

type_synonym append = "json \<times> nat"

definition append_text :: "append \<Rightarrow> string" where
  "append_text a = take (snd a) (record_line (fst a))"

definition whole :: "append \<Rightarrow> bool" where
  "whole a \<longleftrightarrow> length (dumps (fst a)) \<le> snd a"

definition ended :: "append \<Rightarrow> bool" where
  "ended a \<longleftrightarrow> length (dumps (fst a)) < snd a"

definition log_text :: "append list \<Rightarrow> string" where
  "log_text as = concat (map append_text as)"

definition loggable :: "json \<Rightarrow> bool" where
  "loggable j \<longleftrightarrow> wf_json j \<and> plain_record (sort_json j)"

text \<open>What a reader is promised: a line that is one whole record is read, every other line is skipped.\<close>

definition line_records :: "append list \<Rightarrow> json list" where
  "line_records line = (case line of [a] \<Rightarrow> if whole a then [sort_json (fst a)] else [] | _ \<Rightarrow> [])"

fun survivors :: "append list \<Rightarrow> append list \<Rightarrow> json list" where
  "survivors line [] = line_records line"
| "survivors line (a # as) =
     (if ended a then line_records (line @ [a]) @ survivors [] as
      else if snd a = 0 then survivors line as
      else survivors (line @ [a]) as)"

definition line_text :: "append list \<Rightarrow> string" where
  "line_text line = concat (map (\<lambda>a. take (snd a) (dumps (fst a))) line)"

definition started :: "append \<Rightarrow> bool" where
  "started a \<longleftrightarrow> loggable (fst a) \<and> snd a \<noteq> 0"

lemma append_text_ended: "append_text a = take (snd a) (dumps (fst a)) @ (if ended a then [newline] else [])"
  by (simp add: append_text_def record_line_def ended_def take_Cons')

lemma started_piece:
  assumes "started a"
  shows "plain_record (sort_json (fst a))" "jwrite (sort_json (fst a)) = take (snd a) (dumps (fst a)) @ drop (snd a) (dumps (fst a))"
    "take (snd a) (dumps (fst a)) \<noteq> []" "drop (snd a) (dumps (fst a)) = [] \<longleftrightarrow> whole a"
proof -
  show p: "plain_record (sort_json (fst a))" using assms by (simp add: started_def loggable_def)
  from plain_recordD(3) [OF p] show "take (snd a) (dumps (fst a)) \<noteq> []" using assms by (auto simp: started_def dumps_def)
qed (simp_all add: dumps_def whole_def)

lemma line_blocks: "list_all started line \<Longrightarrow> blocker (line_text line)"
proof (induction line)
  case (Cons a line)
  then show ?case using piece_blocks(1) [OF started_piece(1,2,3)] by (simp add: line_text_def)
qed (simp add: line_text_def)

lemma parse_record_line: "list_all started line \<Longrightarrow> List.map_filter parse_record [line_text line] = line_records line"
proof (cases line)
  case Nil
  then show ?thesis by (simp add: line_text_def line_records_def parse_record_def loads_def skip_ws_def parse_value.simps(2) map_filter_simps)
next
  case (Cons a rest)
  assume s: "list_all started line"
  with Cons have a: "started a" and r: "list_all started rest" by simp_all
  let ?p = "take (snd a) (dumps (fst a))"
  have t: "line_text line = ?p @ line_text rest" by (simp add: Cons line_text_def)
  have "skip_ws (line_text line) = line_text line" by (rule blocker_skip_ws [OF line_blocks [OF s]])
  moreover have "blocker (line_text rest)" by (rule line_blocks [OF r])
  note pb = piece_blocks(2) [OF started_piece(1-3) [OF a] this]
  show ?thesis
  proof (cases "rest = [] \<and> whole a")
    case True
    then have "line_text line = dumps (fst a)" by (simp add: Cons line_text_def whole_def)
    moreover have "loads (dumps (fst a)) = Some (sort_json (fst a))"
      using a by (intro loads_dumps) (simp add: started_def loggable_def)
    moreover have "sort_json (fst a) \<noteq> JNull" using plain_recordD(2) [OF started_piece(1) [OF a]] by auto
    ultimately show ?thesis using True
      by (auto simp: Cons line_records_def parse_record_def map_filter_simps split: json.split)
  next
    case False
    have "loads (line_text line) = None"
    proof (rule ccontr)
      assume "loads (line_text line) \<noteq> None"
      then obtain f v r where v: "parse_value f (?p @ line_text rest) = Some (v, r)" "skip_ws r = []"
        using t blocker_skip_ws [OF line_blocks [OF s]] by (auto simp: loads_def split: option.splits if_splits)
      with pb [OF v(1)] have "whole a" "line_text rest = []"
        using started_piece(4) [OF a] blocker_skip_ws [OF line_blocks [OF r]] by auto
      moreover have "rest = []"
        using \<open>line_text rest = []\<close> r started_piece(3) [of "hd rest"] by (cases rest) (auto simp: line_text_def)
      ultimately show False using False by simp
    qed
    then show ?thesis using False Cons
      by (auto simp: line_records_def parse_record_def map_filter_simps split: list.split)
  qed
qed

lemma printable_line: "list_all started line \<Longrightarrow> list_all printable (line_text line)"
proof (induction line)
  case (Cons a line)
  then have "list_all printable (dumps (fst a))"
    using printable_jwrite(1) [OF wf_sort_json(1)] by (simp add: started_def loggable_def dumps_def)
  with Cons show ?case by (auto simp: line_text_def list_all_iff dest: in_set_takeD)
qed (simp add: line_text_def)

lemma read_lines_from:
  "list_all started line \<Longrightarrow> \<forall>a \<in> set as. loggable (fst a) \<Longrightarrow>
     read_lines (line_text line @ log_text as) = survivors line as"
proof (induction as arbitrary: line)
  case Nil
  then show ?case
    using split_lines_line(1) [OF printable_line [OF Nil(1)]] parse_record_line [OF Nil(1)]
    by (simp add: read_lines_def log_text_def)
next
  case (Cons a as)
  have split: "line_text line @ log_text (a # as) = line_text (line @ [a]) @ (if ended a then [newline] else []) @ log_text as"
    by (simp add: line_text_def log_text_def append_text_ended)
  show ?case
  proof (cases "ended a")
    case True
    then have s: "list_all started (line @ [a])" using Cons.prems by (auto simp: started_def [of a] ended_def)
    have "read_lines (line_text (line @ [a]) @ newline # log_text as) = line_records (line @ [a]) @ read_lines (log_text as)"
      using split_lines_line(2) [OF printable_line [OF s]] parse_record_line [OF s]
      by (simp add: read_lines_def map_filter_simps split: option.splits)
    moreover have "read_lines (log_text as) = survivors [] as"
      using Cons.IH [of "[]"] Cons.prems(2) by (simp add: line_text_def)
    ultimately show ?thesis using True split by simp
  next
    case False
    show ?thesis
    proof (cases "snd a = 0")
      case True
      then have "line_text (line @ [a]) = line_text line" by (simp add: line_text_def)
      with True False split Cons show ?thesis by simp
    next
      case g: False
      then have s: "list_all started (line @ [a])" using Cons.prems by (auto simp: started_def [of a])
      from g False split Cons.IH [OF s] Cons.prems(2) show ?thesis by simp
    qed
  qed
qed

text \<open>
  C17. Reading a log after any crashes: a line that is exactly one whole record gives that record,
  its keys sorted; a line made of pieces of records (a torn append, and what later appends glued to
  it) gives nothing. So nothing is ever read that was not appended, but a record glued to a torn one
  is lost with it.
\<close>
theorem log_replay_spec:
  assumes "\<forall>a \<in> set as. loggable (fst a)"
  shows "read_lines (log_text as) = survivors [] as"
  using read_lines_from [of "[]" as] assms by (simp add: line_text_def)

definition sample_record :: "string \<Rightarrow> json" where
  "sample_record t = JObj [(''task_id'', JStr t), (''blob'', JStr ''b'')]"

lemma sample_record_loggable: "loggable (sample_record t)"
  by (simp add: loggable_def sample_record_def plain_record_def esc_char_def is_ws_def sort_json.simps)

lemma length_sample_record:
  "length (dumps (sample_record ''a'')) = 26" "length (dumps (sample_record ''b'')) = 26"
  by code_simp+

theorem log_replay_spec_witness:
  "let a = sample_record ''a''; b = sample_record ''b'' in
     read_lines (log_text [(a, 1000), (b, 5), (a, 1000), (b, 1000)]) = [sort_json a, sort_json b]"
proof -
  have "\<forall>x \<in> set [(sample_record ''a'', 1000), (sample_record ''b'', 5), (sample_record ''a'', 1000), (sample_record ''b'', 1000)].
      loggable (fst x)" by (simp add: sample_record_loggable)
  from log_replay_spec [OF this] show ?thesis
    by (simp add: ended_def line_records_def whole_def Let_def length_sample_record)
qed

text \<open>A record appended after a torn one is lost: the code writes no line feed before it.\<close>

lemma line_records_torn: "\<not> whole a \<Longrightarrow> line_records (line @ [a]) = []"
  by (cases line) (auto simp: line_records_def split: list.split)

theorem torn_append_swallows_next:
  assumes "loggable a" "loggable b" "0 < n" "n \<le> length (dumps a)"
  shows "read_lines (append_text (a, n) @ record_line b) = []"
proof -
  have "append_text (b, length (record_line b)) = record_line b" by (simp add: append_text_def)
  moreover have "read_lines (log_text [(a, n), (b, length (record_line b))]) = []"
    using assms read_lines_from [of "[]" "[(a, n), (b, length (record_line b))]"]
    by (auto simp: line_text_def ended_def record_line_def line_records_def)
  ultimately show ?thesis by (simp add: log_text_def)
qed

end
