(* ===== verification/Durable_Plan.thy ===== *)
theory Durable_Plan
  imports Encoding Partitioning
begin

text \<open>
  The durable form of a plan (\<open>core/plan.py\<close>) and of the services it names (\<open>core/services.py\<close>):
  the JSON documents, reading them back, and the content-addressed task ids.

  A mapping of the source is an association list with distinct keys. Decoding returns its keys
  sorted, as the document holds them (\<open>canon_...\<close>); as dictionaries both are equal. Numbers of the
  execution metadata are kept as their JSON value. Documents whose values have another JSON type
  than the writer's are refused with a \<open>TypeError\<close>, where Python would sometimes go on with a value
  of that type. SHA-256 is the argument \<open>sha\<close>, a function from bytes to its hexadecimal text.
\<close>

section \<open>Access to a document\<close>

definition req_field :: "json \<Rightarrow> string \<Rightarrow> json result" where
  "req_field d k = (case json_get d k of Some v \<Rightarrow> Inr v | None \<Rightarrow> Inl (KeyError (py_repr k)))"

definition opt_field :: "json \<Rightarrow> string \<Rightarrow> json \<Rightarrow> json" where
  "opt_field d k fallback = (case json_get d k of Some v \<Rightarrow> v | None \<Rightarrow> fallback)"

fun as_str :: "json \<Rightarrow> string result" where
  "as_str (JStr s) = Inr s"
| "as_str _ = Inl (TypeError ''expected a string'')"

text \<open>\<open>int(v)\<close> of an integer, or of the text of one.\<close>

fun as_int :: "json \<Rightarrow> int result" where
  "as_int (JInt i) = Inr i"
| "as_int (JStr s) = (if int_token s then Inr (int_value s)
     else Inl (ValueError (''invalid literal for int() with base 10: '' @ py_repr s)))"
| "as_int _ = Inl (TypeError ''expected an integer'')"

fun as_list :: "json \<Rightarrow> json list result" where
  "as_list (JArr xs) = Inr xs"
| "as_list _ = Inl (TypeError ''expected an array'')"

fun as_obj :: "json \<Rightarrow> (string \<times> json) list result" where
  "as_obj (JObj kvs) = Inr kvs"
| "as_obj _ = Inl (TypeError ''expected an object'')"

definition as_dict :: "(json \<Rightarrow> 'a result) \<Rightarrow> json \<Rightarrow> (string \<times> 'a) list result" where
  "as_dict f v = result_bind (as_obj v) (traverse (\<lambda>(k, x). result_bind (f x) (\<lambda>y. Inr (k, y))))"

definition as_list_of :: "(json \<Rightarrow> 'a result) \<Rightarrow> json \<Rightarrow> 'a list result" where
  "as_list_of f v = result_bind (as_list v) (traverse f)"

definition dict_json :: "('a \<Rightarrow> json) \<Rightarrow> (string \<times> 'a) list \<Rightarrow> json" where
  "dict_json f d = JObj (map (\<lambda>(k, v). (k, f v)) d)"

section \<open>Services\<close>

record launch =
  la_argv :: "string list"
  la_image :: "string option"
  la_inputs :: "string list"
  la_env :: "(string \<times> string) list"
  la_resources :: "(string \<times> json) list"

record service_spec =
  sv_name :: string
  sv_kind :: string
  sv_check :: string
  sv_ports :: "int \<times> int"
  sv_launch :: "launch option"
  sv_timeout_s :: json

definition opt_json :: "('a \<Rightarrow> json) \<Rightarrow> 'a option \<Rightarrow> json" where
  "opt_json f x = (case x of None \<Rightarrow> JNull | Some y \<Rightarrow> f y)"

definition as_opt :: "(json \<Rightarrow> 'a result) \<Rightarrow> json \<Rightarrow> 'a option result" where
  "as_opt f v = (if v = JNull then Inr None else result_bind (f v) (\<lambda>x. Inr (Some x)))"

definition launch_json :: "launch \<Rightarrow> json" where
  "launch_json l = JObj
     [(''argv'', JArr (map JStr (la_argv l))),
      (''env'', dict_json JStr (sort_key fst (la_env l))),
      (''image'', opt_json JStr (la_image l)),
      (''inputs'', JArr (map JStr (la_inputs l))),
      (''resources'', dict_json (\<lambda>v. v) (sort_key fst (la_resources l)))]"

text \<open>\<open>cls(**doc)\<close> refuses a keyword that is not a field.\<close>

definition known_fields :: "string list \<Rightarrow> json \<Rightarrow> unit result" where
  "known_fields names d = result_bind (as_obj d) (\<lambda>kvs.
     case List.find (\<lambda>k. k \<notin> set names) (map fst kvs) of
       None \<Rightarrow> Inr ()
     | Some k \<Rightarrow> Inl (TypeError (''got an unexpected keyword argument '' @ py_repr k)))"

definition launch_from_json :: "json \<Rightarrow> launch result" where
  "launch_from_json d =
     result_bind (known_fields [''argv'', ''env'', ''image'', ''inputs'', ''resources''] d) (\<lambda>_.
     case json_get d ''argv'' of
       None \<Rightarrow> Inl (TypeError (''missing 1 required positional argument: '' @ py_repr ''argv''))
     | Some a \<Rightarrow>
         result_bind (as_list_of as_str a) (\<lambda>argv.
         result_bind (as_opt as_str (opt_field d ''image'' JNull)) (\<lambda>image.
         result_bind (as_list_of as_str (opt_field d ''inputs'' (JArr []))) (\<lambda>inputs.
         result_bind (as_dict as_str (opt_field d ''env'' (JObj []))) (\<lambda>env.
         result_bind (as_dict Inr (opt_field d ''resources'' (JObj []))) (\<lambda>resources.
           Inr \<lparr>la_argv = argv, la_image = image, la_inputs = inputs, la_env = env, la_resources = resources\<rparr>))))))"

definition service_json :: "service_spec \<Rightarrow> json" where
  "service_json s = JObj
     [(''check'', JStr (sv_check s)), (''kind'', JStr (sv_kind s)),
      (''launch'', opt_json launch_json (sv_launch s)), (''name'', JStr (sv_name s)),
      (''ports'', JArr [JInt (fst (sv_ports s)), JInt (snd (sv_ports s))]), (''timeout_s'', sv_timeout_s s)]"

text \<open>\<open>__post_init__\<close> unpacks exactly two ports.\<close>

definition as_ports :: "json \<Rightarrow> (int \<times> int) result" where
  "as_ports v = result_bind (as_list v) (\<lambda>ps. case ps of
       [a, b] \<Rightarrow> result_bind (as_int a) (\<lambda>low. result_bind (as_int b) (\<lambda>high. Inr (low, high)))
     | _ \<Rightarrow> Inl (ValueError ''expected 2 ports''))"

definition service_from_json :: "json \<Rightarrow> service_spec result" where
  "service_from_json d =
     result_bind (req_field d ''launch'') (\<lambda>l.
     result_bind (as_opt launch_from_json l) (\<lambda>launch.
     result_bind (known_fields [''check'', ''kind'', ''launch'', ''name'', ''ports'', ''timeout_s''] d) (\<lambda>_.
     case (json_get d ''name'', json_get d ''kind'') of
       (Some n, Some k) \<Rightarrow>
         result_bind (as_str n) (\<lambda>name. result_bind (as_str k) (\<lambda>kind.
         result_bind (as_str (opt_field d ''check'' (JStr ''tcp''))) (\<lambda>check.
         result_bind (as_ports (opt_field d ''ports'' (JArr [JInt 10000, JInt 10100]))) (\<lambda>ports.
           Inr \<lparr>sv_name = name, sv_kind = kind, sv_check = check, sv_ports = ports, sv_launch = launch,
                sv_timeout_s = opt_field d ''timeout_s'' (JFloat ''600.0'')\<rparr>))))
     | _ \<Rightarrow> Inl (TypeError ''missing a required positional argument''))))"

section \<open>Callables by reference or by value\<close>

record 'f op_spec =
  os_kind :: string
  os_ref :: string
  os_blob_b64 :: string
  os_live :: "'f option"

definition op_opaque :: "'f op_spec \<Rightarrow> bool" where
  "op_opaque op \<longleftrightarrow> os_kind op = ''opaque''"

definition op_identity :: "'f op_spec \<Rightarrow> string result" where
  "op_identity op =
     (if os_kind op = ''ref'' then Inr (''ref'' @ [CHR 0x00] @ utf8 (os_ref op))
      else result_bind (b64decode (os_blob_b64 op)) (\<lambda>b. Inr (''opaque'' @ [CHR 0x00] @ b)))"

text \<open>
  The interpreter's imports and \<open>cloudpickle\<close>, as arguments: importing a module, an attribute of an
  object and unpickling, each of which may raise.
\<close>

record 'f interpreter =
  in_import :: "string \<Rightarrow> 'f result"
  in_getattr :: "'f \<Rightarrow> string \<Rightarrow> 'f result"
  in_loads :: "string \<Rightarrow> 'f result"
  in_dumps :: "'f \<Rightarrow> string"
  in_module :: "'f \<Rightarrow> string option"
  in_qualname :: "'f \<Rightarrow> string option"

fun str_split :: "char \<Rightarrow> string \<Rightarrow> string list" where
  "str_split sep [] = [[]]"
| "str_split sep (c # cs) =
     (if c = sep then [] # str_split sep cs
      else (case str_split sep cs of x # xs \<Rightarrow> (c # x) # xs | [] \<Rightarrow> [[c]]))"

fun get_path :: "'f interpreter \<Rightarrow> 'f \<Rightarrow> string list \<Rightarrow> 'f result" where
  "get_path env obj [] = Inr obj"
| "get_path env obj (p # ps) = result_bind (in_getattr env obj p) (\<lambda>o'. get_path env o' ps)"

definition op_resolve :: "'f interpreter \<Rightarrow> 'f op_spec \<Rightarrow> 'f result" where
  "op_resolve env op =
     (case os_live op of
        Some f \<Rightarrow> Inr f
      | None \<Rightarrow>
          if os_kind op = ''ref'' then
            (case str_partition '':'' (os_ref op) of
               (mod_name, _, qual) \<Rightarrow>
                 if qual = [] then Inl (ValueError (''OpSpec ref must be '' @ py_repr ''module:qualname'' @ '', got '' @ py_repr (os_ref op)))
                 else result_bind (in_import env mod_name) (\<lambda>m. get_path env m (str_split (CHR ''.'') qual)))
          else result_bind (b64decode (os_blob_b64 op)) (in_loads env))"

definition op_from_ref :: "string \<Rightarrow> 'f op_spec" where
  "op_from_ref ref = \<lparr>os_kind = ''ref'', os_ref = ref, os_blob_b64 = [], os_live = None\<rparr>"

text \<open>\<open>except (ImportError, AttributeError, ValueError)\<close>\<close>

fun is_lookup_error :: "exn \<Rightarrow> bool" where
  "is_lookup_error (ValueError _) = True"
| "is_lookup_error (UserError n _ _ _) = (n \<in> {''ImportError'', ''ModuleNotFoundError'', ''AttributeError''})"
| "is_lookup_error _ = False"

definition op_from_callable :: "'f interpreter \<Rightarrow> 'f \<Rightarrow> bool \<Rightarrow> 'f op_spec result" where
  "op_from_callable env fn prefer_ref =
     (let opaque = Inr \<lparr>os_kind = ''opaque'', os_ref = [], os_blob_b64 = b64encode (in_dumps env fn), os_live = None\<rparr>
      in case (in_module env fn, in_qualname env fn) of
           (Some m, Some qual) \<Rightarrow>
             if prefer_ref \<and> m \<noteq> [] \<and> qual \<noteq> [] \<and> \<not> str_contains ''<locals>'' qual \<and> m \<noteq> ''__main__''
             then (case op_resolve env (op_from_ref (m @ '':'' @ qual)) of
                     Inr f \<Rightarrow> if f = fn then Inr (op_from_ref (m @ '':'' @ qual)) else opaque
                   | Inl e \<Rightarrow> if is_lookup_error e then opaque else Inl e)
             else opaque
         | _ \<Rightarrow> opaque)"

definition op_json :: "'f op_spec \<Rightarrow> json" where
  "op_json op = JObj [(''kind'', JStr (os_kind op)), (''ref'', JStr (os_ref op)), (''blob_b64'', JStr (os_blob_b64 op))]"

definition op_from_json :: "json \<Rightarrow> 'f op_spec result" where
  "op_from_json d =
     result_bind (req_field d ''kind'') (\<lambda>k. result_bind (as_str k) (\<lambda>kind.
     result_bind (as_str (opt_field d ''ref'' (JStr []))) (\<lambda>ref.
     result_bind (as_str (opt_field d ''blob_b64'' (JStr []))) (\<lambda>blob.
       if kind = ''ref'' \<or> kind = ''opaque''
       then Inr \<lparr>os_kind = kind, os_ref = ref, os_blob_b64 = blob, os_live = None\<rparr>
       else Inl (ValueError (''unknown OpSpec kind '' @ py_repr kind))))))"

section \<open>Partitions as JSON\<close>

definition partition_json :: "partition \<Rightarrow> json" where
  "partition_json p = JObj
     ([(''uri'', JStr (uri p)), (''tree'', JStr (tree p)),
       (''entry_start'', JInt (entry_start p)), (''entry_stop'', JInt (entry_stop p))] @
      (case (blind_step p, blind_n_steps p) of
         (Some s, Some n) \<Rightarrow> [(''blind_step'', JInt s), (''blind_n_steps'', JInt n)] | _ \<Rightarrow> []) @
      (case blind_limit p of Some l \<Rightarrow> [(''blind_limit'', JInt l)] | None \<Rightarrow> []))"

definition partition_from_json :: "json \<Rightarrow> partition result" where
  "partition_from_json d =
     (if json_get d ''blind_step'' \<noteq> None then
        result_bind (req_field d ''uri'') (\<lambda>u. result_bind (as_str u) (\<lambda>u.
        result_bind (as_str (opt_field d ''tree'' (JStr []))) (\<lambda>t.
        result_bind (req_field d ''blind_step'') (\<lambda>s. result_bind (as_int s) (\<lambda>s.
        result_bind (req_field d ''blind_n_steps'') (\<lambda>n. result_bind (as_int n) (\<lambda>n.
        result_bind (partition_blind u t s n) (\<lambda>blind.
          case json_get d ''blind_limit'' of
            None \<Rightarrow> Inr blind
          | Some l \<Rightarrow> result_bind (as_int l) (\<lambda>l. Inr (first blind l))))))))))
      else
        result_bind (req_field d ''uri'') (\<lambda>u. result_bind (as_str u) (\<lambda>u.
        result_bind (as_str (opt_field d ''tree'' (JStr []))) (\<lambda>t.
        result_bind (as_int (opt_field d ''entry_start'' (JInt 0))) (\<lambda>a.
        result_bind (as_int (opt_field d ''entry_stop'' (JInt 0))) (\<lambda>b.
          Inr (mk_partition u t a b)))))))"

definition partition_bytes :: "partition \<Rightarrow> string" where
  "partition_bytes p = dumps (partition_json p)"

section \<open>Content-addressed ids\<close>

definition sha256_hex :: "(string \<Rightarrow> string) \<Rightarrow> string list \<Rightarrow> string" where
  "sha256_hex sha parts = sha (frame parts)"

section \<open>The single-stage plan\<close>

record 'f durable_plan =
  dp_ir :: string
  dp_process :: "'f op_spec"
  dp_combine :: "'f op_spec"
  dp_empty :: "'f op_spec"
  dp_partitions :: "partition list"
  dp_read_columns :: "string list"
  dp_stopping :: "(string \<times> json) list"
  dp_file_locality :: "(string \<times> string) list"
  dp_resource_hints :: "(string \<times> json) list"
  dp_format_version :: int
  dp_services :: "service_spec list"
  dp_finalize :: "'f op_spec option"

definition dp_opaque :: "'f durable_plan \<Rightarrow> bool" where
  "dp_opaque pl \<longleftrightarrow> list_ex (\<lambda>op. case op of None \<Rightarrow> False | Some op \<Rightarrow> op_opaque op)
     [Some (dp_process pl), Some (dp_combine pl), Some (dp_empty pl), dp_finalize pl]"

definition task_domain :: string where "task_domain = ''graphed-task-v1''"

definition dp_task_parts :: "'f durable_plan \<Rightarrow> partition \<Rightarrow> string list result" where
  "dp_task_parts pl p = result_bind (op_identity (dp_process pl)) (\<lambda>ident.
     Inr [task_domain, dp_ir pl, ident, partition_bytes p])"

definition dp_task_id :: "(string \<Rightarrow> string) \<Rightarrow> 'f durable_plan \<Rightarrow> partition \<Rightarrow> string result" where
  "dp_task_id sha pl p = result_bind (dp_task_parts pl p) (\<lambda>parts. Inr (sha256_hex sha parts))"

definition dp_ir_fingerprint :: "(string \<Rightarrow> string) \<Rightarrow> 'f durable_plan \<Rightarrow> string" where
  "dp_ir_fingerprint sha pl = sha256_hex sha [dp_ir pl]"

definition with_partitions :: "partition list \<Rightarrow> 'f durable_plan \<Rightarrow> 'f durable_plan" where
  "with_partitions ps pl = pl\<lparr>dp_partitions := ps\<rparr>"

definition for_dataset :: "dataset \<Rightarrow> int \<Rightarrow> 'f durable_plan \<Rightarrow> 'f durable_plan result" where
  "for_dataset ds chunk_size pl = result_bind (partition_dataset ds chunk_size) (\<lambda>ps. Inr (with_partitions ps pl))"

definition for_datasets :: "dataset list \<Rightarrow> int \<Rightarrow> 'f durable_plan \<Rightarrow> 'f durable_plan result" where
  "for_datasets dss chunk_size pl = result_bind (partition_datasets dss chunk_size) (\<lambda>ps. Inr (with_partitions ps pl))"

definition tail_fields :: "service_spec list \<Rightarrow> 'f op_spec option \<Rightarrow> (string \<times> json) list" where
  "tail_fields services finalize =
     (if services \<noteq> [] then [(''services'', JArr (map service_json services))] else []) @
     (case finalize of Some op \<Rightarrow> [(''finalize'', op_json op)] | None \<Rightarrow> [])"

definition dp_doc :: "'f durable_plan \<Rightarrow> json" where
  "dp_doc pl = JObj
     ([(''format_version'', JInt (dp_format_version pl)),
       (''ir_b64'', JStr (b64encode (dp_ir pl))),
       (''process'', op_json (dp_process pl)),
       (''combine'', op_json (dp_combine pl)),
       (''empty'', op_json (dp_empty pl)),
       (''partitions'', JArr (map partition_json (dp_partitions pl))),
       (''read_columns'', JArr (map JStr (dp_read_columns pl))),
       (''stopping'', dict_json (\<lambda>v. v) (dp_stopping pl)),
       (''file_locality'', dict_json JStr (dp_file_locality pl)),
       (''resource_hints'', dict_json (\<lambda>v. v) (dp_resource_hints pl))] @
      tail_fields (dp_services pl) (dp_finalize pl))"

definition dp_to_bytes :: "'f durable_plan \<Rightarrow> string" where
  "dp_to_bytes pl = dumps (dp_doc pl)"

definition dp_fingerprint :: "(string \<Rightarrow> string) \<Rightarrow> 'f durable_plan \<Rightarrow> string" where
  "dp_fingerprint sha pl = sha256_hex sha [dp_to_bytes pl]"

definition json_loads :: "string \<Rightarrow> json result" where
  "json_loads s = (case loads s of Some d \<Rightarrow> Inr d | None \<Rightarrow> Inl (UserError ''JSONDecodeError'' [] None []))"

definition finalize_from_json :: "json \<Rightarrow> 'f op_spec option result" where
  "finalize_from_json d = as_opt op_from_json (opt_field d ''finalize'' JNull)"

definition services_from_json :: "json \<Rightarrow> service_spec list result" where
  "services_from_json d = as_list_of service_from_json (opt_field d ''services'' (JArr []))"

definition dp_from_doc :: "json \<Rightarrow> 'f durable_plan result" where
  "dp_from_doc d =
     result_bind (req_field d ''ir_b64'') (\<lambda>x. result_bind (as_str x) (\<lambda>x. result_bind (b64decode x) (\<lambda>ir.
     result_bind (req_field d ''process'') (\<lambda>x. result_bind (op_from_json x) (\<lambda>process.
     result_bind (req_field d ''combine'') (\<lambda>x. result_bind (op_from_json x) (\<lambda>combine.
     result_bind (req_field d ''empty'') (\<lambda>x. result_bind (op_from_json x) (\<lambda>empty'.
     result_bind (req_field d ''partitions'') (\<lambda>x. result_bind (as_list_of partition_from_json x) (\<lambda>partitions.
     result_bind (req_field d ''read_columns'') (\<lambda>x. result_bind (as_list_of as_str x) (\<lambda>columns.
     result_bind (req_field d ''stopping'') (\<lambda>x. result_bind (as_dict Inr x) (\<lambda>stopping.
     result_bind (req_field d ''file_locality'') (\<lambda>x. result_bind (as_dict as_str x) (\<lambda>locality.
     result_bind (req_field d ''resource_hints'') (\<lambda>x. result_bind (as_dict Inr x) (\<lambda>hints.
     result_bind (req_field d ''format_version'') (\<lambda>x. result_bind (as_int x) (\<lambda>version.
     result_bind (services_from_json d) (\<lambda>services.
     result_bind (finalize_from_json d) (\<lambda>finalize.
       Inr \<lparr>dp_ir = ir, dp_process = process, dp_combine = combine, dp_empty = empty', dp_partitions = partitions,
            dp_read_columns = columns, dp_stopping = stopping, dp_file_locality = locality,
            dp_resource_hints = hints, dp_format_version = version, dp_services = services, dp_finalize = finalize\<rparr>)))))))))))))))))))))))"

definition dp_from_bytes :: "string \<Rightarrow> 'f durable_plan result" where
  "dp_from_bytes data = result_bind (json_loads data) dp_from_doc"

section \<open>The multi-stage plan\<close>

record 'f stage_spec =
  ss_kind :: string
  ss_inputs :: "int list"
  ss_process :: "'f op_spec"
  ss_routing :: "(string \<times> json) list"
  ss_tasks :: "task list"

definition task_json :: "task \<Rightarrow> json" where
  "task_json t = JObj [(''key'', JInt (task_key t)), (''partition'', partition_json (task_partition t))]"

definition task_from_json :: "json \<Rightarrow> task result" where
  "task_from_json d =
     result_bind (req_field d ''key'') (\<lambda>k. result_bind (as_int k) (\<lambda>k.
     result_bind (req_field d ''partition'') (\<lambda>p. result_bind (partition_from_json p) (\<lambda>p.
       Inr \<lparr>task_key = k, task_partition = p\<rparr>))))"

definition stage_json :: "'f stage_spec \<Rightarrow> json" where
  "stage_json s = JObj
     [(''kind'', JStr (ss_kind s)), (''inputs'', JArr (map JInt (ss_inputs s))),
      (''process'', op_json (ss_process s)), (''routing'', dict_json (\<lambda>v. v) (ss_routing s)),
      (''tasks'', JArr (map task_json (ss_tasks s)))]"

definition stage_from_json :: "json \<Rightarrow> 'f stage_spec result" where
  "stage_from_json d =
     result_bind (req_field d ''kind'') (\<lambda>x. result_bind (as_str x) (\<lambda>kind.
     result_bind (req_field d ''inputs'') (\<lambda>x. result_bind (as_list_of as_int x) (\<lambda>inputs.
     result_bind (req_field d ''process'') (\<lambda>x. result_bind (op_from_json x) (\<lambda>process.
     result_bind (req_field d ''routing'') (\<lambda>x. result_bind (as_dict Inr x) (\<lambda>routing.
     result_bind (req_field d ''tasks'') (\<lambda>x. result_bind (as_list_of task_from_json x) (\<lambda>tasks.
       Inr \<lparr>ss_kind = kind, ss_inputs = inputs, ss_process = process, ss_routing = routing, ss_tasks = tasks\<rparr>))))))))))"

record 'f durable_plan_v2 =
  v2_ir :: string
  v2_stages :: "'f stage_spec list"
  v2_format_version :: string
  v2_services :: "service_spec list"
  v2_finalize :: "'f op_spec option"

definition format_version_v2 :: string where "format_version_v2 = ''graphed-plan/2''"

definition task_domain_v2 :: string where "task_domain_v2 = ''graphed-task-v2''"

definition v2_ir_fingerprint :: "(string \<Rightarrow> string) \<Rightarrow> 'f durable_plan_v2 \<Rightarrow> string" where
  "v2_ir_fingerprint sha pl = sha256_hex sha [v2_ir pl]"

text \<open>\<open>self.stages[stage_index]\<close> with Python's negative indices.\<close>

definition py_index :: "'a list \<Rightarrow> int \<Rightarrow> 'a result" where
  "py_index xs i = (let j = (if i < 0 then i + int (length xs) else i)
     in if 0 \<le> j \<and> j < int (length xs) then Inr (xs ! nat j) else Inl (IndexError ''tuple index out of range''))"

definition v2_task_parts :: "'f durable_plan_v2 \<Rightarrow> int \<Rightarrow> task \<Rightarrow> string list result" where
  "v2_task_parts pl i t =
     result_bind (py_index (v2_stages pl) i) (\<lambda>stage.
     result_bind (op_identity (ss_process stage)) (\<lambda>ident.
       Inr [task_domain_v2, v2_ir pl, dec i, utf8 (ss_kind stage), ident,
         dumps (dict_json (\<lambda>v. v) (ss_routing stage)), partition_bytes (task_partition t), dec (task_key t)]))"

definition v2_task_id :: "(string \<Rightarrow> string) \<Rightarrow> 'f durable_plan_v2 \<Rightarrow> int \<Rightarrow> task \<Rightarrow> string result" where
  "v2_task_id sha pl i t = result_bind (v2_task_parts pl i t) (\<lambda>parts. Inr (sha256_hex sha parts))"

definition v2_doc :: "'f durable_plan_v2 \<Rightarrow> json" where
  "v2_doc pl = JObj
     ([(''format_version'', JStr (v2_format_version pl)),
       (''ir_b64'', JStr (b64encode (v2_ir pl))),
       (''stages'', JArr (map stage_json (v2_stages pl)))] @
      tail_fields (v2_services pl) (v2_finalize pl))"

definition v2_to_bytes :: "'f durable_plan_v2 \<Rightarrow> string" where
  "v2_to_bytes pl = dumps (v2_doc pl)"

definition v2_from_doc :: "json \<Rightarrow> 'f durable_plan_v2 result" where
  "v2_from_doc d =
     (if json_get d ''format_version'' \<noteq> Some (JStr format_version_v2)
      then Inl (ValueError (''not a '' @ py_repr format_version_v2 @ '' blob (format_version='' @
             json_repr (opt_field d ''format_version'' JNull) @
             ''); a V1 DurablePlan blob must be read by DurablePlan.from_bytes''))
      else
        result_bind (req_field d ''ir_b64'') (\<lambda>x. result_bind (as_str x) (\<lambda>x. result_bind (b64decode x) (\<lambda>ir.
        result_bind (req_field d ''stages'') (\<lambda>x. result_bind (as_list_of stage_from_json x) (\<lambda>stages.
        result_bind (services_from_json d) (\<lambda>services.
        result_bind (finalize_from_json d) (\<lambda>finalize.
          Inr \<lparr>v2_ir = ir, v2_stages = stages, v2_format_version = format_version_v2, v2_services = services,
               v2_finalize = finalize\<rparr>))))))))"

definition v2_from_bytes :: "string \<Rightarrow> 'f durable_plan_v2 result" where
  "v2_from_bytes data = result_bind (json_loads data) v2_from_doc"

text \<open>The value of a run, from the payloads of its last stage; \<open>unpickle\<close> is \<open>pickle.loads\<close>.\<close>

datatype 'v run_value = One 'v | Many "'v list"

definition v2_value :: "(string \<Rightarrow> 'v result) \<Rightarrow> 'f durable_plan_v2 \<Rightarrow> string list \<Rightarrow> 'v run_value result" where
  "v2_value unpickle pl payloads = result_bind (traverse unpickle payloads) (\<lambda>decoded.
     if v2_stages pl \<noteq> [] \<and> ss_kind (last (v2_stages pl)) = ''reduce''
     then (case decoded of
             [only] \<Rightarrow> Inr (One only)
           | [] \<Rightarrow> Inl (ValueError ''not enough values to unpack (expected 1, got 0)'')
           | _ \<Rightarrow> Inl (ValueError ''too many values to unpack (expected 1)''))
     else Inr (Many decoded))"

section \<open>Round trips\<close>

declare sort_json.simps(2) [simp del]

text \<open>What the decoders see of a sorted document.\<close>

lemma json_get_sorted [simp]:
  "distinct (map fst kvs) \<Longrightarrow> json_get (sort_json (JObj kvs)) k = map_option sort_json (map_of kvs k)"
  by (simp add: sort_json.simps(2) map_of_sort_key map_of_sort_members)

lemma req_field_sorted [simp]:
  "distinct (map fst kvs) \<Longrightarrow> map_of kvs k = Some v \<Longrightarrow> req_field (sort_json (JObj kvs)) k = Inr (sort_json v)"
  by (simp add: req_field_def)

lemma opt_field_sorted [simp]:
  "distinct (map fst kvs) \<Longrightarrow> opt_field (sort_json (JObj kvs)) k v = (case map_of kvs k of Some w \<Rightarrow> sort_json w | None \<Rightarrow> v)"
  by (simp add: opt_field_def split: option.split)

lemma known_fields_sorted [simp]:
  "set (map fst kvs) \<subseteq> set names \<Longrightarrow> known_fields names (sort_json (JObj kvs)) = Inr ()"
proof -
  assume "set (map fst kvs) \<subseteq> set names"
  then have "set (map fst (sort_key fst (sort_members kvs))) \<subseteq> set names"
    by (metis fst_sort_members list.set_map set_sort)
  then have "List.find (\<lambda>k. k \<notin> set names) (map fst (sort_key fst (sort_members kvs))) = None"
    by (simp add: find_None_iff image_subset_iff)
  then show ?thesis by (simp add: known_fields_def sort_json.simps(2))
qed

lemma insort_map: "insort_key fst (k, g v) (map (\<lambda>(k, v). (k, g v)) xs) = map (\<lambda>(k, v). (k, g v)) (insort_key fst (k, v) xs)"
  by (induction xs) auto

lemma sort_map: "sort_key fst (map (\<lambda>(k, v). (k, g v)) d) = map (\<lambda>(k, v). (k, g v)) (sort_key fst d)"
  by (induction d) (auto simp: insort_map [symmetric])

lemma sort_members_map: "sort_members (map (\<lambda>(k, v). (k, g v)) d) = map (\<lambda>(k, v). (k, sort_json (g v))) d"
  by (induction d) auto

lemma sort_dict_json: "sort_json (dict_json g d) = JObj (map (\<lambda>(k, v). (k, sort_json (g v))) (sort_key fst d))"
  by (simp add: dict_json_def sort_json.simps(2) sort_members_map sort_map)

lemma as_dict_sorted:
  assumes "\<And>v. v \<in> snd ` set d \<Longrightarrow> f (sort_json (g v)) = Inr (h v)"
  shows "as_dict f (sort_json (dict_json g d)) = Inr (map (\<lambda>(k, v). (k, h v)) (sort_key fst d))"
proof -
  have f: "f (sort_json (g v)) = Inr (h v)" if "(k, v) \<in> set d" for k v
    using that by (intro assms) force
  have "traverse (\<lambda>(k, x). result_bind (f x) (\<lambda>y. Inr (k, y))) (map (\<lambda>(k, v). (k, sort_json (g v))) xs)
      = Inr (map (\<lambda>(k, v). (k, h v)) xs)" if "set xs \<subseteq> set d" for xs
    using that by (induction xs) (auto simp: f)
  then show ?thesis by (simp add: as_dict_def sort_dict_json)
qed

lemma as_list_sorted:
  assumes "\<And>x. x \<in> set xs \<Longrightarrow> f (sort_json (g x)) = Inr (h x)"
  shows "as_list_of f (sort_json (JArr (map g xs))) = Inr (map h xs)"
proof -
  have "traverse f (map (\<lambda>x. sort_json (g x)) xs) = Inr (map h xs)" by (rule traverse_map_cong) (rule assms)
  then show ?thesis by (simp add: as_list_of_def comp_def)
qed

subsection \<open>Services\<close>

text \<open>Values that hold no object, so that sorting keeps them: the numbers of the metadata.\<close>

definition plain_json :: "json \<Rightarrow> bool" where
  "plain_json v \<longleftrightarrow> wf_json v \<and> sort_json v = v"

definition wf_dict :: "('a \<Rightarrow> bool) \<Rightarrow> (string \<times> 'a) list \<Rightarrow> bool" where
  "wf_dict ok d \<longleftrightarrow> distinct (map fst d) \<and> (\<forall>v \<in> snd ` set d. ok v)"

definition wf_launch :: "launch \<Rightarrow> bool" where
  "wf_launch l \<longleftrightarrow> wf_dict (\<lambda>_. True) (la_env l) \<and> wf_dict plain_json (la_resources l)"

definition canon_launch :: "launch \<Rightarrow> launch" where
  "canon_launch l = l\<lparr>la_env := sort_key fst (la_env l), la_resources := sort_key fst (la_resources l)\<rparr>"

definition wf_service :: "service_spec \<Rightarrow> bool" where
  "wf_service s \<longleftrightarrow> plain_json (sv_timeout_s s) \<and> (case sv_launch s of Some l \<Rightarrow> wf_launch l | None \<Rightarrow> True)"

definition canon_service :: "service_spec \<Rightarrow> service_spec" where
  "canon_service s = s\<lparr>sv_launch := map_option canon_launch (sv_launch s)\<rparr>"

lemma map_pair_id [simp]: "map (\<lambda>(k, v). (k, v)) d = d"
  by (induction d) auto

lemma as_opt_str: "as_opt as_str (sort_json (opt_json JStr x)) = Inr x"
  by (cases x) (simp_all add: as_opt_def opt_json_def)

lemma sort_dict_not_null [simp]: "sort_json (JObj kvs) \<noteq> JNull"
  by (simp add: sort_json.simps(2))

lemma sort_sorted_twice [simp]: "sort_key fst (sort_key fst d) = sort_key fst d"
  by (rule sort_key_sorted) simp

lemma launch_round_trip:
  assumes "wf_launch l"
  shows "launch_from_json (sort_json (launch_json l)) = Inr (canon_launch l)"
proof -
  have "as_dict as_str (sort_json (dict_json JStr (sort_key fst (la_env l)))) = Inr (sort_key fst (la_env l))"
    by (subst as_dict_sorted [where h = "\<lambda>v. v"]) simp_all
  moreover have "as_dict Inr (sort_json (dict_json (\<lambda>v. v) (sort_key fst (la_resources l)))) = Inr (sort_key fst (la_resources l))"
    using assms by (subst as_dict_sorted [where h = "\<lambda>v. v"]) (auto simp: wf_launch_def wf_dict_def plain_json_def)
  moreover have "as_list_of as_str (sort_json (JArr (map JStr xs))) = Inr xs" for xs
    by (subst as_list_sorted [where h = "\<lambda>x. x"]) simp_all
  ultimately show ?thesis
    by (simp add: launch_from_json_def launch_json_def as_opt_str canon_launch_def del: sort_json.simps(1))
qed

lemma service_round_trip:
  assumes "wf_service s"
  shows "service_from_json (sort_json (service_json s)) = Inr (canon_service s)"
proof -
  have "as_opt launch_from_json (sort_json (opt_json launch_json (sv_launch s))) = Inr (map_option canon_launch (sv_launch s))"
  proof (cases "sv_launch s")
    case (Some l)
    then have "sort_json (launch_json l) \<noteq> JNull" by (simp add: launch_json_def)
    with Some assms launch_round_trip [of l] show ?thesis by (simp add: as_opt_def opt_json_def wf_service_def)
  qed (simp add: as_opt_def opt_json_def)
  then show ?thesis
    using assms by (simp add: service_from_json_def service_json_def as_ports_def canon_service_def wf_service_def plain_json_def)
qed

subsection \<open>Callables, partitions, tasks, stages\<close>

definition wf_op :: "'f op_spec \<Rightarrow> bool" where
  "wf_op op \<longleftrightarrow> os_kind op = ''ref'' \<or> os_kind op = ''opaque''"

definition canon_op :: "'f op_spec \<Rightarrow> 'f op_spec" where
  "canon_op op = op\<lparr>os_live := None\<rparr>"

lemma op_round_trip: "wf_op op \<Longrightarrow> op_from_json (sort_json (op_json op)) = Inr (canon_op op)"
  by (auto simp: op_from_json_def op_json_def wf_op_def canon_op_def)

lemma partition_round_trip:
  assumes "wf_partition p"
  shows "partition_from_json (sort_json (partition_json p)) = Inr p"
proof (cases "blind_step p")
  case None
  with assms have "blind_n_steps p = None" "blind_limit p = None" by (simp_all add: wf_partition_def)
  with None show ?thesis
    by (simp add: partition_from_json_def partition_json_def mk_partition_def)
next
  case (Some s)
  with assms obtain n where n: "blind_n_steps p = Some n" "0 \<le> s" "s < n" "entry_start p = 0" "entry_stop p = 0"
    by (auto simp: wf_partition_def split: option.splits)
  then have b: "partition_blind (uri p) (tree p) s n = Inr (mk_partition (uri p) (tree p) 0 0\<lparr>blind_step := Some s, blind_n_steps := Some n\<rparr>)"
    by (simp add: partition_blind_def)
  show ?thesis
    using Some n b
    by (cases "blind_limit p") (simp_all add: partition_from_json_def partition_json_def first_def mk_partition_def)
qed

text \<open>Each of these pairs is a codec, on the document as it is written.\<close>

interpretation op: codec wf_op "\<lambda>op. sort_json (op_json op)" op_from_json canon_op
  by unfold_locales (rule op_round_trip)

interpretation part: codec wf_partition "\<lambda>p. sort_json (partition_json p)" partition_from_json "\<lambda>p. p"
  by unfold_locales (rule partition_round_trip)

interpretation service: codec wf_service "\<lambda>s. sort_json (service_json s)" service_from_json canon_service
  by unfold_locales (rule service_round_trip)

definition wf_task :: "task \<Rightarrow> bool" where
  "wf_task t \<longleftrightarrow> wf_partition (task_partition t)"

interpretation task: codec wf_task "\<lambda>t. sort_json (task_json t)" task_from_json "\<lambda>t. t"
  by unfold_locales (simp add: task_from_json_def task_json_def wf_task_def part.round_trip)

definition wf_stage :: "'f stage_spec \<Rightarrow> bool" where
  "wf_stage s \<longleftrightarrow> wf_op (ss_process s) \<and> wf_dict plain_json (ss_routing s) \<and> list_all wf_task (ss_tasks s)"

definition canon_stage :: "'f stage_spec \<Rightarrow> 'f stage_spec" where
  "canon_stage s = s\<lparr>ss_process := canon_op (ss_process s), ss_routing := sort_key fst (ss_routing s)\<rparr>"

lemma as_plain_dict: "wf_dict plain_json d \<Longrightarrow> as_dict Inr (sort_json (dict_json (\<lambda>v. v) d)) = Inr (sort_key fst d)"
  by (subst as_dict_sorted [where h = "\<lambda>v. v"]) (auto simp: wf_dict_def plain_json_def)

lemma as_codec_list:
  assumes "codec ok (\<lambda>x. sort_json (g x)) f h" "list_all ok xs"
  shows "as_list_of f (sort_json (JArr (map g xs))) = Inr (map h xs)"
  using assms by (intro as_list_sorted) (auto simp: codec_def list_all_iff)

lemma as_ints: "as_list_of as_int (sort_json (JArr (map JInt xs))) = Inr xs"
  by (subst as_list_sorted [where h = "\<lambda>x. x"]) simp_all

lemma as_strs: "as_list_of as_str (sort_json (JArr (map JStr xs))) = Inr xs"
  by (subst as_list_sorted [where h = "\<lambda>x. x"]) simp_all

lemma stage_round_trip:
  "wf_stage s \<Longrightarrow> stage_from_json (sort_json (stage_json s)) = Inr (canon_stage s)"
  by (simp add: stage_from_json_def stage_json_def wf_stage_def op.round_trip as_plain_dict as_ints
      as_codec_list [OF task.codec_axioms] canon_stage_def del: sort_json.simps(1))

interpretation stage: codec wf_stage "\<lambda>s. sort_json (stage_json s)" stage_from_json canon_stage
  by unfold_locales (rule stage_round_trip)

subsection \<open>Plans\<close>

definition wf_tail :: "service_spec list \<Rightarrow> 'f op_spec option \<Rightarrow> bool" where
  "wf_tail services finalize \<longleftrightarrow> list_all wf_service services \<and> (case finalize of Some op \<Rightarrow> wf_op op | None \<Rightarrow> True)"

definition wf_plan :: "'f durable_plan \<Rightarrow> bool" where
  "wf_plan pl \<longleftrightarrow> wf_op (dp_process pl) \<and> wf_op (dp_combine pl) \<and> wf_op (dp_empty pl)
     \<and> list_all wf_partition (dp_partitions pl) \<and> wf_dict plain_json (dp_stopping pl)
     \<and> wf_dict (\<lambda>_. True) (dp_file_locality pl) \<and> wf_dict plain_json (dp_resource_hints pl)
     \<and> wf_tail (dp_services pl) (dp_finalize pl)"

definition canon_plan :: "'f durable_plan \<Rightarrow> 'f durable_plan" where
  "canon_plan pl = pl\<lparr>dp_process := canon_op (dp_process pl), dp_combine := canon_op (dp_combine pl),
     dp_empty := canon_op (dp_empty pl), dp_stopping := sort_key fst (dp_stopping pl),
     dp_file_locality := sort_key fst (dp_file_locality pl), dp_resource_hints := sort_key fst (dp_resource_hints pl),
     dp_services := map canon_service (dp_services pl), dp_finalize := map_option canon_op (dp_finalize pl)\<rparr>"

definition wf_plan_v2 :: "'f durable_plan_v2 \<Rightarrow> bool" where
  "wf_plan_v2 pl \<longleftrightarrow> v2_format_version pl = format_version_v2 \<and> list_all wf_stage (v2_stages pl)
     \<and> wf_tail (v2_services pl) (v2_finalize pl)"

definition canon_plan_v2 :: "'f durable_plan_v2 \<Rightarrow> 'f durable_plan_v2" where
  "canon_plan_v2 pl = pl\<lparr>v2_stages := map canon_stage (v2_stages pl),
     v2_services := map canon_service (v2_services pl), v2_finalize := map_option canon_op (v2_finalize pl)\<rparr>"

text \<open>The optional fields at the end of both documents.\<close>

lemma tail_round_trip:
  assumes "wf_tail services finalize" "distinct (map fst kvs)" "''services'' \<notin> fst ` set kvs" "''finalize'' \<notin> fst ` set kvs"
  shows "distinct (map fst (kvs @ tail_fields services finalize))"
    and "services_from_json (sort_json (JObj (kvs @ tail_fields services finalize))) = Inr (map canon_service services)"
    and "finalize_from_json (sort_json (JObj (kvs @ tail_fields services finalize))) = Inr (map_option canon_op finalize)"
proof -
  show d: "distinct (map fst (kvs @ tail_fields services finalize))"
    using assms by (auto simp: tail_fields_def split: option.split)
  have n: "map_of kvs ''services'' = None" "map_of kvs ''finalize'' = None"
    using assms(3,4) by (simp_all add: map_of_eq_None_iff)
  have "as_list_of service_from_json (sort_json (JArr (map service_json services))) = Inr (map canon_service services)"
    using assms(1) by (intro as_codec_list [OF service.codec_axioms]) (simp add: wf_tail_def)
  moreover have "map_of (kvs @ tail_fields services finalize) ''services'' =
      (if services = [] then None else Some (JArr (map service_json services)))"
    using n by (auto simp: tail_fields_def map_add_def split: option.split)
  ultimately show "services_from_json (sort_json (JObj (kvs @ tail_fields services finalize))) = Inr (map canon_service services)"
    unfolding services_from_json_def opt_field_sorted [OF d] by (auto simp: as_list_of_def)
  have m: "map_of (kvs @ tail_fields services finalize) ''finalize'' = map_option op_json finalize"
    using n by (auto simp: tail_fields_def map_add_def split: option.split)
  have "sort_json (op_json op) \<noteq> JNull" for op :: "'a op_spec" by (simp add: op_json_def)
  then show "finalize_from_json (sort_json (JObj (kvs @ tail_fields services finalize))) = Inr (map_option canon_op finalize)"
    using assms(1) unfolding finalize_from_json_def opt_field_sorted [OF d] m
    by (cases finalize) (auto simp: as_opt_def wf_tail_def op.round_trip)
qed

lemma dp_from_doc_round_trip:
  assumes "wf_plan pl"
  shows "dp_from_doc (sort_json (dp_doc pl)) = Inr (canon_plan pl)"
proof -
  let ?kvs = "[(''format_version'', JInt (dp_format_version pl)), (''ir_b64'', JStr (b64encode (dp_ir pl))),
       (''process'', op_json (dp_process pl)), (''combine'', op_json (dp_combine pl)), (''empty'', op_json (dp_empty pl)),
       (''partitions'', JArr (map partition_json (dp_partitions pl))), (''read_columns'', JArr (map JStr (dp_read_columns pl))),
       (''stopping'', dict_json (\<lambda>v. v) (dp_stopping pl)), (''file_locality'', dict_json JStr (dp_file_locality pl)),
       (''resource_hints'', dict_json (\<lambda>v. v) (dp_resource_hints pl))]"
  have tail: "wf_tail (dp_services pl) (dp_finalize pl)" using assms by (simp add: wf_plan_def)
  note t = tail_round_trip [OF tail, of ?kvs]
  have d: "distinct (map fst (?kvs @ tail_fields (dp_services pl) (dp_finalize pl)))" by (rule t(1)) simp_all
  have s: "services_from_json (sort_json (JObj (?kvs @ tail_fields (dp_services pl) (dp_finalize pl)))) = Inr (map canon_service (dp_services pl))"
    by (rule t(2)) simp_all
  have f: "finalize_from_json (sort_json (JObj (?kvs @ tail_fields (dp_services pl) (dp_finalize pl)))) = Inr (map_option canon_op (dp_finalize pl))"
    by (rule t(3)) simp_all
  have req: "map_of ?kvs k = Some v \<Longrightarrow> req_field (sort_json (JObj (?kvs @ tail_fields (dp_services pl) (dp_finalize pl)))) k = Inr (sort_json v)" for k v
    by (rule req_field_sorted [OF d]) (simp only: map_of_append map_add_Some_iff, blast)
  have loc: "as_dict as_str (sort_json (dict_json JStr (dp_file_locality pl))) = Inr (sort_key fst (dp_file_locality pl))"
    by (subst as_dict_sorted [where h = "\<lambda>v. v"]) simp_all
  show ?thesis
    unfolding dp_doc_def dp_from_doc_def s f
    using assms
    by (simp add: req wf_plan_def op.round_trip as_codec_list [OF part.codec_axioms] as_strs as_plain_dict loc b64.round_trip
        canon_plan_def del: sort_json.simps(1) append_Cons append.simps)
qed

lemma v2_from_doc_round_trip:
  assumes "wf_plan_v2 pl"
  shows "v2_from_doc (sort_json (v2_doc pl)) = Inr (canon_plan_v2 pl)"
proof -
  let ?kvs = "[(''format_version'', JStr (v2_format_version pl)), (''ir_b64'', JStr (b64encode (v2_ir pl))),
       (''stages'', JArr (map stage_json (v2_stages pl)))]"
  have tail: "wf_tail (v2_services pl) (v2_finalize pl)" using assms by (simp add: wf_plan_v2_def)
  note t = tail_round_trip [OF tail, of ?kvs]
  have d: "distinct (map fst (?kvs @ tail_fields (v2_services pl) (v2_finalize pl)))" by (rule t(1)) simp_all
  have s: "services_from_json (sort_json (JObj (?kvs @ tail_fields (v2_services pl) (v2_finalize pl)))) = Inr (map canon_service (v2_services pl))"
    by (rule t(2)) simp_all
  have f: "finalize_from_json (sort_json (JObj (?kvs @ tail_fields (v2_services pl) (v2_finalize pl)))) = Inr (map_option canon_op (v2_finalize pl))"
    by (rule t(3)) simp_all
  have req: "map_of ?kvs k = Some v \<Longrightarrow> req_field (sort_json (JObj (?kvs @ tail_fields (v2_services pl) (v2_finalize pl)))) k = Inr (sort_json v)" for k v
    by (rule req_field_sorted [OF d]) (simp only: map_of_append map_add_Some_iff, blast)
  have v: "json_get (sort_json (JObj (?kvs @ tail_fields (v2_services pl) (v2_finalize pl)))) ''format_version'' = Some (JStr format_version_v2)"
    using req [of "''format_version''" "JStr (v2_format_version pl)"] assms
    by (auto simp: req_field_def wf_plan_v2_def split: option.splits)
  have r: "req_field (sort_json (JObj (?kvs @ tail_fields (v2_services pl) (v2_finalize pl)))) ''ir_b64'' = Inr (sort_json (JStr (b64encode (v2_ir pl))))"
    "req_field (sort_json (JObj (?kvs @ tail_fields (v2_services pl) (v2_finalize pl)))) ''stages'' = Inr (sort_json (JArr (map stage_json (v2_stages pl))))"
    by (rule req, simp)+
  show ?thesis
    unfolding v2_doc_def v2_from_doc_def s f v r
    using assms
    by (simp add: wf_plan_v2_def as_codec_list [OF stage.codec_axioms] b64.round_trip
        canon_plan_v2_def del: sort_json.simps(1) append_Cons append.simps)
qed

text \<open>The documents are well formed.\<close>

lemma wf_members_append [simp]: "wf_members (a @ b) \<longleftrightarrow> wf_members a \<and> wf_members b"
  by (auto simp: wf_members_iff)

lemma wf_elems_map [simp]: "wf_elems (map f xs) \<longleftrightarrow> (\<forall>x \<in> set xs. wf_json (f x))"
  by (simp add: wf_elems_iff)

lemma wf_dict_json: "distinct (map fst d) \<Longrightarrow> (\<And>v. v \<in> snd ` set d \<Longrightarrow> wf_json (f v)) \<Longrightarrow> wf_json (dict_json f d)"
proof -
  assume d: "distinct (map fst d)" and f: "\<And>v. v \<in> snd ` set d \<Longrightarrow> wf_json (f v)"
  have "wf_json (f v)" if "(k, v) \<in> set d" for k v using that by (intro f) force
  then have "wf_members (map (\<lambda>(k, v). (k, f v)) d)" by (auto simp: wf_members_iff)
  moreover have "map fst (map (\<lambda>(k, v). (k, f v)) d) = map fst d" by (induction d) auto
  ultimately show ?thesis using d by (simp add: dict_json_def del: map_map)
qed

lemma wf_plain_dict: "wf_dict plain_json d \<Longrightarrow> wf_json (dict_json (\<lambda>v. v) d)"
  by (rule wf_dict_json) (auto simp: wf_dict_def plain_json_def)

lemma wf_str_dict: "wf_dict (\<lambda>_. True) d \<Longrightarrow> wf_json (dict_json JStr d)"
  by (rule wf_dict_json) (auto simp: wf_dict_def)

lemma wf_op_json [simp]: "wf_json (op_json op)"
  by (simp add: op_json_def)

lemma wf_partition_json [simp]: "wf_json (partition_json p)"
  by (auto simp: partition_json_def split: option.split)

lemma wf_dict_sort: "wf_dict ok d \<Longrightarrow> wf_dict ok (sort_key fst d)"
  by (auto simp: wf_dict_def distinct_map)

lemma wf_launch_json: "wf_launch l \<Longrightarrow> wf_json (launch_json l)"
  unfolding wf_launch_def launch_json_def
  by (auto simp: opt_json_def intro!: wf_plain_dict wf_str_dict wf_dict_sort split: option.split)

lemma wf_service_json: "wf_service s \<Longrightarrow> wf_json (service_json s)"
  by (auto simp: service_json_def opt_json_def wf_service_def wf_launch_json plain_json_def split: option.splits)

lemma wf_stage_json: "wf_stage s \<Longrightarrow> wf_json (stage_json s)"
  by (simp add: stage_json_def wf_stage_def wf_plain_dict task_json_def)

lemma wf_tail_fields: "wf_tail services finalize \<Longrightarrow> wf_members (tail_fields services finalize)"
  by (auto simp: tail_fields_def wf_tail_def list_all_iff wf_service_json split: option.splits)

lemma wf_dp_doc: "wf_plan pl \<Longrightarrow> wf_json (dp_doc pl)"
  using tail_round_trip(1) [of "dp_services pl" "dp_finalize pl" "[(''format_version'', JInt (dp_format_version pl)), (''ir_b64'', JStr (b64encode (dp_ir pl))),
       (''process'', op_json (dp_process pl)), (''combine'', op_json (dp_combine pl)), (''empty'', op_json (dp_empty pl)),
       (''partitions'', JArr (map partition_json (dp_partitions pl))), (''read_columns'', JArr (map JStr (dp_read_columns pl))),
       (''stopping'', dict_json (\<lambda>v. v) (dp_stopping pl)), (''file_locality'', dict_json JStr (dp_file_locality pl)),
       (''resource_hints'', dict_json (\<lambda>v. v) (dp_resource_hints pl))]"]
  by (simp add: dp_doc_def wf_plan_def wf_plain_dict wf_str_dict wf_tail_fields)

lemma wf_v2_doc: "wf_plan_v2 pl \<Longrightarrow> wf_json (v2_doc pl)"
  using tail_round_trip(1) [of "v2_services pl" "v2_finalize pl" "[(''format_version'', JStr (v2_format_version pl)),
       (''ir_b64'', JStr (b64encode (v2_ir pl))), (''stages'', JArr (map stage_json (v2_stages pl)))]"]
  by (simp add: v2_doc_def wf_plan_v2_def wf_tail_fields list_all_iff wf_stage_json)

text \<open>Canonical plans are written alike.\<close>

lemma sort_JObj_cong: "sort_members a = sort_members b \<Longrightarrow> sort_json (JObj a) = sort_json (JObj b)"
  by (simp add: sort_json.simps(2))

lemma sort_members_append: "sort_members (a @ b) = sort_members a @ sort_members b"
  by (induction a) auto

lemma op_json_canon [simp]: "op_json (canon_op op) = op_json op"
  by (simp add: op_json_def canon_op_def)

lemma service_json_canon [simp]: "service_json (canon_service s) = service_json s"
  by (cases "sv_launch s") (simp_all add: service_json_def canon_service_def opt_json_def launch_json_def canon_launch_def)

lemma tail_fields_canon [simp]: "tail_fields (map canon_service ss) (map_option canon_op f) = tail_fields ss f"
  by (cases f) (simp_all add: tail_fields_def comp_def)

lemma sort_dict_json_sorted [simp]: "sort_json (dict_json g (sort_key fst d)) = sort_json (dict_json g d)"
  by (simp add: sort_dict_json)

lemma sort_stage_json_canon: "sort_json (stage_json (canon_stage s)) = sort_json (stage_json s)"
  unfolding stage_json_def by (intro sort_JObj_cong) (simp add: canon_stage_def)

lemma dp_to_bytes_canon: "dp_to_bytes (canon_plan pl) = dp_to_bytes pl"
proof -
  have "sort_json (dp_doc (canon_plan pl)) = sort_json (dp_doc pl)"
    unfolding dp_doc_def by (intro sort_JObj_cong) (simp add: canon_plan_def)
  then show ?thesis by (simp add: dp_to_bytes_def dumps_def)
qed

lemma v2_to_bytes_canon: "v2_to_bytes (canon_plan_v2 pl) = v2_to_bytes pl"
proof -
  have "sort_json (v2_doc (canon_plan_v2 pl)) = sort_json (v2_doc pl)"
    unfolding v2_doc_def by (intro sort_JObj_cong) (simp add: canon_plan_v2_def comp_def sort_stage_json_canon)
  then show ?thesis by (simp add: v2_to_bytes_def dumps_def)
qed

text \<open>
  C20. A durable plan survives the trip through its bytes: reading what \<open>to_bytes\<close> wrote gives the
  plan back (its mappings key-sorted, its bound callables dropped), and writing that plan again gives
  the same bytes, so the fingerprint survives too.
\<close>

theorem durable_plan_round_trip:
  assumes "wf_plan pl"
  shows "dp_from_bytes (dp_to_bytes pl) = Inr (canon_plan pl)
     \<and> dp_to_bytes (canon_plan pl) = dp_to_bytes pl
     \<and> dp_fingerprint sha (canon_plan pl) = dp_fingerprint sha pl"
  using loads_dumps [OF wf_dp_doc [OF assms]] dp_from_doc_round_trip [OF assms]
  by (simp add: dp_from_bytes_def json_loads_def dp_to_bytes_canon dp_fingerprint_def dp_to_bytes_def [symmetric])

text \<open>A small plan for the witnesses.\<close>

definition sample_plan :: "string durable_plan" where
  "sample_plan = \<lparr>dp_ir = ''ir'', dp_process = op_from_ref ''pkg:run'', dp_combine = op_from_ref ''pkg:add'',
     dp_empty = op_from_ref ''pkg:zero'', dp_partitions = [mk_partition ''a.root'' ''Events'' 0 5], dp_read_columns = [''pt''],
     dp_stopping = [(''target_events'', JInt 10), (''max_wall_s'', JFloat ''1.5'')], dp_file_locality = [(''b'', ''n1''), (''a'', ''n2'')],
     dp_resource_hints = [], dp_format_version = 1,
     dp_services = [], dp_finalize = None\<rparr>"

lemma plain_json_numbers [simp]: "plain_json (JInt i)" "float_token t \<Longrightarrow> plain_json (JFloat t)" "plain_json (JStr s)"
  by (simp_all add: plain_json_def)

lemma wf_op_from_ref [simp]: "wf_op (op_from_ref r)"
  by (simp add: wf_op_def op_from_ref_def)

lemma wf_sample_plan: "wf_plan sample_plan"
proof -
  have "float_token ''1.5''" by code_simp
  then show ?thesis by (simp add: wf_plan_def sample_plan_def wf_dict_def wf_tail_def)
qed

theorem durable_plan_round_trip_witness:
  "dp_from_bytes (dp_to_bytes sample_plan) = Inr (canon_plan sample_plan) \<and> dp_partitions (canon_plan sample_plan) \<noteq> []"
  using durable_plan_round_trip [OF wf_sample_plan] by (simp add: canon_plan_def sample_plan_def)

text \<open>
  C21. The multi-stage plan survives its bytes in the same way, and neither reader accepts the
  other's documents: each raises.
\<close>

theorem durable_plan_v2_round_trip:
  assumes "wf_plan_v2 pl" "wf_plan pl1"
  shows "v2_from_bytes (v2_to_bytes pl) = Inr (canon_plan_v2 pl)
     \<and> v2_to_bytes (canon_plan_v2 pl) = v2_to_bytes pl
     \<and> (\<exists>e. (dp_from_bytes (v2_to_bytes pl) :: 'g durable_plan result) = Inl e)
     \<and> (\<exists>e. (v2_from_bytes (dp_to_bytes pl1) :: 'g durable_plan_v2 result) = Inl e)"
proof (intro conjI)
  have l2: "json_loads (v2_to_bytes pl) = Inr (sort_json (v2_doc pl))"
    using loads_dumps [OF wf_v2_doc [OF assms(1)]] by (simp add: json_loads_def v2_to_bytes_def)
  have l1: "json_loads (dp_to_bytes pl1) = Inr (sort_json (dp_doc pl1))"
    using loads_dumps [OF wf_dp_doc [OF assms(2)]] by (simp add: json_loads_def dp_to_bytes_def)
  show "v2_from_bytes (v2_to_bytes pl) = Inr (canon_plan_v2 pl)"
    using v2_from_doc_round_trip [OF assms(1)] by (simp add: v2_from_bytes_def l2)
  show "v2_to_bytes (canon_plan_v2 pl) = v2_to_bytes pl" by (rule v2_to_bytes_canon)
  let ?kvs = "[(''format_version'', JStr (v2_format_version pl)), (''ir_b64'', JStr (b64encode (v2_ir pl))),
       (''stages'', JArr (map stage_json (v2_stages pl)))]"
  have d2: "distinct (map fst (?kvs @ tail_fields (v2_services pl) (v2_finalize pl)))"
    using assms(1) by (intro tail_round_trip(1)) (simp_all add: wf_plan_v2_def)
  have "map_of (?kvs @ tail_fields (v2_services pl) (v2_finalize pl)) ''process'' = None"
    by (auto simp: tail_fields_def split: option.split)
  then have "json_get (sort_json (v2_doc pl)) ''process'' = None"
    unfolding v2_doc_def json_get_sorted [OF d2] by simp
  then have p: "req_field (sort_json (v2_doc pl)) ''process'' = Inl (KeyError (py_repr ''process''))"
    by (simp add: req_field_def)
  have "\<exists>e. (dp_from_doc (sort_json (v2_doc pl)) :: 'g durable_plan result) = Inl e"
    unfolding dp_from_doc_def p result_bind_simps by (auto simp: result_bind_def split: sum.split)
  then show "\<exists>e. (dp_from_bytes (v2_to_bytes pl) :: 'g durable_plan result) = Inl e"
    by (simp add: dp_from_bytes_def l2)
  let ?kvs1 = "[(''format_version'', JInt (dp_format_version pl1)), (''ir_b64'', JStr (b64encode (dp_ir pl1))),
       (''process'', op_json (dp_process pl1)), (''combine'', op_json (dp_combine pl1)), (''empty'', op_json (dp_empty pl1)),
       (''partitions'', JArr (map partition_json (dp_partitions pl1))), (''read_columns'', JArr (map JStr (dp_read_columns pl1))),
       (''stopping'', dict_json (\<lambda>v. v) (dp_stopping pl1)), (''file_locality'', dict_json JStr (dp_file_locality pl1)),
       (''resource_hints'', dict_json (\<lambda>v. v) (dp_resource_hints pl1))]"
  have d1: "distinct (map fst (?kvs1 @ tail_fields (dp_services pl1) (dp_finalize pl1)))"
    using assms(2) by (intro tail_round_trip(1)) (simp_all add: wf_plan_def)
  have "map_of (?kvs1 @ tail_fields (dp_services pl1) (dp_finalize pl1)) ''format_version'' = Some (JInt (dp_format_version pl1))"
    by simp
  then have "json_get (sort_json (dp_doc pl1)) ''format_version'' = Some (JInt (dp_format_version pl1))"
    unfolding dp_doc_def json_get_sorted [OF d1] by simp
  then show "\<exists>e. (v2_from_bytes (dp_to_bytes pl1) :: 'g durable_plan_v2 result) = Inl e"
    by (simp add: v2_from_bytes_def l1 v2_from_doc_def)
qed

theorem durable_plan_v2_round_trip_witness:
  "let pl = \<lparr>v2_ir = ''ir'', v2_stages = [\<lparr>ss_kind = ''map_write'', ss_inputs = [], ss_process = op_from_ref ''m:f'',
         ss_routing = [(''parts'', JInt 4), (''key'', JStr ''id'')], ss_tasks = [\<lparr>task_key = 0, task_partition = mk_partition ''a'' [] 0 5\<rparr>]\<rparr>],
       v2_format_version = format_version_v2, v2_services = [], v2_finalize = None\<rparr> :: string durable_plan_v2
   in v2_from_bytes (v2_to_bytes pl) = Inr (canon_plan_v2 pl)"
proof -
  let ?pl = "\<lparr>v2_ir = ''ir'', v2_stages = [\<lparr>ss_kind = ''map_write'', ss_inputs = [], ss_process = op_from_ref ''m:f'',
         ss_routing = [(''parts'', JInt 4), (''key'', JStr ''id'')], ss_tasks = [\<lparr>task_key = 0, task_partition = mk_partition ''a'' [] 0 5\<rparr>]\<rparr>],
       v2_format_version = format_version_v2, v2_services = [], v2_finalize = None\<rparr> :: string durable_plan_v2"
  have "wf_plan_v2 ?pl" by (simp add: wf_plan_v2_def wf_stage_def wf_dict_def wf_task_def wf_tail_def)
  from durable_plan_v2_round_trip [OF this wf_sample_plan] show ?thesis unfolding Let_def by (rule conjunct1)
qed

section \<open>Task ids\<close>

lemma dumps_inject: "wf_json a \<Longrightarrow> wf_json b \<Longrightarrow> dumps a = dumps b \<Longrightarrow> sort_json a = sort_json b"
  by (metis loads_dumps option.inject)

lemma partition_bytes_inject: "wf_partition p \<Longrightarrow> wf_partition q \<Longrightarrow> partition_bytes p = partition_bytes q \<Longrightarrow> p = q"
  unfolding partition_bytes_def by (rule part.enc_inject) (auto dest: dumps_inject [rotated 2])

lemma op_identity_inject:
  assumes "wf_op a" "wf_op b" "op_identity a = Inr i" "op_identity b = Inr i"
  shows "os_kind a = os_kind b \<and> (os_kind a = ''ref'' \<longrightarrow> os_ref a = os_ref b)
     \<and> (os_kind a = ''opaque'' \<longrightarrow> b64decode (os_blob_b64 a) = b64decode (os_blob_b64 b))"
  using assms by (auto simp: op_identity_def wf_op_def result_bind_Inr_iff)

text \<open>Equal hashes of different framed parts are a collision of the hash function.\<close>

definition collision :: "(string \<Rightarrow> string) \<Rightarrow> bool" where
  "collision sha \<longleftrightarrow> (\<exists>x y. x \<noteq> y \<and> sha x = sha y)"

lemma sha256_hex_inject:
  "framable ps \<Longrightarrow> framable qs \<Longrightarrow> sha256_hex sha ps = sha256_hex sha qs \<Longrightarrow> ps = qs \<or> collision sha"
  unfolding sha256_hex_def collision_def using frame_inject by blast

text \<open>
  C22. Task ids are content addresses: two plans give two partitions the same id only when the IR, the
  process and the partition are the same, unless the hash function itself collides.
\<close>

theorem task_id_content_addressed:
  assumes "wf_partition p" "wf_partition q" "wf_op (dp_process pl)" "wf_op (dp_process pl')"
    and "dp_task_parts pl p = Inr ps" "dp_task_parts pl' q = Inr qs" "framable ps" "framable qs"
    and "dp_task_id sha pl p = dp_task_id sha pl' q"
  shows "collision sha \<or> (dp_ir pl = dp_ir pl' \<and> p = q
     \<and> os_kind (dp_process pl) = os_kind (dp_process pl')
     \<and> (os_kind (dp_process pl) = ''ref'' \<longrightarrow> os_ref (dp_process pl) = os_ref (dp_process pl'))
     \<and> (os_kind (dp_process pl) = ''opaque'' \<longrightarrow>
          b64decode (os_blob_b64 (dp_process pl)) = b64decode (os_blob_b64 (dp_process pl'))))"
proof (cases "collision sha")
  case False
  from assms(5,6,9) have "sha256_hex sha ps = sha256_hex sha qs" by (simp add: dp_task_id_def)
  with False sha256_hex_inject [OF assms(7,8)] have eq: "ps = qs" by blast
  from assms(5,6) obtain i j where "op_identity (dp_process pl) = Inr i" "op_identity (dp_process pl') = Inr j"
      "ps = [task_domain, dp_ir pl, i, partition_bytes p]" "qs = [task_domain, dp_ir pl', j, partition_bytes q]"
    by (auto simp: dp_task_parts_def result_bind_Inr_iff)
  with eq partition_bytes_inject [OF assms(1,2)] op_identity_inject [OF assms(3,4)] show ?thesis by auto
qed simp

theorem task_id_content_addressed_witness:
  "\<exists>ps. dp_task_parts sample_plan (mk_partition ''a'' [] 0 5) = Inr ps \<and> framable ps \<and>
     (dp_task_id (\<lambda>s. s) sample_plan (mk_partition ''a'' [] 0 5) = dp_task_id (\<lambda>s. s) sample_plan (mk_partition ''a'' [] 0 6) \<longrightarrow> False)"
proof -
  let ?p = "mk_partition ''a'' [] 0 5" and ?q = "mk_partition ''a'' [] 0 6"
  have pb: "length (partition_bytes ?p) = 52" "length (partition_bytes ?q) = 52" by code_simp+
  obtain ps qs where ps: "dp_task_parts sample_plan ?p = Inr ps" "dp_task_parts sample_plan ?q = Inr qs" "framable ps" "framable qs"
    by (simp add: dp_task_parts_def sample_plan_def op_identity_def op_from_ref_def framable_def pb utf8_def utf8_char_def task_domain_def)
  have op: "wf_op (dp_process sample_plan)" by (simp add: sample_plan_def)
  have "\<not> collision (\<lambda>s. s)" by (simp add: collision_def)
  with task_id_content_addressed [OF _ _ op op ps, of "\<lambda>s. s"] ps show ?thesis by auto
qed

text \<open>What of a plan, a stage and a task goes into the id of the task.\<close>

definition hashed_alike :: "'f durable_plan_v2 \<Rightarrow> int \<Rightarrow> task \<Rightarrow> 'f durable_plan_v2 \<Rightarrow> int \<Rightarrow> task \<Rightarrow> bool" where
  "hashed_alike pl i t pl' j t' \<longleftrightarrow> v2_ir pl = v2_ir pl' \<and> i = j \<and> t = t' \<and>
     (\<exists>s s'. py_index (v2_stages pl) i = Inr s \<and> py_index (v2_stages pl') j = Inr s' \<and>
        ss_kind s = ss_kind s' \<and> op_identity (ss_process s) = op_identity (ss_process s') \<and>
        sort_key fst (ss_routing s) = sort_key fst (ss_routing s'))"

lemma sorted_plain_dict: "wf_dict plain_json d \<Longrightarrow> sort_json (dict_json (\<lambda>v. v) d) = JObj (sort_key fst d)"
proof -
  assume "wf_dict plain_json d"
  then have "\<forall>v \<in> snd ` set d. sort_json v = v" by (simp add: wf_dict_def plain_json_def)
  then have "sort_members d = d" by (induction d) auto
  then show ?thesis by (simp add: dict_json_def sort_json.simps)
qed

lemma v2_task_parts_eq:
  assumes "wf_plan_v2 pl" "wf_plan_v2 pl'" "wf_task t" "wf_task t'" "v2_task_parts pl i t = Inr ps" "v2_task_parts pl' j t' = Inr qs"
  shows "ps = qs \<longleftrightarrow> hashed_alike pl i t pl' j t'"
proof -
  from assms(5) obtain s a where s: "py_index (v2_stages pl) i = Inr s" "op_identity (ss_process s) = Inr a"
      "ps = [task_domain_v2, v2_ir pl, dec i, utf8 (ss_kind s), a, dumps (dict_json (\<lambda>v. v) (ss_routing s)),
             partition_bytes (task_partition t), dec (task_key t)]"
    by (auto simp: v2_task_parts_def result_bind_Inr_iff)
  from assms(6) obtain s' b where s': "py_index (v2_stages pl') j = Inr s'" "op_identity (ss_process s') = Inr b"
      "qs = [task_domain_v2, v2_ir pl', dec j, utf8 (ss_kind s'), b, dumps (dict_json (\<lambda>v. v) (ss_routing s')),
             partition_bytes (task_partition t'), dec (task_key t')]"
    by (auto simp: v2_task_parts_def result_bind_Inr_iff)
  have "s \<in> set (v2_stages pl)" "s' \<in> set (v2_stages pl')"
    using s(1) s'(1) by (auto simp: py_index_def Let_def split: if_splits)
  then have r: "wf_dict plain_json (ss_routing s)" "wf_dict plain_json (ss_routing s')"
    using assms(1,2) by (auto simp: wf_plan_v2_def list_all_iff wf_stage_def)
  have d: "dumps (dict_json (\<lambda>v. v) (ss_routing s)) = dumps (dict_json (\<lambda>v. v) (ss_routing s')) \<longleftrightarrow>
      sort_key fst (ss_routing s) = sort_key fst (ss_routing s')"
  proof
    assume "dumps (dict_json (\<lambda>v. v) (ss_routing s)) = dumps (dict_json (\<lambda>v. v) (ss_routing s'))"
    from dumps_inject [OF wf_plain_dict [OF r(1)] wf_plain_dict [OF r(2)] this]
    show "sort_key fst (ss_routing s) = sort_key fst (ss_routing s')" by (simp add: sorted_plain_dict r)
  qed (simp only: dumps_def sorted_plain_dict [OF r(1)] sorted_plain_dict [OF r(2)])
  have t: "partition_bytes (task_partition t) = partition_bytes (task_partition t') \<and> task_key t = task_key t' \<longleftrightarrow> t = t'"
    using assms(3,4) partition_bytes_inject [of "task_partition t" "task_partition t'"] by (auto simp: wf_task_def)
  show ?thesis
    using s s' d t by (auto simp: hashed_alike_def)
qed

text \<open>
  C23. What the id of a staged task stands for. Two tasks have the same id exactly when the IR, the stage index, the
  stage's kind, process and routing (up to the order of its keys), the partition and the key are the same,
  unless the hash function collides. Nothing else enters: a stage's inputs, and the stages it reads, may
  differ between two plans that give its tasks one id.
\<close>

theorem staged_task_id_content_addressed:
  assumes "wf_plan_v2 pl" "wf_plan_v2 pl'" "wf_task t" "wf_task t'"
    and "v2_task_parts pl i t = Inr ps" "v2_task_parts pl' j t' = Inr qs" "framable ps" "framable qs"
  shows "(v2_task_id sha pl i t = v2_task_id sha pl' j t' \<longrightarrow> collision sha \<or> hashed_alike pl i t pl' j t')
    \<and> (hashed_alike pl i t pl' j t' \<longrightarrow> v2_task_id sha pl i t = v2_task_id sha pl' j t')
    \<and> v2_task_id sha (pl\<lparr>v2_stages := map (\<lambda>s. s\<lparr>ss_inputs := f s\<rparr>) (v2_stages pl)\<rparr>) i t = v2_task_id sha pl i t"
proof -
  note eq = v2_task_parts_eq [OF assms(1-6)]
  have "v2_task_id sha pl i t = v2_task_id sha pl' j t' \<longleftrightarrow> sha256_hex sha ps = sha256_hex sha qs"
    using assms(5,6) by (simp add: v2_task_id_def)
  moreover have "v2_task_parts (pl\<lparr>v2_stages := map (\<lambda>s. s\<lparr>ss_inputs := f s\<rparr>) (v2_stages pl)\<rparr>) i t = v2_task_parts pl i t"
    by (auto simp: v2_task_parts_def py_index_def Let_def)
  ultimately show ?thesis
    using eq sha256_hex_inject [OF assms(7,8), of sha] by (auto simp: v2_task_id_def)
qed

theorem staged_task_id_content_addressed_witness:
  "let s = (\<lambda>parts. \<lparr>ss_kind = ''map_write'', ss_inputs = [], ss_process = op_from_ref ''m:f'',
         ss_routing = [(''parts'', JInt parts)], ss_tasks = []\<rparr>);
       pl = (\<lambda>parts. \<lparr>v2_ir = ''ir'', v2_stages = [s parts], v2_format_version = format_version_v2, v2_services = [],
         v2_finalize = None\<rparr> :: string durable_plan_v2);
       t = \<lparr>task_key = 0, task_partition = mk_partition ''a'' [] 0 5\<rparr>
   in v2_task_id (\<lambda>s. s) (pl 4) 0 t \<noteq> v2_task_id (\<lambda>s. s) (pl 8) 0 t"
proof -
  let ?s = "\<lambda>parts. \<lparr>ss_kind = ''map_write'', ss_inputs = [], ss_process = op_from_ref ''m:f'',
         ss_routing = [(''parts'', JInt parts)], ss_tasks = []\<rparr> :: string stage_spec"
  let ?pl = "\<lambda>parts. \<lparr>v2_ir = ''ir'', v2_stages = [?s parts], v2_format_version = format_version_v2, v2_services = [],
         v2_finalize = None\<rparr> :: string durable_plan_v2"
  let ?t = "\<lparr>task_key = 0, task_partition = mk_partition ''a'' [] 0 5\<rparr>"
  have wf: "wf_plan_v2 (?pl n)" for n by (simp add: wf_plan_v2_def wf_stage_def wf_dict_def wf_tail_def)
  have t: "wf_task ?t" by (simp add: wf_task_def)
  have l: "length (partition_bytes (task_partition ?t)) = 52" "length (dumps (dict_json (\<lambda>v. v) [(''parts'', JInt 4)])) = 11"
    "length (dumps (dict_json (\<lambda>v. v) [(''parts'', JInt 8)])) = 11" "length (dec 0) = 1" by code_simp+
  obtain ps qs where ps: "v2_task_parts (?pl 4) 0 ?t = Inr ps" "v2_task_parts (?pl 8) 0 ?t = Inr qs" "framable ps" "framable qs"
    using l by (simp add: v2_task_parts_def py_index_def op_identity_def op_from_ref_def framable_def utf8_def utf8_char_def task_domain_v2_def)
  have "\<not> collision (\<lambda>s. s)" by (simp add: collision_def)
  moreover have "\<not> hashed_alike (?pl 4) 0 ?t (?pl 8) 0 ?t" by (auto simp: hashed_alike_def py_index_def)
  ultimately show ?thesis
    using staged_task_id_content_addressed [OF wf wf t t ps, of "\<lambda>s. s"] by (auto simp: Let_def)
qed

end
