(* ===== verification/Store.thy ===== *)
theory Store
  imports Journal Durable_Plan Execution
begin

text \<open>
  Checkpoint stores: the local one (\<open>checkpoint/store.py\<close>, \<open>Store\<close>) and the one at a URL
  (\<open>checkpoint/fsspec_store.py\<close>, \<open>FsspecStore\<close>). A store holds blobs by the hash of their content,
  journals of finished tasks and a log of dead letters. The locale \<open>checkpoint_store\<close> is the contract
  the resumable runners rely on; both stores interpret it.

  Files are association lists from names to contents. What the operating system decides is an
  argument: how often a read is denied, whether a rename is refused, the process id, clock and random
  id of a new writer. A directory holds one store; \<open>objects/\<close> is \<open>ls_blobs\<close>, the other files \<open>ls_logs\<close>.
\<close>

section \<open>Journal entries and their records\<close>

record journal_entry =
  je_task_id :: string
  je_partition :: string
  je_blob :: string
  je_stage :: string
  je_deps :: "string list"

definition done_record :: "journal_entry \<Rightarrow> json" where
  "done_record e = JObj
     ([(''task_id'', JStr (je_task_id e)), (''partition'', JStr (je_partition e)), (''blob'', JStr (je_blob e))] @
      (if je_stage e \<noteq> [] then [(''stage'', JStr (je_stage e))] else []) @
      (if je_deps e \<noteq> [] then [(''deps'', JArr (map JStr (je_deps e)))] else []))"

record completed =
  co_entries :: "(string \<times> journal_entry) list"
  co_environments :: "journal_entry list"

definition entry_of :: "json \<Rightarrow> journal_entry option" where
  "entry_of d =
     (case json_get d ''blob'' of
        Some (JStr blob) \<Rightarrow> Some
          \<lparr>je_task_id = py_str (opt_field d ''task_id'' (JStr [])),
           je_partition = py_str (opt_field d ''partition'' (JStr [])),
           je_blob = blob,
           je_stage = py_str (opt_field d ''stage'' (JStr [])),
           je_deps = (case opt_field d ''deps'' (JArr []) of JArr xs \<Rightarrow> map py_str xs | _ \<Rightarrow> [])\<rparr>
      | _ \<Rightarrow> None)"

fun py_type :: "json \<Rightarrow> string" where
  "py_type JNull = ''NoneType''"
| "py_type (JBool b) = ''bool''"
| "py_type (JInt i) = ''int''"
| "py_type (JFloat t) = ''float''"
| "py_type (JStr s) = ''str''"
| "py_type (JArr xs) = ''list''"
| "py_type (JObj kvs) = ''dict''"

text \<open>A record that is not an object has no \<open>get\<close>.\<close>

fun replay_record :: "(string \<Rightarrow> bool) \<Rightarrow> json \<Rightarrow> completed \<Rightarrow> completed result" where
  "replay_record present (JObj kvs) c =
     (case entry_of (JObj kvs) of
        None \<Rightarrow> Inr c
      | Some e \<Rightarrow>
          if present (je_blob e) then
            (if je_stage e = ''environment'' then Inr (c\<lparr>co_environments := co_environments c @ [e]\<rparr>)
             else Inr (c\<lparr>co_entries := AList.update (je_task_id e) e (co_entries c)\<rparr>))
          else Inr c)"
| "replay_record present d c = Inl (AttributeError (py_repr (py_type d) @ '' object has no attribute '' @ py_repr ''get''))"

fun replay_from :: "(string \<Rightarrow> bool) \<Rightarrow> json list \<Rightarrow> completed \<Rightarrow> completed result" where
  "replay_from present [] c = Inr c"
| "replay_from present (d # ds) c = result_bind (replay_record present d c) (replay_from present ds)"

definition replay :: "(string \<Rightarrow> bool) \<Rightarrow> json list \<Rightarrow> completed result" where
  "replay present ds = replay_from present ds \<lparr>co_entries = [], co_environments = []\<rparr>"

definition environment_entry :: "string \<Rightarrow> string \<Rightarrow> journal_entry" where
  "environment_entry task_id blob =
     \<lparr>je_task_id = task_id, je_partition = [], je_blob = blob, je_stage = ''environment'', je_deps = []\<rparr>"

definition journal_name :: "string option \<Rightarrow> string" where
  "journal_name node = (case node of None \<Rightarrow> ''journal.log'' | Some n \<Rightarrow> ''journal.'' @ n @ ''.log'')"

definition environment_journal :: string where
  "environment_journal = ''journal.environment.log''"

definition dead_letter_log :: string where
  "dead_letter_log = ''dead_letter.log''"

text \<open>The pattern \<open>journal*.log\<close>.\<close>

definition is_journal :: "string \<Rightarrow> bool" where
  "is_journal n \<longleftrightarrow> starts_with ''journal'' n \<and> starts_with ''gol.'' (rev n) \<and> 11 \<le> length n"

section \<open>The local store\<close>

record local_store =
  ls_blobs :: "(string \<times> string) list"
  ls_logs :: "(string \<times> string) list"
  ls_bad :: "string list"

definition blob_size :: "string \<Rightarrow> local_store \<Rightarrow> nat option" where
  "blob_size digest s = map_option length (map_of (ls_blobs s) digest)"

definition has_blob :: "string \<Rightarrow> local_store \<Rightarrow> bool" where
  "has_blob digest s \<longleftrightarrow> map_of (ls_blobs s) digest \<noteq> None"

text \<open>The waits between denied reads; after the last one the error is raised.\<close>

definition read_backoff :: "nat list" where
  "read_backoff = [10, 50, 250, 1000]"

fun read_blob :: "nat list \<Rightarrow> nat \<Rightarrow> string option \<Rightarrow> string option result" where
  "read_blob backoff 0 content = Inr content"
| "read_blob [] (Suc denied) content = Inl (PermissionError [])"
| "read_blob (_ # backoff) (Suc denied) content = read_blob backoff denied content"

definition store_get :: "(string \<Rightarrow> string) \<Rightarrow> nat \<Rightarrow> string \<Rightarrow> (string option, local_store) action" where
  "store_get sha denied digest = (\<lambda>s.
     case read_blob read_backoff denied (map_of (ls_blobs s) digest) of
       Inl e \<Rightarrow> (Inl e, s)
     | Inr None \<Rightarrow> (Inr None, s)
     | Inr (Some data) \<Rightarrow>
         if sha data = digest then (Inr (Some data), s)
         else (Inr None, s\<lparr>ls_bad := List.insert digest (ls_bad s)\<rparr>))"

text \<open>\<open>refused\<close>: the rename is refused because another writer holds the file.\<close>

definition atomic_write :: "(string \<Rightarrow> string) \<Rightarrow> bool \<Rightarrow> string \<Rightarrow> string \<Rightarrow> (unit, local_store) action" where
  "atomic_write sha refused digest data =
     (if refused then
        act_bind (store_get sha 0 digest) (\<lambda>got. if got = None then act_raise (OSError []) else act_return ())
      else (\<lambda>s. (Inr (), s\<lparr>ls_blobs := AList.update digest data (ls_blobs s)\<rparr>)))"

definition store_put :: "(string \<Rightarrow> string) \<Rightarrow> bool \<Rightarrow> string \<Rightarrow> (string, local_store) action" where
  "store_put sha refused data = (\<lambda>s.
     let digest = sha data
     in if digest \<in> set (ls_bad s) \<or> blob_size digest s \<noteq> Some (length data)
        then act_then (atomic_write sha refused digest data)
               (\<lambda>s. (Inr digest, s\<lparr>ls_bad := List.filter (\<lambda>d. d \<noteq> digest) (ls_bad s)\<rparr>)) s
        else (Inr digest, s))"

definition append_log :: "string \<Rightarrow> json \<Rightarrow> (unit, local_store) action" where
  "append_log name rec = (\<lambda>s. (Inr (), s\<lparr>ls_logs :=
     AList.update name ((case map_of (ls_logs s) name of None \<Rightarrow> [] | Some content \<Rightarrow> content) @ record_line rec) (ls_logs s)\<rparr>))"

definition log_records :: "string \<Rightarrow> local_store \<Rightarrow> json list" where
  "log_records name s = (case map_of (ls_logs s) name of None \<Rightarrow> [] | Some content \<Rightarrow> read_lines content)"

definition store_record_done :: "string option \<Rightarrow> journal_entry \<Rightarrow> (unit, local_store) action" where
  "store_record_done node e = append_log (journal_name node) (done_record e)"

definition store_record_environment :: "string \<Rightarrow> string \<Rightarrow> (unit, local_store) action" where
  "store_record_environment task_id blob = append_log environment_journal (done_record (environment_entry task_id blob))"

definition store_completed :: "(completed, local_store) action" where
  "store_completed = (\<lambda>s. (replay (\<lambda>d. has_blob d s)
     (concat (map (\<lambda>n. log_records n s) (sort (List.filter is_journal (map fst (ls_logs s)))))), s))"

definition store_record_dead :: "json \<Rightarrow> (unit, local_store) action" where
  "store_record_dead descriptor = append_log dead_letter_log descriptor"

definition store_dead_letters :: "(json list, local_store) action" where
  "store_dead_letters = (\<lambda>s. (Inr (log_records dead_letter_log s), s))"

section \<open>The store at a URL\<close>

text \<open>
  Each record is an object of its own, named by its writer and a count, under a prefix named like the
  local log. A parsed record is kept in the module's cache for every later listing.
\<close>

record url_store =
  us_blobs :: "(string \<times> string) list"
  us_records :: "(string \<times> string) list"
  us_bad :: "string list"
  us_pid :: int
  us_writer :: string
  us_seq :: nat
  us_cache :: "(string \<times> json) list"

definition writer_name :: "int \<Rightarrow> string \<Rightarrow> string" where
  "writer_name time_ns unique = pad_zeros 20 (dec time_ns) @ ''-'' @ unique"

definition url_get :: "(string \<Rightarrow> string) \<Rightarrow> string \<Rightarrow> (string option, url_store) action" where
  "url_get sha digest = (\<lambda>s.
     case map_of (us_blobs s) digest of
       None \<Rightarrow> (Inr None, s)
     | Some data \<Rightarrow>
         if sha data = digest then (Inr (Some data), s)
         else (Inr None, s\<lparr>us_bad := List.insert digest (us_bad s)\<rparr>))"

definition url_size :: "string \<Rightarrow> url_store \<Rightarrow> nat option" where
  "url_size digest s = map_option length (map_of (us_blobs s) digest)"

definition url_put :: "(string \<Rightarrow> string) \<Rightarrow> string \<Rightarrow> (string, url_store) action" where
  "url_put sha data = (\<lambda>s.
     let digest = sha data
     in if digest \<in> set (us_bad s) \<or> url_size digest s \<noteq> Some (length data)
        then (Inr digest, s\<lparr>us_blobs := AList.update digest data (us_blobs s),
                            us_bad := List.filter (\<lambda>d. d \<noteq> digest) (us_bad s)\<rparr>)
        else (Inr digest, s))"

text \<open>The running process: its id, and the name its writer would take now.\<close>

record process_env =
  pe_pid :: int
  pe_time_ns :: int
  pe_unique :: string

definition new_writer :: "process_env \<Rightarrow> url_store \<Rightarrow> url_store" where
  "new_writer pe s = s\<lparr>us_pid := pe_pid pe, us_writer := writer_name (pe_time_ns pe) (pe_unique pe), us_seq := 0\<rparr>"

definition url_append :: "process_env \<Rightarrow> string \<Rightarrow> json \<Rightarrow> (unit, url_store) action" where
  "url_append pe prefix rec = (\<lambda>s.
     let s = (if us_pid s \<noteq> pe_pid pe then new_writer pe s else s);
         seq = us_seq s;
         name = prefix @ ''/'' @ us_writer s @ ''-'' @ pad_zeros 12 (dec (int seq))
     in (Inr (), s\<lparr>us_seq := Suc seq, us_records := AList.update name (record_line rec) (us_records s)\<rparr>))"

definition url_record_done :: "process_env \<Rightarrow> string option \<Rightarrow> journal_entry \<Rightarrow> (unit, url_store) action" where
  "url_record_done pe node e = url_append pe (journal_name node) (done_record e)"

definition url_record_environment :: "process_env \<Rightarrow> string \<Rightarrow> string \<Rightarrow> (unit, url_store) action" where
  "url_record_environment pe task_id blob = url_append pe environment_journal (done_record (environment_entry task_id blob))"

text \<open>The names that match \<open>prefix/*\<close>, in order; what is not cached is read and parsed, and cached when it parses.\<close>

definition under :: "(string \<Rightarrow> bool) \<Rightarrow> string \<Rightarrow> bool" where
  "under pat name \<longleftrightarrow> (case str_partition ''/'' name of (prefix, found, rest) \<Rightarrow> found \<and> pat prefix \<and> CHR ''/'' \<notin> set rest)"

definition parse_missing :: "url_store \<Rightarrow> string list \<Rightarrow> (string \<times> json) list" where
  "parse_missing s names = List.map_filter (\<lambda>n.
     if map_of (us_cache s) n \<noteq> None then None
     else (case map_of (us_records s) n of
             None \<Rightarrow> None
           | Some raw \<Rightarrow> map_option (\<lambda>rec. (n, rec)) (parse_record raw))) names"

definition url_list :: "(string \<Rightarrow> bool) \<Rightarrow> (json list, url_store) action" where
  "url_list pat = (\<lambda>s.
     let names = sort (List.filter (under pat) (map fst (us_records s)));
         cache = us_cache s @ parse_missing s names
     in (Inr (List.map_filter (map_of cache) names), s\<lparr>us_cache := cache\<rparr>))"

definition url_completed :: "(completed, url_store) action" where
  "url_completed = (\<lambda>s.
     act_bind (url_list is_journal) (\<lambda>recs.
       act_lift (replay (\<lambda>d. d \<in> fst ` set (us_blobs s)) recs)) s)"

definition url_record_dead :: "process_env \<Rightarrow> json \<Rightarrow> (unit, url_store) action" where
  "url_record_dead pe descriptor = url_append pe dead_letter_log descriptor"

definition url_dead_letters :: "(json list, url_store) action" where
  "url_dead_letters = url_list (\<lambda>prefix. prefix = dead_letter_log)"

section \<open>The protocol of a store\<close>

record 's store_ops =
  so_put :: "string \<Rightarrow> (string, 's) action"
  so_get :: "string \<Rightarrow> (string option, 's) action"
  so_record_done :: "journal_entry \<Rightarrow> (unit, 's) action"
  so_record_environment :: "string \<Rightarrow> string \<Rightarrow> (unit, 's) action"
  so_completed :: "(completed, 's) action"
  so_record_dead :: "json \<Rightarrow> (unit, 's) action"
  so_dead_letters :: "(json list, 's) action"

definition local_ops :: "(string \<Rightarrow> string) \<Rightarrow> string option \<Rightarrow> local_store store_ops" where
  "local_ops sha node =
     \<lparr>so_put = store_put sha False, so_get = store_get sha 0, so_record_done = store_record_done node,
      so_record_environment = store_record_environment, so_completed = store_completed,
      so_record_dead = store_record_dead, so_dead_letters = store_dead_letters\<rparr>"

definition url_ops :: "(string \<Rightarrow> string) \<Rightarrow> process_env \<Rightarrow> string option \<Rightarrow> url_store store_ops" where
  "url_ops sha pe node =
     \<lparr>so_put = url_put sha, so_get = url_get sha, so_record_done = url_record_done pe node,
      so_record_environment = url_record_environment pe, so_completed = url_completed,
      so_record_dead = url_record_dead pe, so_dead_letters = url_dead_letters\<rparr>"

section \<open>Replaying journals\<close>

lemma py_str_JStr_map [simp]: "map (py_str \<circ> JStr) xs = xs"
  by (induction xs) simp_all

lemma wf_done_record: "wf_json (done_record e)"
  by (simp add: done_record_def wf_members_iff wf_elems_iff)

lemma entry_of_done_record: "entry_of (sort_json (done_record e)) = Some e"
  by (simp add: entry_of_def done_record_def opt_field_def comp_def)

lemma done_record_obj: "\<exists>kvs. sort_json (done_record e) = JObj kvs"
  by (simp add: done_record_def)

lemma loggable_done_record: "loggable (done_record e)"
  using wf_done_record [of e]
  by (simp add: loggable_def done_record_def plain_record_def esc_char_def is_ws_def sort_json.simps)

definition own_records :: "json list \<Rightarrow> bool" where
  "own_records ds \<longleftrightarrow> set ds \<subseteq> (\<lambda>e. sort_json (done_record e)) ` UNIV"

definition entries_in :: "json list \<Rightarrow> journal_entry set" where
  "entries_in ds = {e. sort_json (done_record e) \<in> set ds}"

definition replay_step :: "(string \<Rightarrow> bool) \<Rightarrow> journal_entry \<Rightarrow> completed \<Rightarrow> completed" where
  "replay_step present e c =
     (if \<not> present (je_blob e) then c
      else if je_stage e = ''environment'' then c\<lparr>co_environments := co_environments c @ [e]\<rparr>
      else c\<lparr>co_entries := AList.update (je_task_id e) e (co_entries c)\<rparr>)"

lemma replay_record_own: "replay_record present (sort_json (done_record e)) c = Inr (replay_step present e c)"
proof -
  obtain kvs where k: "sort_json (done_record e) = JObj kvs" using done_record_obj by blast
  with entry_of_done_record [of e] show ?thesis by (simp add: replay_step_def)
qed

lemma replay_from_own:
  "replay_from present (map (\<lambda>e. sort_json (done_record e)) es) c = Inr (fold (replay_step present) es c)"
  by (induction es arbitrary: c) (simp_all add: replay_record_own)

lemma own_recordsE:
  assumes "own_records ds"
  obtains es where "ds = map (\<lambda>e. sort_json (done_record e)) es" "set es = entries_in ds"
proof -
  let ?f = "\<lambda>e. sort_json (done_record e)"
  have inj: "?f e = ?f e' \<Longrightarrow> e = e'" for e e' using entry_of_done_record by (metis option.inject)
  from assms have "\<exists>es. ds = map ?f es"
    by (induction ds) (auto simp: own_records_def, metis list.simps(9))
  then obtain es where es: "ds = map ?f es" by blast
  moreover have "set es = entries_in ds" using inj by (auto simp: es entries_in_def)
  ultimately show thesis using that by blast
qed

text \<open>A replay never fails on the store's own records, and every entry it returns was recorded and has its blob.\<close>

lemma fold_replay_sound:
  assumes "\<And>t e. map_of (co_entries c) t = Some e \<Longrightarrow> e \<in> S \<and> je_task_id e = t \<and> present (je_blob e) \<and> je_stage e \<noteq> ''environment''"
    and "\<And>e. e \<in> set (co_environments c) \<Longrightarrow> e \<in> S \<and> present (je_blob e) \<and> je_stage e = ''environment''" and "set es \<subseteq> S"
  shows "(map_of (co_entries (fold (replay_step present) es c)) t = Some e \<longrightarrow> e \<in> S \<and> je_task_id e = t \<and> present (je_blob e) \<and> je_stage e \<noteq> ''environment'') \<and>
     (e \<in> set (co_environments (fold (replay_step present) es c)) \<longrightarrow> e \<in> S \<and> present (je_blob e) \<and> je_stage e = ''environment'')"
  using assms
proof (induction es arbitrary: c)
  case Nil
  then show ?case by auto
next
  case (Cons x es)
  show ?case unfolding fold_simps(2)
  proof (rule Cons.IH)
    show "e \<in> S \<and> je_task_id e = t \<and> present (je_blob e) \<and> je_stage e \<noteq> ''environment''" if "map_of (co_entries (replay_step present x c)) t = Some e" for t e
      using that Cons.prems by (auto simp: replay_step_def update_conv split: if_splits)
    show "e \<in> S \<and> present (je_blob e) \<and> je_stage e = ''environment''" if "e \<in> set (co_environments (replay_step present x c))" for e
      using that Cons.prems by (auto simp: replay_step_def split: if_splits)
  qed (use Cons.prems in auto)
qed

lemma replay_sound:
  assumes "own_records ds"
  obtains c where "replay present ds = Inr c"
    "\<And>t e. map_of (co_entries c) t = Some e \<Longrightarrow> e \<in> entries_in ds \<and> je_task_id e = t \<and> present (je_blob e) \<and> je_stage e \<noteq> ''environment''"
    "\<And>e. e \<in> set (co_environments c) \<Longrightarrow> e \<in> entries_in ds \<and> present (je_blob e) \<and> je_stage e = ''environment''"
proof -
  from own_recordsE [OF assms] obtain es where es: "ds = map (\<lambda>e. sort_json (done_record e)) es" "set es = entries_in ds" .
  let ?c = "fold (replay_step present) es \<lparr>co_entries = [], co_environments = []\<rparr>"
  have "replay present ds = Inr ?c" by (simp add: replay_def es(1) replay_from_own)
  moreover note fold_replay_sound [of "\<lparr>co_entries = [], co_environments = []\<rparr>" "entries_in ds" present es, simplified] es(2)
  ultimately show thesis using that by blast
qed

section \<open>The contract of a store\<close>

text \<open>
  \<open>entries s\<close> are the journal entries that can be read from the state \<open>s\<close>. A lookup never serves bytes
  that do not hash to their name; recording adds at most its own entry (a torn line may lose it, and may
  lose others); what \<open>completed\<close> returns was recorded.
\<close>

locale checkpoint_store =
  fixes sha :: "string \<Rightarrow> string"
    and ops :: "'s store_ops"
    and valid :: "'s \<Rightarrow> bool"
    and entries :: "'s \<Rightarrow> journal_entry set"
  assumes put_ok: "valid s \<Longrightarrow> \<exists>s'. so_put ops data s = (Inr (sha data), s') \<and> valid s' \<and> entries s' = entries s"
    and get_ok: "valid s \<Longrightarrow> \<exists>r s'. so_get ops digest s = (Inr r, s') \<and> valid s' \<and> entries s' = entries s
      \<and> (\<forall>data. r = Some data \<longrightarrow> sha data = digest)"
    and record_done_ok: "valid s \<Longrightarrow> \<exists>s'. so_record_done ops e s = (Inr (), s') \<and> valid s' \<and> entries s' \<subseteq> insert e (entries s)"
    and record_environment_ok: "valid s \<Longrightarrow> \<exists>s'. so_record_environment ops t b s = (Inr (), s') \<and> valid s'
      \<and> entries s' \<subseteq> insert (environment_entry t b) (entries s)"
    and completed_ok: "valid s \<Longrightarrow> \<exists>c s'. so_completed ops s = (Inr c, s') \<and> valid s' \<and> entries s' = entries s
      \<and> (\<forall>t e. map_of (co_entries c) t = Some e \<longrightarrow> e \<in> entries s \<and> je_task_id e = t \<and> je_stage e \<noteq> ''environment'')
      \<and> (\<forall>e \<in> set (co_environments c). e \<in> entries s \<and> je_stage e = ''environment'')"
    and record_dead_ok: "valid s \<Longrightarrow> \<exists>s'. so_record_dead ops d s = (Inr (), s') \<and> valid s' \<and> entries s' = entries s"
    and dead_letters_ok: "valid s \<Longrightarrow> \<exists>ds s'. so_dead_letters ops s = (Inr ds, s') \<and> valid s' \<and> entries s' = entries s"

section \<open>The local store keeps the contract\<close>

definition own_log :: "string \<Rightarrow> bool" where
  "own_log c \<longleftrightarrow> (\<exists>as. c = log_text as \<and> fst ` set as \<subseteq> range done_record)"

definition local_valid :: "local_store \<Rightarrow> bool" where
  "local_valid s \<longleftrightarrow> (\<forall>n c. is_journal n \<longrightarrow> map_of (ls_logs s) n = Some c \<longrightarrow> own_log c)"

definition local_entries :: "local_store \<Rightarrow> journal_entry set" where
  "local_entries s = {e. \<exists>n. is_journal n \<and> sort_json (done_record e) \<in> set (log_records n s)}"

lemma own_log_read: "own_log c \<Longrightarrow> own_records (read_lines c)"
proof -
  assume "own_log c"
  then obtain as where as: "c = log_text as" "fst ` set as \<subseteq> range done_record" by (auto simp: own_log_def)
  then have "\<forall>a \<in> set as. loggable (fst a)" using loggable_done_record by force
  then have r: "read_lines c = survivors [] as" using as(1) read_lines_from [of "[]" as] by (simp add: line_text_def)
  have "set (survivors line as) \<subseteq> (\<lambda>e. sort_json (done_record e)) ` UNIV" if "fst ` set (line @ as) \<subseteq> range done_record" for line
    using that
  proof (induction as arbitrary: line)
    case Nil
    then show ?case by (auto simp: line_records_def split: list.splits)
  next
    case (Cons a as)
    have "set (line_records (line @ [a])) \<subseteq> (\<lambda>e. sort_json (done_record e)) ` UNIV"
      using Cons.prems by (auto simp: line_records_def split: list.splits)
    moreover have "fst ` set ([] @ as) \<subseteq> range done_record" "fst ` set (line @ as) \<subseteq> range done_record"
        "fst ` set ((line @ [a]) @ as) \<subseteq> range done_record" using Cons.prems by auto
    note Cons.IH [OF this(1)] Cons.IH [OF this(2)] Cons.IH [OF this(3)]
    ultimately show ?case by (simp only: survivors.simps set_append split: if_split) blast
  qed
  from this [of "[]"] as(2) show ?thesis by (simp add: own_records_def r)
qed

lemma survivors_snoc: "set (survivors line (as @ [a])) \<subseteq> insert (sort_json (fst a)) (set (survivors line as))"
proof (induction as arbitrary: line)
  case Nil
  have "set (line_records (line @ [a])) \<subseteq> insert (sort_json (fst a)) (set (line_records line))"
    by (cases line) (auto simp: line_records_def split: list.splits)
  then show ?case by (auto simp: line_records_def)
next
  case (Cons b as)
  from Cons.IH [of "[]"] Cons.IH [of line] Cons.IH [of "line @ [b]"] show ?case by auto
qed

text \<open>An append of the store, cut after \<open>n\<close> characters of its line by a crash, or whole.\<close>

definition cut_append :: "nat \<Rightarrow> string \<Rightarrow> json \<Rightarrow> local_store \<Rightarrow> local_store" where
  "cut_append n name rec s = s\<lparr>ls_logs :=
     AList.update name ((case map_of (ls_logs s) name of None \<Rightarrow> [] | Some c \<Rightarrow> c) @ take n (record_line rec)) (ls_logs s)\<rparr>"

lemma append_log_cut: "append_log name rec s = (Inr (), cut_append (length (record_line rec)) name rec s)"
  by (simp add: append_log_def cut_append_def)

lemma own_log_append:
  assumes "own_log c"
  shows "own_log (c @ take n (record_line (done_record e)))"
    and "set (read_lines (c @ take n (record_line (done_record e)))) \<subseteq> insert (sort_json (done_record e)) (set (read_lines c))"
proof -
  from assms obtain as where as: "c = log_text as" "fst ` set as \<subseteq> range done_record" by (auto simp: own_log_def)
  let ?as = "as @ [(done_record e, n)]"
  have t: "c @ take n (record_line (done_record e)) = log_text ?as"
    by (simp add: as(1) log_text_def append_text_def)
  with as(2) show "own_log (c @ take n (record_line (done_record e)))"
    unfolding own_log_def by (intro exI [of _ ?as]) auto
  have "\<forall>a \<in> set ?as. loggable (fst a)" "\<forall>a \<in> set as. loggable (fst a)"
    using as(2) loggable_done_record by force+
  then show "set (read_lines (c @ take n (record_line (done_record e)))) \<subseteq> insert (sort_json (done_record e)) (set (read_lines c))"
    using survivors_snoc [of "[]" as "(done_record e, n)"] read_lines_from [of "[]"] t as(1)
    by (simp add: line_text_def)
qed

lemma own_log_Nil [simp]: "own_log []" "read_lines [] = []"
  unfolding own_log_def
  by (rule exI [of _ "[]"]) (simp_all add: log_text_def read_lines_def map_filter_simps parse_record_def loads_def skip_ws_def parse_value.simps(2))

lemma cut_append_journal:
  assumes "local_valid s"
  shows "local_valid (cut_append n name (done_record e) s)"
    and "e' \<in> local_entries (cut_append n name (done_record e) s) \<Longrightarrow> e' \<in> local_entries s \<or> e' = e \<and> is_journal name"
proof -
  let ?c = "case map_of (ls_logs s) name of None \<Rightarrow> [] | Some c \<Rightarrow> c"
  have own: "is_journal name \<Longrightarrow> own_log ?c" using assms by (auto simp: local_valid_def split: option.splits)
  show "local_valid (cut_append n name (done_record e) s)"
    using assms own_log_append(1) [OF own] by (auto simp: local_valid_def cut_append_def update_conv)
  have r: "log_records m (cut_append n name (done_record e) s) =
      (if m = name then read_lines (?c @ take n (record_line (done_record e))) else log_records m s)" for m
    by (simp add: log_records_def cut_append_def update_conv)
  have q: "log_records name s = read_lines ?c" by (simp add: log_records_def split: option.split)
  show "e' \<in> local_entries s \<or> e' = e \<and> is_journal name"
    if "e' \<in> local_entries (cut_append n name (done_record e) s)"
  proof -
    from that obtain m where m: "is_journal m" "sort_json (done_record e') \<in> set (log_records m (cut_append n name (done_record e) s))"
      by (auto simp: local_entries_def)
    show ?thesis
    proof (cases "m = name")
      case True
      with m r own_log_append(2) [OF own] have "sort_json (done_record e') \<in> insert (sort_json (done_record e)) (set (log_records name s))"
        by (auto simp: q)
      moreover have "sort_json (done_record e') = sort_json (done_record e) \<Longrightarrow> e' = e"
        using entry_of_done_record by (metis option.inject)
      ultimately show ?thesis using m True by (auto simp: local_entries_def)
    next
      case False
      with m r show ?thesis by (auto simp: local_entries_def)
    qed
  qed
qed

lemma is_journal_journal_name [simp]: "is_journal (journal_name node)"
  by (cases node) (auto simp: is_journal_def journal_name_def starts_with_iff)

lemma not_journal_dead [simp]: "\<not> is_journal dead_letter_log"
  by (simp add: is_journal_def dead_letter_log_def)

lemma append_dead:
  "local_valid s \<Longrightarrow> local_valid (cut_append n dead_letter_log d s) \<and> local_entries (cut_append n dead_letter_log d s) = local_entries s"
  using not_journal_dead
  by (simp add: local_valid_def local_entries_def log_records_def cut_append_def update_conv cong: conj_cong imp_cong)
     (metis not_journal_dead)

lemma local_blobs_only [simp]:
  "local_valid (s\<lparr>ls_blobs := bl\<rparr>) = local_valid s" "local_entries (s\<lparr>ls_blobs := bl\<rparr>) = local_entries s"
  "local_valid (s\<lparr>ls_bad := bd\<rparr>) = local_valid s" "local_entries (s\<lparr>ls_bad := bd\<rparr>) = local_entries s"
  by (simp_all add: local_valid_def local_entries_def log_records_def)

lemma own_records_concat: "(\<And>x. x \<in> set xs \<Longrightarrow> own_records (f x)) \<Longrightarrow> own_records (concat (map f xs))"
  by (auto simp: own_records_def)

lemma log_records_own: "local_valid s \<Longrightarrow> is_journal n \<Longrightarrow> own_records (log_records n s)"
proof (cases "map_of (ls_logs s) n")
  case (Some c)
  assume "local_valid s" "is_journal n"
  with Some have "own_log c" by (simp add: local_valid_def)
  with Some show ?thesis by (simp add: log_records_def own_log_read)
qed (simp add: log_records_def own_records_def)

interpretation local: checkpoint_store sha "local_ops sha node" local_valid local_entries
proof unfold_locales
  fix s :: local_store and data
  assume v: "local_valid s"
  show "\<exists>s'. so_put (local_ops sha node) data s = (Inr (sha data), s') \<and> local_valid s' \<and> local_entries s' = local_entries s"
    using v by (simp add: local_ops_def store_put_def atomic_write_def Let_def act_eval)
next
  fix s :: local_store and digest
  assume v: "local_valid s"
  show "\<exists>r s'. so_get (local_ops sha node) digest s = (Inr r, s') \<and> local_valid s' \<and> local_entries s' = local_entries s
      \<and> (\<forall>data. r = Some data \<longrightarrow> sha data = digest)"
    using v by (auto simp: local_ops_def store_get_def split: option.split)
next
  fix s :: local_store and e
  assume v: "local_valid s"
  show "\<exists>s'. so_record_done (local_ops sha node) e s = (Inr (), s') \<and> local_valid s' \<and> local_entries s' \<subseteq> insert e (local_entries s)"
    using cut_append_journal(1) [OF v] cut_append_journal(2) [OF v, where name = "journal_name node" and e = e]
    by (simp add: local_ops_def store_record_done_def append_log_cut) blast
next
  fix s :: local_store and t b
  assume v: "local_valid s"
  show "\<exists>s'. so_record_environment (local_ops sha node) t b s = (Inr (), s') \<and> local_valid s'
      \<and> local_entries s' \<subseteq> insert (environment_entry t b) (local_entries s)"
    using cut_append_journal(1) [OF v] cut_append_journal(2) [OF v, where name = environment_journal and e = "environment_entry t b"]
    by (simp add: local_ops_def store_record_environment_def append_log_cut) blast
next
  fix s :: local_store
  assume v: "local_valid s"
  let ?ds = "concat (map (\<lambda>n. log_records n s) (sort (List.filter is_journal (map fst (ls_logs s)))))"
  have "own_records ?ds"
    using log_records_own [OF v] by (intro own_records_concat) simp
  from replay_sound [OF this] obtain c where c: "replay (\<lambda>d. has_blob d s) ?ds = Inr c"
    "\<And>t e. map_of (co_entries c) t = Some e \<Longrightarrow> e \<in> entries_in ?ds \<and> je_task_id e = t \<and> has_blob (je_blob e) s \<and> je_stage e \<noteq> ''environment''"
    "\<And>e. e \<in> set (co_environments c) \<Longrightarrow> e \<in> entries_in ?ds \<and> has_blob (je_blob e) s \<and> je_stage e = ''environment''" by blast
  have "entries_in ?ds \<subseteq> local_entries s" by (auto simp: entries_in_def local_entries_def)
  with c v show "\<exists>c s'. so_completed (local_ops sha node) s = (Inr c, s') \<and> local_valid s' \<and> local_entries s' = local_entries s
      \<and> (\<forall>t e. map_of (co_entries c) t = Some e \<longrightarrow> e \<in> local_entries s \<and> je_task_id e = t \<and> je_stage e \<noteq> ''environment'')
      \<and> (\<forall>e \<in> set (co_environments c). e \<in> local_entries s \<and> je_stage e = ''environment'')"
    by (intro exI [of _ c] exI [of _ s]) (auto simp: local_ops_def store_completed_def)
next
  fix s :: local_store and d
  assume v: "local_valid s"
  show "\<exists>s'. so_record_dead (local_ops sha node) d s = (Inr (), s') \<and> local_valid s' \<and> local_entries s' = local_entries s"
    using append_dead [OF v] by (simp add: local_ops_def store_record_dead_def append_log_cut)
next
  fix s :: local_store
  assume v: "local_valid s"
  then show "\<exists>ds s'. so_dead_letters (local_ops sha node) s = (Inr ds, s') \<and> local_valid s' \<and> local_entries s' = local_entries s"
    by (simp add: local_ops_def store_dead_letters_def)
qed

section \<open>The store at a URL keeps the contract\<close>

text \<open>
  Every object of a journal holds one line of the store's own (a write of a whole object is not torn),
  and the cache agrees with the objects.
\<close>

definition url_valid :: "url_store \<Rightarrow> bool" where
  "url_valid s \<longleftrightarrow>
     (\<forall>n raw. map_of (us_records s) n = Some raw \<longrightarrow> under is_journal n \<longrightarrow> (\<exists>e. raw = record_line (done_record e))) \<and>
     (\<forall>n rec. map_of (us_cache s) n = Some rec \<longrightarrow> under is_journal n \<longrightarrow> (\<exists>e. rec = sort_json (done_record e)))"

definition url_entries :: "url_store \<Rightarrow> journal_entry set" where
  "url_entries s = {e. \<exists>n. under is_journal n \<and>
     (map_of (us_cache s) n = Some (sort_json (done_record e)) \<or>
      map_of (us_cache s) n = None \<and> map_of (us_records s) n = Some (record_line (done_record e)))}"

lemma parse_record_line_done: "parse_record (record_line (done_record e)) = Some (sort_json (done_record e))"
proof -
  have "loads (record_line (done_record e)) = Some (sort_json (done_record e))"
    unfolding record_line_def
    by (rule loads_dumps_ws) (simp_all add: wf_done_record newline_def is_ws_def skip_ws_def stops_def num_char_def is_digit_def)
  then show ?thesis using done_record_obj [of e] by (auto simp: parse_record_def)
qed

lemma record_line_inject: "record_line (done_record e) = record_line (done_record e') \<longleftrightarrow> e = e'"
  using parse_record_line_done entry_of_done_record by (metis option.inject)

lemma under_prefix:
  assumes "CHR ''/'' \<notin> set prefix"
  shows "under pat (prefix @ ''/'' @ rest) \<longleftrightarrow> pat prefix \<and> CHR ''/'' \<notin> set rest"
proof -
  have "str_partition ''/'' (prefix @ ''/'' @ rest) = (prefix, True, rest)"
    using assms by (induction prefix) auto
  then show ?thesis by (simp add: under_def)
qed

lemma map_of_parse_missing:
  "map_of (parse_missing s names) n =
     (if n \<in> set names \<and> map_of (us_cache s) n = None then Option.bind (map_of (us_records s) n) parse_record else None)"
  by (induction names) (auto simp: parse_missing_def map_filter_simps split: option.splits)

text \<open>A listing reads the objects it matches and leaves what can be read unchanged.\<close>

lemma url_validD:
  "url_valid s \<Longrightarrow> map_of (us_records s) n = Some raw \<Longrightarrow> under is_journal n \<Longrightarrow> \<exists>e. raw = record_line (done_record e)"
  "url_valid s \<Longrightarrow> map_of (us_cache s) n = Some rec \<Longrightarrow> under is_journal n \<Longrightarrow> \<exists>e. rec = sort_json (done_record e)"
  unfolding url_valid_def by blast+

lemma url_list_ok:
  assumes v: "url_valid s" and names: "names = sort (List.filter (under pat) (map fst (us_records s)))"
  defines "s' \<equiv> s\<lparr>us_cache := us_cache s @ parse_missing s names\<rparr>"
  shows "url_valid s'" "url_entries s' = url_entries s"
    "pat = is_journal \<Longrightarrow> own_records (List.map_filter (map_of (us_cache s')) names)"
    "pat = is_journal \<Longrightarrow> entries_in (List.map_filter (map_of (us_cache s')) names) \<subseteq> url_entries s"
proof -
  have c: "map_of (us_cache s') n = (case map_of (us_cache s) n of Some rec \<Rightarrow> Some rec
      | None \<Rightarrow> if n \<in> set names then Option.bind (map_of (us_records s) n) parse_record else None)" for n
    by (simp add: s'_def map_of_append map_add_def map_of_parse_missing split: option.split)
  have r: "us_records s' = us_records s" by (simp add: s'_def)
  have c1: "map_of (us_cache s') n = Some rec \<Longrightarrow> under is_journal n \<Longrightarrow>
      \<exists>e. rec = sort_json (done_record e) \<and> e \<in> url_entries s" for n rec
  proof -
    assume a: "map_of (us_cache s') n = Some rec" "under is_journal n"
    show ?thesis
    proof (cases "map_of (us_cache s) n")
      case (Some rec')
      with a c have "rec' = rec" by simp
      with Some url_validD(2) [OF v] a(2) obtain e where "rec = sort_json (done_record e)" by blast
      with Some a(2) \<open>rec' = rec\<close> show ?thesis by (auto simp: url_entries_def)
    next
      case None
      with a c obtain raw where raw: "map_of (us_records s) n = Some raw" "parse_record raw = Some rec"
        by (auto split: if_splits Option.bind_splits)
      with url_validD(1) [OF v] a(2) obtain e where "raw = record_line (done_record e)" by blast
      with raw None a(2) parse_record_line_done show ?thesis by (auto simp: url_entries_def)
    qed
  qed
  show "url_valid s'" using v c1 by (fastforce simp: url_valid_def r)
  show "url_entries s' = url_entries s"
  proof
    show "url_entries s' \<subseteq> url_entries s"
    proof
      fix e
      assume "e \<in> url_entries s'"
      then obtain n where n: "under is_journal n" "map_of (us_cache s') n = Some (sort_json (done_record e)) \<or>
          map_of (us_cache s') n = None \<and> map_of (us_records s) n = Some (record_line (done_record e))"
        by (auto simp: url_entries_def r)
      then show "e \<in> url_entries s"
      proof (elim disjE)
        assume "map_of (us_cache s') n = Some (sort_json (done_record e))"
        from c1 [OF this n(1)] obtain e' where "sort_json (done_record e) = sort_json (done_record e')" "e' \<in> url_entries s" by blast
        then show ?thesis using entry_of_done_record by (metis option.inject)
      next
        assume "map_of (us_cache s') n = None \<and> map_of (us_records s) n = Some (record_line (done_record e))"
        moreover from this have "map_of (us_cache s) n = None" using c [of n] by (auto split: option.splits)
        ultimately show ?thesis using n(1) by (auto simp: url_entries_def)
      qed
    qed
    show "url_entries s \<subseteq> url_entries s'"
    proof
      fix e
      assume "e \<in> url_entries s"
      then obtain n where n: "under is_journal n" "map_of (us_cache s) n = Some (sort_json (done_record e)) \<or>
          map_of (us_cache s) n = None \<and> map_of (us_records s) n = Some (record_line (done_record e))"
        by (auto simp: url_entries_def)
      with c [of n] parse_record_line_done [of e] show "e \<in> url_entries s'"
        by (cases "n \<in> set names") (auto simp: url_entries_def r intro!: exI [of _ n])
    qed
  qed
  assume p: "pat = is_journal"
  then have j: "n \<in> set names \<Longrightarrow> under is_journal n" for n by (simp add: names)
  show "own_records (List.map_filter (map_of (us_cache s')) names)"
    using c1 j by (fastforce simp: own_records_def map_filter_def)
  show "entries_in (List.map_filter (map_of (us_cache s')) names) \<subseteq> url_entries s"
  proof
    fix e
    assume "e \<in> entries_in (List.map_filter (map_of (us_cache s')) names)"
    then obtain n where "n \<in> set names" "map_of (us_cache s') n = Some (sort_json (done_record e))"
      by (auto simp: entries_in_def map_filter_def)
    with c1 j obtain e' where "sort_json (done_record e) = sort_json (done_record e')" "e' \<in> url_entries s" by blast
    then show "e \<in> url_entries s" using entry_of_done_record by (metis option.inject)
  qed
qed

lemma url_append_ok:
  assumes v: "url_valid s" and name: "snd (url_append pe prefix rec s) = s'"
  shows "rec = done_record e \<Longrightarrow> url_valid s' \<and> url_entries s' \<subseteq> insert e (url_entries s)"
    and "prefix = dead_letter_log \<Longrightarrow> url_valid s' \<and> url_entries s' = url_entries s"
proof -
  let ?t = "if us_pid s \<noteq> pe_pid pe then new_writer pe s else s"
  let ?n = "prefix @ ''/'' @ us_writer ?t @ ''-'' @ pad_zeros 12 (dec (int (us_seq ?t)))"
  have s': "us_cache s' = us_cache s" "us_records s' = AList.update ?n (record_line rec) (us_records s)"
    using name by (auto simp: url_append_def Let_def new_writer_def)
  show "rec = done_record e \<Longrightarrow> url_valid s' \<and> url_entries s' \<subseteq> insert e (url_entries s)"
    unfolding url_valid_def url_entries_def s' update_conv
    using v [unfolded url_valid_def] by (auto simp: record_line_inject)
  have "\<not> under is_journal (dead_letter_log @ ''/'' @ r)" for r
    by (subst under_prefix) (simp_all add: dead_letter_log_def is_journal_def)
  then have "under is_journal n \<Longrightarrow> n \<noteq> ?n" if "prefix = dead_letter_log" for n using that by blast
  then have "under is_journal n \<Longrightarrow> map_of (us_records s') n = map_of (us_records s) n" if "prefix = dead_letter_log" for n
    using that by (simp add: s'(2) update_conv del: append.simps)
  then show "prefix = dead_letter_log \<Longrightarrow> url_valid s' \<and> url_entries s' = url_entries s"
    using v by (auto simp: url_valid_def url_entries_def s'(1))
qed

lemma url_append_Inr: "fst (url_append pe prefix rec s) = Inr ()"
  by (simp add: url_append_def Let_def)

lemma url_blobs_only [simp]:
  "url_valid (s\<lparr>us_blobs := bl\<rparr>) = url_valid s" "url_entries (s\<lparr>us_blobs := bl\<rparr>) = url_entries s"
  "url_valid (s\<lparr>us_bad := bd\<rparr>) = url_valid s" "url_entries (s\<lparr>us_bad := bd\<rparr>) = url_entries s"
  by (simp_all add: url_valid_def url_entries_def)

interpretation url: checkpoint_store sha "url_ops sha pe node" url_valid url_entries
proof unfold_locales
  fix s :: url_store and data
  assume v: "url_valid s"
  show "\<exists>s'. so_put (url_ops sha pe node) data s = (Inr (sha data), s') \<and> url_valid s' \<and> url_entries s' = url_entries s"
    using v by (simp add: url_ops_def url_put_def Let_def)
next
  fix s :: url_store and digest
  assume v: "url_valid s"
  show "\<exists>r s'. so_get (url_ops sha pe node) digest s = (Inr r, s') \<and> url_valid s' \<and> url_entries s' = url_entries s
      \<and> (\<forall>data. r = Some data \<longrightarrow> sha data = digest)"
    using v by (auto simp: url_ops_def url_get_def split: option.split)
next
  fix s :: url_store and e
  assume v: "url_valid s"
  show "\<exists>s'. so_record_done (url_ops sha pe node) e s = (Inr (), s') \<and> url_valid s' \<and> url_entries s' \<subseteq> insert e (url_entries s)"
    using url_append_ok(1) [OF v refl refl] url_append_Inr
    by (simp add: url_ops_def url_record_done_def) (metis prod.collapse)
next
  fix s :: url_store and t b
  assume v: "url_valid s"
  show "\<exists>s'. so_record_environment (url_ops sha pe node) t b s = (Inr (), s') \<and> url_valid s'
      \<and> url_entries s' \<subseteq> insert (environment_entry t b) (url_entries s)"
    using url_append_ok(1) [OF v refl refl] url_append_Inr
    by (simp add: url_ops_def url_record_environment_def) (metis prod.collapse)
next
  fix s :: url_store
  assume v: "url_valid s"
  let ?names = "sort (List.filter (under is_journal) (map fst (us_records s)))"
  let ?s = "s\<lparr>us_cache := us_cache s @ parse_missing s ?names\<rparr>"
  let ?ds = "List.map_filter (map_of (us_cache ?s)) ?names"
  note l = url_list_ok [OF v, of ?names is_journal, OF refl]
  from replay_sound [OF l(3) [OF refl]] obtain c where c: "replay (\<lambda>d. d \<in> fst ` set (us_blobs s)) ?ds = Inr c"
    "\<And>t e. map_of (co_entries c) t = Some e \<Longrightarrow> e \<in> entries_in ?ds \<and> je_task_id e = t \<and> je_blob e \<in> fst ` set (us_blobs s) \<and> je_stage e \<noteq> ''environment''"
    "\<And>e. e \<in> set (co_environments c) \<Longrightarrow> e \<in> entries_in ?ds \<and> je_blob e \<in> fst ` set (us_blobs s) \<and> je_stage e = ''environment''" by blast
  have "so_completed (url_ops sha pe node) s = (Inr c, ?s)"
    using c(1) by (simp add: url_ops_def url_completed_def url_list_def Let_def act_eval)
  with c(2,3) l(1,2) l(4) [OF refl] show "\<exists>c s'. so_completed (url_ops sha pe node) s = (Inr c, s') \<and> url_valid s' \<and> url_entries s' = url_entries s
      \<and> (\<forall>t e. map_of (co_entries c) t = Some e \<longrightarrow> e \<in> url_entries s \<and> je_task_id e = t \<and> je_stage e \<noteq> ''environment'')
      \<and> (\<forall>e \<in> set (co_environments c). e \<in> url_entries s \<and> je_stage e = ''environment'')"
    by (intro exI [of _ c] exI [of _ ?s]) blast
next
  fix s :: url_store and d
  assume v: "url_valid s"
  show "\<exists>s'. so_record_dead (url_ops sha pe node) d s = (Inr (), s') \<and> url_valid s' \<and> url_entries s' = url_entries s"
    using url_append_ok(2) [OF v refl refl] url_append_Inr
    by (simp add: url_ops_def url_record_dead_def) (metis prod.collapse)
next
  fix s :: url_store
  assume v: "url_valid s"
  then show "\<exists>ds s'. so_dead_letters (url_ops sha pe node) s = (Inr ds, s') \<and> url_valid s' \<and> url_entries s' = url_entries s"
    using url_list_ok(1,2) [OF v refl, where pat = "\<lambda>prefix. prefix = dead_letter_log"]
    by (simp add: url_ops_def url_dead_letters_def url_list_def Let_def)
qed

section \<open>Blobs and entries\<close>

lemma read_blob_denied: "read_blob bs n c = (if n \<le> length bs then Inr c else Inl (PermissionError []))"
  by (induction bs n c rule: read_blob.induct) auto

lemma store_get_spec:
  "fst (store_get sha denied digest s) =
     (if 4 < denied then Inl (PermissionError [])
      else Inr (case map_of (ls_blobs s) digest of Some b \<Rightarrow> if sha b = digest then Some b else None | None \<Rightarrow> None))"
  by (auto simp: store_get_def read_blob_denied read_backoff_def split: option.split)

lemma put_then_get:
  "let s1 = snd (store_put sha False data s); (r, s2) = store_get sha 0 (sha data) s1;
       s3 = snd (store_put sha False data s2)
   in (case r of Inr (Some b) \<Rightarrow> sha b = sha data \<and> length b = length data
       | Inr None \<Rightarrow> fst (store_get sha 0 (sha data) s3) = Inr (Some data)
       | Inl _ \<Rightarrow> False)"
  by (auto simp: store_put_def store_get_def blob_size_def atomic_write_def act_eval Let_def update_conv split: option.split)

text \<open>
  C19. Blobs of the local store. A lookup serves only bytes that hash to their name, a read that is
  denied more than four times raises, and a lookup after a \<open>put\<close> gives the bytes that were put (or
  bytes of the same hash and length) or nothing (a blob that was overwritten by other bytes of the
  same length), in which case the next \<open>put\<close> repairs the blob.
\<close>
theorem blob_integrity:
  "(fst (store_get sha denied digest s) =
     (if 4 < denied then Inl (PermissionError [])
      else Inr (case map_of (ls_blobs s) digest of Some b \<Rightarrow> if sha b = digest then Some b else None | None \<Rightarrow> None)))
   \<and> (let s1 = snd (store_put sha False data s); (r, s2) = store_get sha 0 (sha data) s1;
          s3 = snd (store_put sha False data s2)
      in (case r of Inr (Some b) \<Rightarrow> sha b = sha data \<and> length b = length data
          | Inr None \<Rightarrow> fst (store_get sha 0 (sha data) s3) = Inr (Some data)
          | Inl _ \<Rightarrow> False))"
  using store_get_spec put_then_get by blast

definition whole_lines :: "string \<Rightarrow> journal_entry list \<Rightarrow> bool" where
  "whole_lines c es \<longleftrightarrow> c = concat (map (\<lambda>e. record_line (done_record e)) es)"

lemma read_whole_lines: "whole_lines c es \<Longrightarrow> read_lines c = map (\<lambda>e. sort_json (done_record e)) es"
proof -
  let ?as = "map (\<lambda>e. (done_record e, length (record_line (done_record e)))) es"
  assume "whole_lines c es"
  then have c: "c = log_text ?as" by (simp add: whole_lines_def log_text_def append_text_def comp_def)
  have "survivors [] ?as = map (\<lambda>e. sort_json (done_record e)) es"
    by (induction es) (simp_all add: ended_def record_line_def line_records_def whole_def)
  with c read_lines_from [of "[]" ?as] loggable_done_record show ?thesis by (simp add: line_text_def)
qed

lemma fold_replay_other:
  "\<forall>e \<in> set es. je_task_id e \<noteq> t \<Longrightarrow> map_of (co_entries (fold (replay_step present) es c)) t = map_of (co_entries c) t"
  by (induction es arbitrary: c) (auto simp: replay_step_def update_conv)

lemma replay_last:
  assumes "own_records xs" "own_records ys" "present (je_blob e)" "je_stage e \<noteq> ''environment''"
    and "\<forall>e' \<in> entries_in ys. je_task_id e' \<noteq> je_task_id e"
  shows "\<exists>c. replay present (xs @ sort_json (done_record e) # ys) = Inr c \<and> map_of (co_entries c) (je_task_id e) = Some e"
proof -
  let ?f = "\<lambda>e. sort_json (done_record e)"
  from own_recordsE [OF assms(1)] obtain es where es: "xs = map ?f es" by blast
  from own_recordsE [OF assms(2)] obtain fs where fs: "ys = map ?f fs" "set fs = entries_in ys" .
  have "xs @ ?f e # ys = map ?f (es @ e # fs)" by (simp add: es fs(1))
  then have "replay present (xs @ ?f e # ys) = Inr (fold (replay_step present) (es @ e # fs) \<lparr>co_entries = [], co_environments = []\<rparr>)"
    by (simp only: replay_def replay_from_own)
  moreover have "map_of (co_entries (fold (replay_step present) (es @ e # fs) \<lparr>co_entries = [], co_environments = []\<rparr>)) (je_task_id e) = Some e"
    using assms(3-5) fs(2) fold_replay_other [of fs "je_task_id e"] by (simp add: replay_step_def update_conv)
  ultimately show ?thesis by blast
qed

text \<open>The journals after an entry was recorded: its own ends with the entry, the others are as they were.\<close>

lemma record_done_logs:
  fixes e :: journal_entry
  assumes "\<forall>c. map_of (ls_logs s) (journal_name node) = Some c \<longrightarrow> whole_lines c old"
    and "map_of (ls_logs s) (journal_name node) = None \<longrightarrow> old = []"
  defines "s' \<equiv> snd (store_record_done node e s)"
  shows "log_records (journal_name node) s' = map (\<lambda>e. sort_json (done_record e)) old @ [sort_json (done_record e)]"
    and "n \<noteq> journal_name node \<Longrightarrow> log_records n s' = log_records n s"
    and "journal_name node \<in> set (sort (List.filter is_journal (map fst (ls_logs s'))))"
    and "has_blob d s' = has_blob d s" and "local_valid s \<Longrightarrow> local_valid s'"
proof -
  let ?j = "journal_name node"
  let ?c = "case map_of (ls_logs s) ?j of None \<Rightarrow> [] | Some c \<Rightarrow> c"
  have c: "whole_lines (?c @ record_line (done_record e)) (old @ [e])"
    using assms(1,2) by (auto simp: whole_lines_def split: option.splits)
  have s': "ls_logs s' = AList.update ?j (?c @ record_line (done_record e)) (ls_logs s)" "ls_blobs s' = ls_blobs s"
    by (simp_all add: s'_def store_record_done_def append_log_def)
  show "log_records ?j s' = map (\<lambda>e. sort_json (done_record e)) old @ [sort_json (done_record e)]"
    using read_whole_lines [OF c] by (simp add: log_records_def s' update_conv)
  show "n \<noteq> ?j \<Longrightarrow> log_records n s' = log_records n s" by (simp add: log_records_def s' update_conv)
  show "?j \<in> set (sort (List.filter is_journal (map fst (ls_logs s'))))" by (simp add: s' dom_update)
  show "has_blob d s' = has_blob d s" by (simp add: has_blob_def s')
  show "local_valid s \<Longrightarrow> local_valid s'"
    using cut_append_journal(1) [of s] by (simp add: s'_def store_record_done_def append_log_cut local_valid_def)
qed

text \<open>
  C18. A finished task is found again. When the writer's journal holds whole lines only and no other
  journal names the task, then after its result was put and its entry recorded, the entry is read
  back field by field.
\<close>
theorem recorded_task_found:
  assumes "local_valid s" and "\<forall>c. map_of (ls_logs s) (journal_name node) = Some c \<longrightarrow> whole_lines c old"
    and "map_of (ls_logs s) (journal_name node) = None \<longrightarrow> old = []"
    and "\<forall>n e'. is_journal n \<and> n \<noteq> journal_name node \<and> sort_json (done_record e') \<in> set (log_records n s) \<longrightarrow> je_task_id e' \<noteq> je_task_id e"
    and "je_stage e \<noteq> ''environment''" "je_blob e = sha data"
  shows "\<exists>c. fst (store_completed (snd (store_record_done node e (snd (store_put sha False data s))))) = Inr c
    \<and> map_of (co_entries c) (je_task_id e) = Some e"
proof -
  let ?j = "journal_name node"
  define s1 where "s1 = snd (store_put sha False data s)"
  define s2 where "s2 = snd (store_record_done node e s1)"
  have s1: "ls_logs s1 = ls_logs s" "has_blob (sha data) s1"
    by (auto simp: s1_def store_put_def atomic_write_def act_eval Let_def blob_size_def has_blob_def update_conv)
  note logs = record_done_logs [where s = s1 and node = node and old = old and e = e, folded s2_def, unfolded s1(1), OF assms(2,3)]
  have o': "n \<noteq> ?j \<Longrightarrow> log_records n s2 = log_records n s" for n using logs(2) by (simp add: log_records_def s1)
  let ?names = "sort (List.filter is_journal (map fst (ls_logs s2)))"
  from split_list_last [OF logs(3)] obtain A B where AB: "?names = A @ ?j # B" "?j \<notin> set B" by blast
  then have "set A \<union> set B \<subseteq> set ?names" by auto
  then have js: "\<forall>n \<in> set A \<union> set B. is_journal n" by auto
  have "local_valid s1" using assms(1) s1(1) by (simp add: local_valid_def)
  then have own: "own_records (concat (map (\<lambda>n. log_records n s2) ns))" if "\<forall>n \<in> set ns. is_journal n" for ns
    using that log_records_own [OF logs(5)] by (intro own_records_concat) simp
  have "own_records (concat (map (\<lambda>n. log_records n s2) A) @ map (\<lambda>e. sort_json (done_record e)) old)"
    using own [of A] js by (auto simp: own_records_def)
  moreover have "own_records (concat (map (\<lambda>n. log_records n s2) B))" using own [of B] js by simp
  moreover have "has_blob (je_blob e) s2" using s1(2) by (simp add: logs(4) assms(6))
  moreover have "\<forall>e' \<in> entries_in (concat (map (\<lambda>n. log_records n s2) B)). je_task_id e' \<noteq> je_task_id e"
  proof
    fix e'
    assume "e' \<in> entries_in (concat (map (\<lambda>n. log_records n s2) B))"
    then obtain n where n: "n \<in> set B" "sort_json (done_record e') \<in> set (log_records n s2)" by (auto simp: entries_in_def)
    then have "n \<noteq> ?j" "is_journal n" using AB(2) js by auto
    with n o' assms(4) show "je_task_id e' \<noteq> je_task_id e" by metis
  qed
  ultimately show ?thesis
    using replay_last [of "concat (map (\<lambda>n. log_records n s2) A) @ map (\<lambda>e. sort_json (done_record e)) old"
        "concat (map (\<lambda>n. log_records n s2) B)" "\<lambda>d. has_blob d s2" e] assms(5)
    unfolding s2_def [symmetric] s1_def [symmetric] store_completed_def AB(1) by (simp add: logs(1))
qed

definition fresh_store :: local_store where
  "fresh_store = \<lparr>ls_blobs = [], ls_logs = [], ls_bad = []\<rparr>"

lemma fresh_store_valid [simp]: "local_valid fresh_store" "local_entries fresh_store = {}"
  by (simp_all add: local_valid_def fresh_store_def local_entries_def log_records_def)

definition sample_entry :: journal_entry where
  "sample_entry = \<lparr>je_task_id = ''t'', je_partition = ''f@0:1'', je_blob = ''6'', je_stage = [], je_deps = []\<rparr>"

theorem recorded_task_found_witness:
  "\<exists>c. fst (store_completed (snd (store_record_done None sample_entry
       (snd (store_put (\<lambda>b. dec (int (length b))) False ''result'' fresh_store))))) = Inr c
    \<and> map_of (co_entries c) ''t'' = Some sample_entry"
proof -
  have d: "dec 6 = ''6''" by code_simp
  show ?thesis
    using recorded_task_found [of fresh_store None "[]" sample_entry "\<lambda>b. dec (int (length b))" "''result''"]
    by (simp add: sample_entry_def d) (simp add: fresh_store_def log_records_def)
qed

end
