(* ===== verification/Environment.thy ===== *)
theory Environment
  imports Store
begin

text \<open>
  What the resumable runners check before they run (\<open>checkpoint/resume.py\<close>): the environment record of
  a store, and the warning that nothing a store holds for these partitions is reused.
\<close>

section \<open>Sessions\<close>

text \<open>
  The state of a run: the store, the outside world the callables read and change (\<open>'w\<close>), the warnings
  of the process and the messages it logged.
\<close>

record ('s, 'w) session =
  se_store :: 's
  se_world :: 'w
  se_warnings :: warning_state
  se_log :: "string list"

definition on_store :: "('a, 's) action \<Rightarrow> ('a, ('s, 'w) session) action" where
  "on_store m = (\<lambda>s. case m (se_store s) of (r, t) \<Rightarrow> (r, s\<lparr>se_store := t\<rparr>))"

definition on_world :: "('a, 'w) action \<Rightarrow> ('a, ('s, 'w) session) action" where
  "on_world m = (\<lambda>s. case m (se_world s) of (r, t) \<Rightarrow> (r, s\<lparr>se_world := t\<rparr>))"

definition log_message :: "string \<Rightarrow> (unit, ('s, 'w) session) action" where
  "log_message text = (\<lambda>s. (Inr (), s\<lparr>se_log := se_log s @ [text]\<rparr>))"

definition drop_warnings :: "'v carrier \<Rightarrow> ('v, ('s, 'w) session) action" where
  "drop_warnings value = (\<lambda>s. case without_warnings value (se_warnings s) of
     (plain, w) \<Rightarrow> (Inr plain, s\<lparr>se_warnings := w\<rparr>))"

section \<open>The environment\<close>

text \<open>\<open>re.sub(r"[-_.]+", "-", name).lower()\<close>\<close>

definition is_dash :: "char \<Rightarrow> bool" where
  "is_dash c \<longleftrightarrow> c \<in> {CHR ''-'', CHR ''_'', CHR ''.''}"

function dashed :: "string \<Rightarrow> string" where
  "dashed [] = []"
| "dashed (c # cs) =
     (if is_dash c then CHR ''-'' # dashed (dropWhile is_dash cs) else c # dashed cs)"
  by pat_completeness auto

termination
  by (relation "measure length") (auto simp: le_imp_less_Suc length_dropWhile_le)

definition lower_char :: "char \<Rightarrow> char" where
  "lower_char c = (let n = of_char c :: nat
     in if 65 \<le> n \<and> n \<le> 90 \<or> 192 \<le> n \<and> n \<le> 222 \<and> n \<noteq> 215 then char_of (n + 32) else c)"

definition normal_name :: "string \<Rightarrow> string" where
  "normal_name n = map lower_char (dashed n)"

text \<open>What the interpreter knows: its cache tag and the installed distributions in import order.\<close>

record installation =
  in_cache_tag :: string
  in_distributions :: "(string option \<times> string) list"

definition distributions :: "installation \<Rightarrow> (string \<times> string) list" where
  "distributions inst = foldl (\<lambda>d (name, version). case name of
       None \<Rightarrow> d | Some n \<Rightarrow> if n = [] then d else dict_setdefault (normal_name n) version d) [] (in_distributions inst)"

definition environment_doc :: "installation \<Rightarrow> json" where
  "environment_doc inst = JObj
     [(''cache_tag'', JStr (in_cache_tag inst)), (''distributions'', dict_json JStr (distributions inst))]"

definition environment_bytes :: "installation \<Rightarrow> string" where
  "environment_bytes inst = utf8 (dumps (environment_doc inst))"

definition changes :: "json \<Rightarrow> json \<Rightarrow> string list result" where
  "changes old new =
     result_bind (as_obj (opt_field old ''distributions'' (JObj []))) (\<lambda>was.
     result_bind (req_field new ''distributions'') (\<lambda>d. result_bind (as_obj d) (\<lambda>now.
     result_bind (req_field new ''cache_tag'') (\<lambda>tag.
       let text = (\<lambda>d n. case map_of d n of Some v \<Rightarrow> py_str v | None \<Rightarrow> []);
           added = sort (List.filter (\<lambda>n. map_of was n = None) (remdups (map fst now)));
           removed = sort (List.filter (\<lambda>n. map_of now n = None) (remdups (map fst was)));
           both = sort (List.filter (\<lambda>n. map_of now n \<noteq> None \<and> map_of was n \<noteq> map_of now n) (remdups (map fst was)))
       in Inr (map (\<lambda>n. n @ '' '' @ text now n @ '' added'') added @
               map (\<lambda>n. n @ '' '' @ text was n @ '' removed'') removed @
               map (\<lambda>n. n @ '' '' @ text was n @ '' -> '' @ text now n) both @
               (if json_get old ''cache_tag'' \<noteq> Some tag
                then [''interpreter '' @ py_str (opt_field old ''cache_tag'' JNull) @ '' -> '' @ py_str tag] else []))))))"

section \<open>The environment record of a store\<close>

text \<open>\<open>int(text)\<close>: white space around it, a sign, digits with single underscores between them.\<close>

definition digit_groups :: "string \<Rightarrow> bool" where
  "digit_groups ds \<longleftrightarrow> list_all (\<lambda>g. g \<noteq> [] \<and> list_all is_digit g) (str_split (CHR ''_'') ds)"

definition py_int :: "string \<Rightarrow> int result" where
  "py_int text =
     (let t = strip_ws text;
          (neg, ds) = (case t of c # cs \<Rightarrow> if c = CHR ''-'' then (True, cs) else if c = CHR ''+'' then (False, cs) else (False, t) | [] \<Rightarrow> (False, []));
          n = int (undec (List.filter (\<lambda>c. c \<noteq> CHR ''_'') ds))
      in if digit_groups ds then Inr (if neg then - n else n)
         else Inl (ValueError (''invalid literal for int() with base 10: '' @ py_repr text)))"

definition env_domain :: string where "env_domain = ''graphed-env''"

definition env_prefix :: "(string \<Rightarrow> string) \<Rightarrow> string \<Rightarrow> string" where
  "env_prefix sha salt = env_domain @ '':'' @ sha256_hex sha [utf8 salt] @ '':''"

definition env_records :: "string \<Rightarrow> completed \<Rightarrow> (int \<times> string) list result" where
  "env_records prefix c = traverse
     (\<lambda>e. case str_partition '':'' (drop (length prefix) (je_task_id e)) of
            (n, _, blob) \<Rightarrow> result_bind (py_int n) (\<lambda>n. Inr (n, blob)))
     (List.filter (\<lambda>e. starts_with prefix (je_task_id e)) (co_environments c))"

definition pad8 :: "int \<Rightarrow> string" where
  "pad8 n = (if n < 0 then CHR ''-'' # pad_zeros 7 (dec (- n)) else pad_zeros 8 (dec n))"

definition env_record_id :: "string \<Rightarrow> int \<Rightarrow> string \<Rightarrow> string" where
  "env_record_id prefix n blob = prefix @ pad8 n @ '':'' @ blob"

definition old_environment :: "'s store_ops \<Rightarrow> string \<Rightarrow> (json, 's) action" where
  "old_environment ops blob =
     act_bind (so_get ops blob) (\<lambda>b.
       act_lift (json_loads (case b of Some d \<Rightarrow> (if d = [] then ''{}'' else d) | None \<Rightarrow> ''{}'')))"

fun changes_of :: "'s store_ops \<Rightarrow> json \<Rightarrow> string list \<Rightarrow> (string list, 's) action" where
  "changes_of ops new [] = act_return []"
| "changes_of ops new (b # bs) =
     act_bind (old_environment ops b) (\<lambda>old.
     act_bind (act_lift (changes old new)) (\<lambda>here.
     act_bind (changes_of ops new bs) (\<lambda>more. act_return (here @ more))))"

definition max_record :: "(int \<times> string) list \<Rightarrow> int" where
  "max_record records = (case map fst records of [] \<Rightarrow> 0 | n # ns \<Rightarrow> foldl max n ns)"

definition changed_text :: "string list \<Rightarrow> string" where
  "changed_text chs = ''this environment differs from the one the checkpoint store recorded ('' @ str_join ''; '' chs @
     ''); pass accept_environment=True to resume in this one, or use a new salt or store''"

definition check_environment ::
  "(string \<Rightarrow> string) \<Rightarrow> installation \<Rightarrow> 's store_ops \<Rightarrow> completed \<Rightarrow> string \<Rightarrow> bool \<Rightarrow> (unit, 's) action" where
  "check_environment sha inst ops c salt accept =
     (let mine = environment_bytes inst;
          digest = sha mine;
          prefix = env_prefix sha salt
      in act_bind (act_lift (env_records prefix c)) (\<lambda>records.
         let top = max_record records;
             in_force = remdups (map snd (List.filter (\<lambda>(n, blob). n = top) records))
         in if set in_force = {digest} then act_return ()
            else if in_force \<noteq> [] \<and> \<not> accept then
              act_bind (act_lift (json_loads mine)) (\<lambda>new.
              act_bind (changes_of ops new (sort (List.filter (\<lambda>b. b \<noteq> digest) in_force))) (\<lambda>chs.
                act_raise (EnvironmentChangedError (changed_text chs))))
            else
              act_bind (so_put ops mine) (\<lambda>blob.
                so_record_environment ops (env_record_id prefix (top + 1) blob) blob)))"

section \<open>Results that are not reused\<close>

definition partition_tag :: "partition \<Rightarrow> string" where
  "partition_tag p = uri p @ ''@'' @ dec (entry_start p) @ '':'' @ dec (entry_stop p)"

definition unreused_text :: "nat \<Rightarrow> string \<Rightarrow> nat \<Rightarrow> string" where
  "unreused_text n_tasks place held = ''0 of '' @ dec (int n_tasks) @ '' tasks reused, but '' @ place @ '' holds '' @ dec (int held) @
     '' results for these partitions under other keys: the analysis, its code, the salt or an order in what it ships differs, or another of run_resumable, run_shuffle_resumable and resumable wrote them''"

text \<open>The keys are taken one by one, only while none is done; one that cannot be taken raises.\<close>

fun any_done :: "completed \<Rightarrow> string result list \<Rightarrow> bool result" where
  "any_done c [] = Inr False"
| "any_done c (t # ts) = result_bind t (\<lambda>t. if map_of (co_entries c) t \<noteq> None then Inr True else any_done c ts)"

definition warn_unreused :: "string \<Rightarrow> completed \<Rightarrow> nat \<Rightarrow> partition list \<Rightarrow> string result list \<Rightarrow> (unit, ('s, 'w) session) action" where
  "warn_unreused place c n_tasks parts ids =
     (let tags = map partition_tag parts;
          held = length (List.filter (\<lambda>(t, e). je_partition e \<in> set tags) (co_entries c))
      in if held = 0 then act_return ()
         else act_bind (act_lift (any_done c ids)) (\<lambda>reused.
           if reused then act_return ()
           else log_message (unreused_text n_tasks place held)))"

section \<open>The record in force\<close>

lemma act_bind_lift: "act_bind (act_lift (Inr x)) f = f x"
  by (auto simp: act_eval)

lemma pad_digits: "list_all is_digit (pad_zeros w (dec_nat n))"
  by (auto simp: pad_zeros_def list_all_iff is_digit_def dest: dec_nat_digits)

lemma str_split_none: "sep \<notin> set s \<Longrightarrow> str_split sep s = [s]"
  by (induction s) auto

lemma strip_ws_digits: "s \<noteq> [] \<Longrightarrow> list_all is_digit s \<Longrightarrow> strip_ws s = s"
proof -
  assume s: "s \<noteq> []" "list_all is_digit s"
  have sp: "is_digit c \<Longrightarrow> \<not> is_space c" for c by (auto simp: is_digit_def is_space_def)
  have "dropWhile is_space s = s" "dropWhile is_space (rev s) = rev s"
    using s sp by (auto simp: dropWhile_eq_self_iff list_all_iff hd_rev)
  then show ?thesis by (simp add: strip_ws_def)
qed

lemma py_int_pad8: "0 \<le> n \<Longrightarrow> py_int (pad8 n) = Inr n"
proof -
  assume n: "0 \<le> n"
  let ?t = "pad_zeros 8 (dec_nat (nat n))"
  have t: "pad8 n = ?t" using n by (simp add: pad8_def dec_def)
  have d: "list_all is_digit ?t" "?t \<noteq> []" by (rule pad_digits) (simp add: pad_zeros_def)
  then have u: "CHR ''_'' \<notin> set ?t" by (auto simp: list_all_iff is_digit_def)
  then have f: "List.filter (\<lambda>c. c \<noteq> CHR ''_'') ?t = ?t" by (simp add: filter_id_conv) metis
  obtain c cs where c: "?t = c # cs" using d(2) by (cases ?t) auto
  with d have "c \<noteq> CHR ''-''" "c \<noteq> CHR ''+''" by (auto simp: is_digit_def)
  moreover have "digit_groups ?t" using d u by (simp add: digit_groups_def str_split_none)
  moreover have "int (undec ?t) = n" using n by simp
  ultimately show ?thesis
    using strip_ws_digits [OF d(2,1)] f c unfolding t by (simp add: py_int_def)
qed

lemma str_partition_colon: "CHR '':'' \<notin> set a \<Longrightarrow> str_partition '':'' (a @ CHR '':'' # b) = (a, True, b)"
  by (induction a) auto

definition env_entry :: "string \<Rightarrow> int \<times> string \<Rightarrow> journal_entry" where
  "env_entry prefix = (\<lambda>(n, blob). environment_entry (env_record_id prefix n blob) blob)"

lemma env_records_own:
  assumes "co_environments c = map (env_entry prefix) rs" "\<forall>(n, b) \<in> set rs. 0 \<le> n"
  shows "env_records prefix c = Inr rs"
proof -
  let ?f = "\<lambda>e. case str_partition '':'' (drop (length prefix) (je_task_id e)) of
            (n, _, blob) \<Rightarrow> result_bind (py_int n) (\<lambda>n. Inr (n, blob))"
  have "List.filter (\<lambda>e. starts_with prefix (je_task_id e)) (map (env_entry prefix) rs) = map (env_entry prefix) rs"
    by (auto simp: filter_id_conv env_entry_def environment_entry_def env_record_id_def starts_with_iff)
  moreover have "traverse ?f (map (env_entry prefix) rs) = Inr (map (\<lambda>r. r) rs)"
  proof (rule traverse_map_cong)
    fix r assume "r \<in> set rs"
    moreover obtain n b where r: "r = (n, b)" by (cases r)
    ultimately have n: "0 \<le> n" using assms(2) by auto
    then have "CHR '':'' \<notin> set (pad8 n)"
      using pad_digits [of 8 "nat n"] by (auto simp: pad8_def dec_def list_all_iff is_digit_def)
    then show "?f (env_entry prefix r) = Inr r"
      using py_int_pad8 [OF n] by (simp add: r env_entry_def environment_entry_def env_record_id_def str_partition_colon)
  qed
  ultimately show ?thesis by (simp add: env_records_def assms(1))
qed

lemma env_records_total:
  assumes "\<forall>e \<in> set (co_environments c). starts_with prefix (je_task_id e) \<longrightarrow>
      (\<exists>n b. 0 \<le> n \<and> je_task_id e = env_record_id prefix n b)"
  shows "\<exists>rs. env_records prefix c = Inr rs \<and> (\<forall>(n, b) \<in> set rs. 0 \<le> n)"
proof -
  have "\<exists>rs. env_records prefix \<lparr>co_entries = [], co_environments = es\<rparr> = Inr rs \<and> (\<forall>(n, b) \<in> set rs. 0 \<le> n)"
    if "\<forall>e \<in> set es. starts_with prefix (je_task_id e) \<longrightarrow> (\<exists>n b. 0 \<le> n \<and> je_task_id e = env_record_id prefix n b)" for es
    using that
  proof (induction es)
    case (Cons e es)
    then obtain rs where rs: "env_records prefix \<lparr>co_entries = [], co_environments = es\<rparr> = Inr rs" "\<forall>(n, b) \<in> set rs. 0 \<le> n" by auto
    show ?case
    proof (cases "starts_with prefix (je_task_id e)")
      case True
      with Cons.prems obtain n b where n: "0 \<le> n" "je_task_id e = env_record_id prefix n b" by auto
      have "env_records prefix \<lparr>co_entries = [], co_environments = [env_entry prefix (n, b)]\<rparr> = Inr [(n, b)]"
        by (rule env_records_own) (use n in auto)
      then have "env_records prefix \<lparr>co_entries = [], co_environments = e # es\<rparr> = Inr ((n, b) # rs)"
        using rs(1) n(2) True by (auto simp: env_records_def env_entry_def environment_entry_def result_bind_Inr_iff split: if_splits prod.splits)
      with rs(2) n(1) show ?thesis by auto
    next
      case False
      with rs show ?thesis by (simp add: env_records_def)
    qed
  qed (simp add: env_records_def)
  from this [OF assms] show ?thesis by (simp add: env_records_def)
qed

lemma max_record_nonneg: "\<forall>(n, b) \<in> set rs. 0 \<le> n \<Longrightarrow> 0 \<le> max_record rs"
proof -
  assume a: "\<forall>(n, b) \<in> set rs. 0 \<le> n"
  have "0 \<le> n \<Longrightarrow> 0 \<le> foldl max n ns" for n :: int and ns by (induction ns arbitrary: n) auto
  with a show ?thesis by (cases rs) (auto simp: max_record_def)
qed

lemma max_record_Max: "max_record rs = (if rs = [] then 0 else Max (fst ` set rs))"
proof (cases rs)
  case (Cons r rs')
  have "foldl max n ns = Max (set (n # ns))" for n :: int and ns
  proof (induction ns arbitrary: n)
    case (Cons m ns)
    have "Max (set (max n m # ns)) = Max (set (n # m # ns))" by (cases ns) (simp_all add: max.assoc)
    with Cons.IH [of "max n m"] show ?case by (simp only: foldl_Cons)
  qed simp
  from this [of "fst r" "map fst rs'"] show ?thesis by (simp add: Cons max_record_def)
qed (simp add: max_record_def)

text \<open>The number of the newest record, 0 when there is none, and the environments recorded under it.\<close>

definition newest_number :: "(int \<times> string) list \<Rightarrow> int" where
  "newest_number rs = (if rs = [] then 0 else Max (fst ` set rs))"

definition newest_environments :: "(int \<times> string) list \<Rightarrow> string set" where
  "newest_environments rs = {b. \<exists>n. (n, b) \<in> set rs \<and> (\<forall>(m, _) \<in> set rs. m \<le> n)}"

lemma newest_environments_max: "newest_environments rs = {b. (max_record rs, b) \<in> set rs}"
proof -
  have "(\<exists>n. (n, b) \<in> set rs \<and> (\<forall>(m, _) \<in> set rs. m \<le> n)) \<longleftrightarrow> (max_record rs, b) \<in> set rs" for b
  proof
    assume "\<exists>n. (n, b) \<in> set rs \<and> (\<forall>(m, _) \<in> set rs. m \<le> n)"
    then obtain n where n: "(n, b) \<in> set rs" "\<forall>(m, _) \<in> set rs. m \<le> n" by blast
    then have "Max (fst ` set rs) = n" by (intro Max_eqI) (auto intro: rev_image_eqI)
    with n(1) show "(max_record rs, b) \<in> set rs" by (auto simp: max_record_Max)
  next
    assume m: "(max_record rs, b) \<in> set rs"
    then have "max_record rs = Max (fst ` set rs)" by (auto simp: max_record_Max)
    moreover have "k \<le> Max (fst ` set rs)" if "(k, x) \<in> set rs" for k x
      using that by (intro Max_ge) (auto intro: rev_image_eqI)
    ultimately have "\<forall>(k, _) \<in> set rs. k \<le> max_record rs" by auto
    with m show "\<exists>n. (n, b) \<in> set rs \<and> (\<forall>(m, _) \<in> set rs. m \<le> n)" by blast
  qed
  then show ?thesis by (simp add: newest_environments_def)
qed

text \<open>
  C24. The environment record. When a store's records of a salt were written by the runners, the check
  passes without touching the store exactly when the newest of them is this environment's; another
  environment is refused unless it is accepted, and then, as on a store without a record, this
  environment is stored under the next number.
\<close>
theorem environment_check_spec:
  fixes inst c salt rs and sha :: "string \<Rightarrow> string"
  assumes own: "co_environments c = map (env_entry (env_prefix sha salt)) rs" "\<forall>(n, b) \<in> set rs. 0 \<le> n"
  shows "let same = (newest_environments rs = {sha (environment_bytes inst)})
    in (same \<longrightarrow> check_environment sha inst ops c salt accept s = (Inr (), s)) \<and>
       (\<not> same \<longrightarrow> rs \<noteq> [] \<longrightarrow> \<not> accept \<longrightarrow> (\<exists>e s'. check_environment sha inst ops c salt accept s = (Inl e, s'))) \<and>
       (\<not> same \<longrightarrow> rs = [] \<or> accept \<longrightarrow>
          check_environment sha inst ops c salt accept s =
            act_bind (so_put ops (environment_bytes inst)) (\<lambda>blob.
              so_record_environment ops (env_record_id (env_prefix sha salt) (newest_number rs + 1) blob) blob) s)"
proof -
  define digest where "digest = sha (environment_bytes inst)"
  define in_force where "in_force = {b. (max_record rs, b) \<in> set rs}"
  have number: "newest_number rs = max_record rs" by (simp add: newest_number_def max_record_Max)
  have r: "env_records (env_prefix sha salt) c = Inr rs" by (rule env_records_own [OF own])
  let ?l = "remdups (map snd (List.filter (\<lambda>(n, blob). n = max_record rs) rs))"
  have l: "set ?l = in_force" by (force simp: in_force_def)
  have ne: "?l \<noteq> [] \<longleftrightarrow> rs \<noteq> []"
  proof -
    have "foldl max n ns \<in> set (n # ns)" for n :: int and ns
      by (induction ns arbitrary: n) (simp, metis foldl_Cons insert_iff list.simps(15) max_def)
    then have "rs \<noteq> [] \<Longrightarrow> max_record rs \<in> fst ` set rs"
      by (cases rs) (auto simp: max_record_def, metis image_eqI insert_iff list.set_map)
    then have "rs \<noteq> [] \<Longrightarrow> in_force \<noteq> {}" by (force simp: in_force_def)
    moreover have "rs = [] \<Longrightarrow> in_force = {}" by (simp add: in_force_def)
    ultimately show ?thesis using l by (metis set_empty)
  qed
  have refuses: "\<exists>e s'. act_bind (act_lift x) (\<lambda>new. act_bind (f new) (\<lambda>chs. act_raise (g chs))) s = (Inl e, s')" for x f g
    by (cases x; cases "f (projr x) s"; cases "fst (f (projr x) s)") (auto simp: act_eval)
  have e: "check_environment sha inst ops c salt accept s =
      (if in_force = {digest} then act_return ()
       else if ?l \<noteq> [] \<and> \<not> accept then
         act_bind (act_lift (json_loads (environment_bytes inst))) (\<lambda>new.
         act_bind (changes_of ops new (sort (List.filter (\<lambda>b. b \<noteq> digest) ?l))) (\<lambda>chs.
           act_raise (EnvironmentChangedError (changed_text chs))))
       else act_bind (so_put ops (environment_bytes inst)) (\<lambda>blob.
           so_record_environment ops (env_record_id (env_prefix sha salt) (max_record rs + 1) blob) blob)) s"
    unfolding check_environment_def Let_def r digest_def [symmetric] act_bind_lift l by (rule refl)
  show ?thesis
    unfolding e ne Let_def digest_def [symmetric] number newest_environments_max in_force_def [symmetric]
    by (intro conjI impI) (simp_all only: if_True if_False simp_thms refuses act_eval(1) split: if_split, auto)
qed

definition sample_installation :: installation where
  "sample_installation = \<lparr>in_cache_tag = ''cpython-313'', in_distributions = [(Some ''Num.Py'', ''2.1'')]\<rparr>"

theorem environment_check_spec_witness:
  "let c = \<lparr>co_entries = [], co_environments = map (env_entry (env_prefix (\<lambda>b. ''h'') ''s'')) [(1, ''old''), (2, ''h'')]\<rparr>
   in check_environment (\<lambda>b. ''h'') sample_installation (local_ops (\<lambda>b. ''h'') None) c ''s'' False fresh_store = (Inr (), fresh_store)"
proof -
  let ?c = "\<lparr>co_entries = [], co_environments = map (env_entry (env_prefix (\<lambda>b. ''h'') ''s'')) [(1, ''old''), (2, ''h'')]\<rparr>"
  have "newest_environments [(1, ''old''), (2, ''h'')] = {''h''}"
    by (auto simp: newest_environments_def)
  with environment_check_spec [of ?c "\<lambda>b. ''h''" "''s''" "[(1, ''old''), (2, ''h'')]" sample_installation "local_ops (\<lambda>b. ''h'') None" False fresh_store]
  show ?thesis by (simp add: Let_def)
qed

end
