(* ===== verification/Retry.thy ===== *)
theory Retry
  imports Execution
begin

text \<open>
  Recovery of failed partitions (\<open>checkpoint/retry.py\<close>): the four policies, and what splitting a
  chunk that is too big gives.
\<close>

section \<open>Policies\<close>

text \<open>
  A process reads a partition with a resources object; both it and \<open>make_resources\<close> may raise and
  change the state \<open>'s\<close> of the session.
\<close>

type_synonym ('v, 'r, 's) processor = "partition \<Rightarrow> 'r \<Rightarrow> ('v, 's) action"

datatype ('r, 's) retry_policy =
    Quarantine
  | RetryN int
  | RetryElsewhere int "('r, 's) action option"
  | RetrySmallerChunk int int

fun retry_times :: "nat \<Rightarrow> ('r, 's) action \<Rightarrow> ('v, 'r, 's) processor \<Rightarrow> partition \<Rightarrow> exn \<Rightarrow> ('v, 's) action" where
  "retry_times 0 res process p err = act_raise err"
| "retry_times (Suc n) res process p err =
     act_bind res (\<lambda>r. act_except (process p r) (\<lambda>exc. retry_times n res process p exc))"

text \<open>A list of results; the first error ends it.\<close>

fun act_map :: "('x \<Rightarrow> ('y, 's) action) \<Rightarrow> 'x list \<Rightarrow> ('y list, 's) action" where
  "act_map f [] = act_return []"
| "act_map f (x # xs) = act_bind (f x) (\<lambda>y. act_bind (act_map f xs) (\<lambda>ys. act_return (y # ys)))"

lemma act_map_cong [fundef_cong]:
  "xs = ys \<Longrightarrow> (\<And>x. x \<in> set ys \<Longrightarrow> f x = g x) \<Longrightarrow> act_map f xs = act_map g ys"
  by (induction ys arbitrary: xs) auto

lemma act_except_cong [fundef_cong]:
  "m = m' \<Longrightarrow> (\<And>e. h e = h' e) \<Longrightarrow> act_except m h = act_except m' h'"
  by (cases "h = h'") auto

text \<open>\<open>functools.reduce\<close> without a start value.\<close>

fun reduce_from :: "('v \<Rightarrow> 'v \<Rightarrow> 'v result) \<Rightarrow> 'v \<Rightarrow> 'v list \<Rightarrow> 'v result" where
  "reduce_from combine v [] = Inr v"
| "reduce_from combine v (w # ws) = result_bind (combine v w) (\<lambda>u. reduce_from combine u ws)"

definition reduce1 :: "('v \<Rightarrow> 'v \<Rightarrow> 'v result) \<Rightarrow> 'v list \<Rightarrow> 'v result" where
  "reduce1 combine vs = (case vs of [] \<Rightarrow> Inl (TypeError ''reduce() of empty iterable with no initial value'')
     | v # ws \<Rightarrow> reduce_from combine v ws)"

function (sequential) process_split ::
  "int \<Rightarrow> int \<Rightarrow> ('v, 'r, 's) processor \<Rightarrow> ('v \<Rightarrow> 'v \<Rightarrow> 'v result) \<Rightarrow> 'r \<Rightarrow> partition \<Rightarrow> exn \<Rightarrow> ('v, 's) action" where
  "process_split splits min_size process combine r p err =
     (let subs = split_partition p splits
      in if length subs \<le> 1 \<or> n_entries p \<le> min_size then act_raise err
         else act_bind
                (act_map (\<lambda>sub. act_except (process sub r)
                   (\<lambda>exc. process_split splits min_size process combine r sub exc)) subs)
                (\<lambda>partials. act_lift (reduce1 combine partials)))"
  by pat_completeness auto

termination
  by (relation "measure (\<lambda>(_, _, _, _, _, p, _). nat (n_entries p))")
     (auto dest!: split_partition_smaller)

fun recover :: "('r, 's) retry_policy \<Rightarrow> partition \<Rightarrow> exn \<Rightarrow> ('v, 'r, 's) processor \<Rightarrow>
    ('v \<Rightarrow> 'v \<Rightarrow> 'v result) \<Rightarrow> 'r \<Rightarrow> ('v, 's) action" where
  "recover Quarantine p err process combine r = act_raise err"
| "recover (RetryN n) p err process combine r = retry_times (nat n) (act_return r) process p err"
| "recover (RetryElsewhere n make_resources) p err process combine r =
     retry_times (nat n) (case make_resources of None \<Rightarrow> act_return r | Some fresh_res \<Rightarrow> fresh_res) process p err"
| "recover (RetrySmallerChunk splits min_size) p err process combine r =
     process_split splits min_size process combine r p err"

section \<open>Smaller chunks\<close>

lemma split_partition_two:
  assumes "1 < n_entries p"
  shows "1 < length (split_partition p n)"
proof -
  define k where "k = nat (max 2 (min n (n_entries p)))"
  define size where "size = n_entries p div int k"
  let ?b = "\<lambda>i. if i < k then entry_start p + int i * size else entry_stop p"
  have k: "2 \<le> k" "int k \<le> n_entries p" using assms by (auto simp: k_def)
  then have size: "1 \<le> size" using zdiv_mono1 [of "int k" "n_entries p" "int k"] by (simp add: size_def)
  have "int k * size \<le> n_entries p"
    using k pos_mod_sign [of "int k" "n_entries p"] mult_div_mod_eq [of "int k" "n_entries p"]
    unfolding size_def by linarith
  moreover have "2 * size \<le> int k * size" using k(1) size by (intro mult_right_mono) auto
  ultimately have "2 * size \<le> n_entries p" by linarith
  moreover have "entry_stop p = entry_start p + n_entries p"
    using assms by (auto simp: n_entries_def max_def split: if_splits)
  ultimately have "{0, 1} \<subseteq> set (List.filter (\<lambda>i. ?b i < ?b (Suc i)) [0..<k])"
    using k(1) size by auto
  from card_mono [OF _ this] have "2 \<le> length (List.filter (\<lambda>i. ?b i < ?b (Suc i)) [0..<k])"
    using card_length [of "List.filter (\<lambda>i. ?b i < ?b (Suc i)) [0..<k]"] by simp
  moreover have "split_partition p n = map (\<lambda>i. mk_partition (uri p) (tree p) (?b i) (?b (Suc i)))
      (List.filter (\<lambda>i. ?b i < ?b (Suc i)) [0..<k])"
    unfolding split_partition_def Let_def k_def [symmetric] size_def [symmetric] using assms by simp
  ultimately show ?thesis by simp
qed

text \<open>
  A value of the entries that can be computed piecewise, and a process that gives it on the chunks of at
  most \<open>limit\<close> entries and fails, in whatever way, on the others.
\<close>

definition piecewise :: "(int list \<Rightarrow> 'v) \<Rightarrow> ('v \<Rightarrow> 'v \<Rightarrow> 'v result) \<Rightarrow> bool" where
  "piecewise val combine \<longleftrightarrow> (\<forall>xs ys. combine (val xs) (val ys) = Inr (val (xs @ ys)))"

definition fails_above :: "int \<Rightarrow> (int list \<Rightarrow> 'v) \<Rightarrow> ('v, 'r, 's) processor \<Rightarrow> 'r \<Rightarrow> bool" where
  "fails_above limit val process r \<longleftrightarrow> (\<forall>q s.
     if n_entries q \<le> limit then \<exists>s'. process q r s = (Inr (val (part_entries q)), s')
     else \<exists>e s'. process q r s = (Inl e, s') \<and> is_exception e)"

lemma fails_aboveD:
  "fails_above limit val process r \<Longrightarrow> n_entries q \<le> limit \<Longrightarrow> \<exists>s'. process q r s = (Inr (val (part_entries q)), s')"
  "fails_above limit val process r \<Longrightarrow> limit < n_entries q \<Longrightarrow> \<exists>e s'. process q r s = (Inl e, s') \<and> is_exception e"
  unfolding fails_above_def by (metis, metis not_le)

lemma reduce1_vals:
  assumes "piecewise val combine" "qs \<noteq> []"
  shows "reduce1 combine (map (val \<circ> f) qs) = Inr (val (concat (map f qs)))"
proof -
  have "reduce_from combine (val xs) (map (val \<circ> f) qs) = Inr (val (xs @ concat (map f qs)))" for xs qs
    using assms(1) by (induction qs arbitrary: xs) (simp_all add: piecewise_def)
  with assms(2) show ?thesis by (cases qs) (simp_all add: reduce1_def)
qed

lemma act_map_vals:
  "(\<And>q s. q \<in> set qs \<Longrightarrow> \<exists>s'. f q s = (Inr (g q), s')) \<Longrightarrow> \<exists>s'. act_map f qs s = (Inr (map g qs), s')"
proof (induction qs arbitrary: s)
  case (Cons q qs)
  from Cons.prems obtain s1 where "f q s = (Inr (g q), s1)" by fastforce
  moreover from Cons.IH [of s1] Cons.prems obtain s2 where "act_map f qs s1 = (Inr (map g qs), s2)" by fastforce
  ultimately show ?case by (simp add: act_eval)
qed (simp add: act_eval)

text \<open>
  C25. A chunk that is too big to be processed whole succeeds split: with a minimum size that is at most
  the size that still works, the recovered value is the one of the whole chunk.
\<close>
theorem smaller_chunk_recovers:
  assumes "piecewise val combine" "fails_above limit val process r"
    and "1 \<le> limit" "min_size \<le> limit" "limit < n_entries p"
  shows "\<exists>s'. recover (RetrySmallerChunk splits min_size) p err process combine r s = (Inr (val (part_entries p)), s')"
proof -
  have "\<exists>s'. process_split splits min_size process combine r p err s = (Inr (val (part_entries p)), s')"
    using assms(5)
  proof (induction "nat (n_entries p)" arbitrary: p err s rule: less_induct)
    case less
    let ?subs = "split_partition p splits"
    have two: "1 < length ?subs"
      using split_partition_two [of p splits] less.prems assms(3) by linarith
    let ?one = "\<lambda>sub. act_except (process sub r) (\<lambda>exc. process_split splits min_size process combine r sub exc)"
    have one: "\<exists>s'. ?one q s = (Inr (val (part_entries q)), s')" if q: "q \<in> set ?subs" for q s
    proof (cases "n_entries q \<le> limit")
      case True
      with fails_aboveD(1) [OF assms(2), of q s] show ?thesis by (auto simp: act_eval)
    next
      case False
      with fails_aboveD(2) [OF assms(2), of q s] obtain e s1 where e: "process q r s = (Inl e, s1)" "is_exception e" by auto
      have "nat (n_entries q) < nat (n_entries p)" using split_partition_smaller [OF q two] by simp
      with less.hyps [of q e s1] False obtain s2
        where "process_split splits min_size process combine r q e s1 = (Inr (val (part_entries q)), s2)" by auto
      with e show ?thesis by (simp add: act_eval del: process_split.simps)
    qed
    from act_map_vals [of ?subs ?one "val \<circ> part_entries" s] one
    obtain s1 where "act_map ?one ?subs s = (Inr (map (val \<circ> part_entries) ?subs), s1)" by auto
    moreover have "reduce1 combine (map (val \<circ> part_entries) ?subs) = Inr (val (part_entries p))"
      using reduce1_vals [OF assms(1), of ?subs part_entries] two
      unfolding split_partition_entries by fastforce
    ultimately show ?case
      using two less.prems assms(4) by (subst process_split.simps) (simp add: act_eval Let_def del: process_split.simps)
  qed
  then show ?thesis by simp
qed

theorem smaller_chunk_recovers_witness:
  "\<exists>s'. recover (RetrySmallerChunk 2 1) (mk_partition ''f'' ''t'' 0 9) (OSError [])
      (\<lambda>q r s. if n_entries q \<le> 2 then (Inr (sum_list (part_entries q)), s) else (Inl (UserError ''MemoryError'' [] None []), s))
      (\<lambda>a b. Inr (a + b)) () () = (Inr 36, s')"
proof -
  have "\<exists>s'. recover (RetrySmallerChunk 2 1) (mk_partition ''f'' ''t'' 0 9) (OSError [])
      (\<lambda>q r s. if n_entries q \<le> 2 then (Inr (sum_list (part_entries q)), s) else (Inl (UserError ''MemoryError'' [] None []), s))
      (\<lambda>a b. Inr (a + b)) () () = (Inr (sum_list (part_entries (mk_partition ''f'' ''t'' 0 9))), s')"
    by (rule smaller_chunk_recovers [where limit = 2]) (simp_all add: piecewise_def fails_above_def n_entries_def)
  moreover have "sum_list (part_entries (mk_partition ''f'' ''t'' 0 9)) = 36" by code_simp
  ultimately show ?thesis by simp
qed

end
