(* ===== verification/Resume.thy ===== *)
theory Resume
  imports Environment Retry
begin

text \<open>
  The resumable runners (\<open>checkpoint/runner.py\<close>): \<open>run_resumable\<close> on a single-stage plan and
  \<open>run_shuffle_resumable\<close> on a staged one, each against any store that keeps the contract of
  \<open>checkpoint_store\<close>.

  What a plan's callables do is a record of functions on their imported values (\<open>'f\<close>): a process reads
  and changes the outside world (\<open>'w\<close>) and may raise; combining, the empty value and \<open>finalize\<close> are
  results. A codec may raise. The environment variables of the code's test hook appear as they are
  (\<open>_kill_after\<close>).
\<close>

section \<open>Reports and configurations\<close>

record resume_report =
  rr_executed :: int
  rr_skipped :: int
  rr_dead :: int
  rr_stopped :: "string option"
  rr_dead_letters :: "json list"

definition new_report :: resume_report where
  "new_report = \<lparr>rr_executed = 0, rr_skipped = 0, rr_dead = 0, rr_stopped = None, rr_dead_letters = []\<rparr>"

definition did_less_work :: "resume_report \<Rightarrow> bool" where
  "did_less_work rep \<longleftrightarrow> 0 < rr_skipped rep"

record 'v resume_result =
  rs_value :: 'v
  rs_report :: resume_report

record ('f, 'v, 'r, 'w) callables =
  ca_env :: "'f interpreter"
  ca_process :: "'f \<Rightarrow> partition \<Rightarrow> 'r \<Rightarrow> ('v carrier, 'w) action"
  ca_combine :: "'f \<Rightarrow> 'v \<Rightarrow> 'v \<Rightarrow> 'v result"
  ca_empty :: "'f \<Rightarrow> 'v result"
  ca_finalize :: "'f \<Rightarrow> 'v \<Rightarrow> 'v result"

record 'v value_codec =
  cd_encode :: "'v \<Rightarrow> string result"
  cd_decode :: "string \<Rightarrow> 'v result"

text \<open>What the loop over the partitions uses, the callables resolved.\<close>

record ('f, 'v, 'r, 's, 'w) resume_config =
  rc_sha :: "string \<Rightarrow> string"
  rc_plan :: "'f durable_plan"
  rc_process :: "partition \<Rightarrow> 'r \<Rightarrow> ('v carrier, 'w) action"
  rc_combine :: "'v \<Rightarrow> 'v \<Rightarrow> 'v result"
  rc_ops :: "'s store_ops"
  rc_codec :: "'v value_codec"
  rc_resources :: 'r
  rc_retry :: "('r, ('s, 'w) session) retry_policy option"
  rc_budget :: "int option"
  rc_kill :: "int option"

section \<open>One partition\<close>

definition plain_process :: "('f, 'v, 'r, 's, 'w) resume_config \<Rightarrow> partition \<Rightarrow> 'r \<Rightarrow> ('v, ('s, 'w) session) action" where
  "plain_process cfg p r = act_bind (on_world (rc_process cfg p r)) drop_warnings"

definition run_one :: "('f, 'v, 'r, 's, 'w) resume_config \<Rightarrow> partition \<Rightarrow> ('v, ('s, 'w) session) action" where
  "run_one cfg p = act_except (plain_process cfg p (rc_resources cfg))
     (\<lambda>exc. case rc_retry cfg of
        None \<Rightarrow> act_raise exc
      | Some policy \<Rightarrow> recover policy p exc (plain_process cfg) (rc_combine cfg) (rc_resources cfg))"

definition stored_partial ::
  "'s store_ops \<Rightarrow> 'v value_codec \<Rightarrow> journal_entry option \<Rightarrow> ('v option, ('s, 'w) session) action" where
  "stored_partial ops cdc entry = (case entry of
       None \<Rightarrow> act_return None
     | Some e \<Rightarrow> act_bind (on_store (so_get ops (je_blob e))) (\<lambda>blob. case blob of
           None \<Rightarrow> act_return None
         | Some b \<Rightarrow> act_bind (act_lift (cd_decode cdc b)) (\<lambda>v. act_return (Some v))))"

definition dead_letter_json :: "dead_letter \<Rightarrow> json" where
  "dead_letter_json d = JObj
     ([(''task_id'', JStr (dl_task_id d)), (''uri'', JStr (dl_uri d)), (''tree'', JStr (dl_tree d)),
       (''entry_start'', JInt (dl_entry_start d)), (''entry_stop'', JInt (dl_entry_stop d)),
       (''error_type'', JStr (dl_error_type d)), (''error_message'', JStr (dl_error_message d))] @
      (case dl_stage_error d of None \<Rightarrow> [] | Some se \<Rightarrow>
         [(''stage_error'', JObj
            [(''op'', JStr (sd_op se)), (''cause_type'', JStr (sd_cause_type se)),
             (''cause_message'', JStr (sd_cause_message se)), (''user_file'', JStr (sd_user_file se)),
             (''user_line'', JInt (sd_user_line se)), (''user_source'', JStr (sd_user_source se))])]))"

section \<open>The loop\<close>

text \<open>The folded value (none before the first partial), the report and the tasks committed in this run.\<close>

record 'v resume_state =
  lp_acc :: "'v option"
  lp_report :: resume_report
  lp_committed :: int

definition fold_in :: "('v \<Rightarrow> 'v \<Rightarrow> 'v result) \<Rightarrow> 'v option \<Rightarrow> 'v \<Rightarrow> 'v result" where
  "fold_in combine acc v = (case acc of None \<Rightarrow> Inr v | Some a \<Rightarrow> combine a v)"

definition killed_text :: "int \<Rightarrow> string \<Rightarrow> string" where
  "killed_text n what = ''simulated kill after '' @ dec n @ '' committed '' @ what"

definition interrupt_name :: string where
  "interrupt_name = ''_SimulatedInterrupt''"

definition commit ::
  "('f, 'v, 'r, 's, 'w) resume_config \<Rightarrow> string \<Rightarrow> partition \<Rightarrow> 'v \<Rightarrow> 'v resume_state \<Rightarrow> ('v resume_state, ('s, 'w) session) action" where
  "commit cfg tid p v lp =
     act_bind (act_lift (cd_encode (rc_codec cfg) v)) (\<lambda>data.
     act_bind (on_store (so_put (rc_ops cfg) data)) (\<lambda>digest.
     act_bind (on_store (so_record_done (rc_ops cfg)
       \<lparr>je_task_id = tid, je_partition = partition_tag p, je_blob = digest, je_stage = [], je_deps = []\<rparr>)) (\<lambda>_.
     act_bind (act_lift (fold_in (rc_combine cfg) (lp_acc lp) v)) (\<lambda>acc.
       let rep = (lp_report lp)\<lparr>rr_executed := rr_executed (lp_report lp) + 1\<rparr>;
           committed = lp_committed lp + 1
       in case rc_kill cfg of
            Some k \<Rightarrow> if k \<le> committed then act_raise (Interrupt interrupt_name)
                      else act_return \<lparr>lp_acc = Some acc, lp_report = rep, lp_committed = committed\<rparr>
          | None \<Rightarrow> act_return \<lparr>lp_acc = Some acc, lp_report = rep, lp_committed = committed\<rparr>))))"

text \<open>\<open>run_one\<close> raising is not the loop raising, so its result is inspected here.\<close>

definition try_one :: "('f, 'v, 'r, 's, 'w) resume_config \<Rightarrow> partition \<Rightarrow> (exn + 'v, ('s, 'w) session) action" where
  "try_one cfg p = act_except (act_bind (run_one cfg p) (\<lambda>v. act_return (Inr v))) (\<lambda>exc. act_return (Inl exc))"

definition over_budget :: "int option \<Rightarrow> int \<Rightarrow> bool" where
  "over_budget budget dead \<longleftrightarrow> (case budget of None \<Rightarrow> False | Some b \<Rightarrow> b < dead)"

fun resume_parts ::
  "('f, 'v, 'r, 's, 'w) resume_config \<Rightarrow> completed \<Rightarrow> partition list \<Rightarrow> 'v resume_state \<Rightarrow> ('v resume_state, ('s, 'w) session) action" where
  "resume_parts cfg c [] lp = act_return lp"
| "resume_parts cfg c (p # ps) lp =
     act_bind (act_lift (dp_task_id (rc_sha cfg) (rc_plan cfg) p)) (\<lambda>tid.
     act_bind (stored_partial (rc_ops cfg) (rc_codec cfg) (map_of (co_entries c) tid)) (\<lambda>stored.
     case stored of
       Some v \<Rightarrow>
         act_bind (act_lift (fold_in (rc_combine cfg) (lp_acc lp) v)) (\<lambda>acc.
           resume_parts cfg c ps (lp\<lparr>lp_acc := Some acc,
             lp_report := (lp_report lp)\<lparr>rr_skipped := rr_skipped (lp_report lp) + 1\<rparr>\<rparr>))
     | None \<Rightarrow>
         act_bind (try_one cfg p) (\<lambda>outcome. case outcome of
             Inl exc \<Rightarrow>
               act_then (on_store (so_record_dead (rc_ops cfg) (dead_letter_json (dead_letter_descriptor tid p exc))))
                 (let rep = (lp_report lp)\<lparr>rr_dead := rr_dead (lp_report lp) + 1\<rparr>
                  in if over_budget (rc_budget cfg) (rr_dead rep)
                     then act_return (lp\<lparr>lp_report := rep\<lparr>rr_stopped := Some ''error_budget''\<rparr>\<rparr>)
                     else resume_parts cfg c ps (lp\<lparr>lp_report := rep\<rparr>))
           | Inr v \<Rightarrow> act_bind (commit cfg tid p v lp) (resume_parts cfg c ps))))"

definition never_fired_text :: "int \<Rightarrow> int \<Rightarrow> string" where
  "never_fired_text k committed = ''_kill_after='' @ dec k @ '' never fired: the run committed only '' @ dec committed @
     '' task(s) before completing, so the simulated crash could not happen. The plan has too few committable partitions for that kill point.''"

definition require_kill_fired :: "int option \<Rightarrow> resume_report \<Rightarrow> int \<Rightarrow> unit result" where
  "require_kill_fired kill rep committed = (case kill of
       Some k \<Rightarrow> if rr_stopped rep = None \<and> committed < k then Inl (ValueError (never_fired_text k committed)) else Inr ()
     | None \<Rightarrow> Inr ())"

section \<open>The runner\<close>

definition plan_budget :: "'f durable_plan \<Rightarrow> int option result" where
  "plan_budget plan = (case map_of (dp_stopping plan) ''error_budget'' of
       None \<Rightarrow> Inr None | Some v \<Rightarrow> as_opt as_int v)"

definition resume_config_of where
  "resume_config_of sha ca plan ops res retry cdc process combine budget kill =
     \<lparr>rc_sha = sha, rc_plan = plan, rc_process = ca_process ca process, rc_combine = ca_combine ca combine,
      rc_ops = ops, rc_codec = cdc, rc_resources = res, rc_retry = retry, rc_budget = budget, rc_kill = kill\<rparr>"

definition run_resumable ::
  "(string \<Rightarrow> string) \<Rightarrow> installation \<Rightarrow> ('f, 'v, 'r, 'w) callables \<Rightarrow> 'f durable_plan \<Rightarrow> 's store_ops \<Rightarrow> string \<Rightarrow>
   'r \<Rightarrow> ('r, ('s, 'w) session) retry_policy option \<Rightarrow> 'v value_codec \<Rightarrow> int option \<Rightarrow> bool \<Rightarrow> int option \<Rightarrow>
   ('v resume_result, ('s, 'w) session) action" where
  "run_resumable sha inst ca plan ops place res retry cdc budget accept kill =
     act_bind (act_lift (op_resolve (ca_env ca) (dp_process plan))) (\<lambda>process.
     act_bind (act_lift (op_resolve (ca_env ca) (dp_combine plan))) (\<lambda>combine.
     act_bind (act_lift (op_resolve (ca_env ca) (dp_empty plan))) (\<lambda>empty'.
     act_bind (act_lift (case budget of None \<Rightarrow> plan_budget plan | Some b \<Rightarrow> Inr (Some b))) (\<lambda>budget.
     act_bind (on_store (so_completed ops)) (\<lambda>c.
     act_bind (on_store (check_environment sha inst ops c [] accept)) (\<lambda>_.
     act_bind (warn_unreused place c (length (dp_partitions plan)) (dp_partitions plan)
                (map (dp_task_id sha plan) (dp_partitions plan))) (\<lambda>_.
     act_bind (resume_parts (resume_config_of sha ca plan ops res retry cdc process combine budget kill) c (dp_partitions plan) \<lparr>lp_acc = None, lp_report = new_report, lp_committed = 0\<rparr>) (\<lambda>lp.
        act_bind (act_lift (require_kill_fired kill (lp_report lp) (lp_committed lp))) (\<lambda>_.
        act_bind (on_store (so_dead_letters ops)) (\<lambda>letters.
        act_bind (act_lift (case lp_acc lp of Some v \<Rightarrow> Inr v | None \<Rightarrow> ca_empty ca empty')) (\<lambda>value.
        act_bind (act_lift (case dp_finalize plan of
             None \<Rightarrow> Inr value
           | Some op \<Rightarrow> result_bind (op_resolve (ca_env ca) op) (\<lambda>f. ca_finalize ca f value))) (\<lambda>value.
          act_return \<lparr>rs_value = value, rs_report = (lp_report lp)\<lparr>rr_dead_letters := letters\<rparr>\<rparr>))))))))))))"

section \<open>What a run returns, without a store\<close>

text \<open>
  The value and the count of dead partitions, from what running each partition gives: the results are
  folded in task order, a failure counts against the budget.
\<close>

fun resume_spec :: "('v \<Rightarrow> 'v \<Rightarrow> 'v result) \<Rightarrow> int option \<Rightarrow> (exn + 'v) list \<Rightarrow> 'v option \<Rightarrow> int \<Rightarrow> ('v option \<times> int \<times> bool) result" where
  "resume_spec combine budget [] acc n = Inr (acc, n, False)"
| "resume_spec combine budget (Inr v # os) acc n =
     result_bind (fold_in combine acc v) (\<lambda>a. resume_spec combine budget os (Some a) n)"
| "resume_spec combine budget (Inl e # os) acc n =
     (if over_budget budget (n + 1) then Inr (acc, n + 1, True) else resume_spec combine budget os acc (n + 1))"

definition run_spec :: "('v \<Rightarrow> 'v \<Rightarrow> 'v result) \<Rightarrow> int option \<Rightarrow> 'v result \<Rightarrow> ('v \<Rightarrow> 'v result) \<Rightarrow> (exn + 'v) list \<Rightarrow> ('v \<times> int \<times> bool) result" where
  "run_spec combine budget mt finish outs =
     result_bind (resume_spec combine budget outs None 0) (\<lambda>(acc, n, stopped).
     result_bind (case acc of Some v \<Rightarrow> Inr v | None \<Rightarrow> mt) (\<lambda>v.
     result_bind (finish v) (\<lambda>v. Inr (v, n, stopped))))"

definition run_summary :: "'v resume_result \<Rightarrow> 'v \<times> int \<times> bool" where
  "run_summary res = (rs_value res, rr_dead (rs_report res), rr_stopped (rs_report res) \<noteq> None)"

definition finish_value :: "('f, 'v, 'r, 'w) callables \<Rightarrow> 'f durable_plan \<Rightarrow> 'v \<Rightarrow> 'v result" where
  "finish_value ca plan v = (case dp_finalize plan of
       None \<Rightarrow> Inr v | Some op \<Rightarrow> result_bind (op_resolve (ca_env ca) op) (\<lambda>f. ca_finalize ca f v))"

text \<open>
  What is assumed of the work. Running a partition, retries included, has a definite outcome and leaves
  the store alone; results survive the codec; partitions have ids, distinct ones distinct ids.
\<close>

definition definite :: "('f, 'v, 'r, 's, 'w) resume_config \<Rightarrow> (partition \<Rightarrow> exn + 'v) \<Rightarrow> partition list \<Rightarrow> bool" where
  "definite cfg out ps \<longleftrightarrow>
     (\<forall>p \<in> set ps. (\<forall>s. \<exists>s'. try_one cfg p s = (Inr (out p), s') \<and> se_store s' = se_store s) \<and>
        (\<forall>v. out p = Inr v \<longrightarrow> (\<exists>b. cd_encode (rc_codec cfg) v = Inr b \<and> cd_decode (rc_codec cfg) b = Inr v)) \<and>
        (\<exists>t. dp_task_id (rc_sha cfg) (rc_plan cfg) p = Inr t)) \<and>
     inj_on (dp_task_id (rc_sha cfg) (rc_plan cfg)) (set ps)"

lemma definiteD:
  assumes "definite cfg out ps" "p \<in> set ps"
  shows "\<exists>s'. try_one cfg p s = (Inr (out p), s') \<and> se_store s' = se_store s"
    and "out p = Inr v \<Longrightarrow> \<exists>b. cd_encode (rc_codec cfg) v = Inr b \<and> cd_decode (rc_codec cfg) b = Inr v"
    and "\<exists>t. dp_task_id (rc_sha cfg) (rc_plan cfg) p = Inr t"
    and "q \<in> set ps \<Longrightarrow> dp_task_id (rc_sha cfg) (rc_plan cfg) p = dp_task_id (rc_sha cfg) (rc_plan cfg) q \<Longrightarrow> p = q"
proof -
  note a = bspec [OF conjunct1 [OF assms(1) [unfolded definite_def]] assms(2)]
  show "\<exists>s'. try_one cfg p s = (Inr (out p), s') \<and> se_store s' = se_store s"
    by (rule spec [OF conjunct1 [OF a]])
  show "out p = Inr v \<Longrightarrow> \<exists>b. cd_encode (rc_codec cfg) v = Inr b \<and> cd_decode (rc_codec cfg) b = Inr v"
    by (rule mp [OF spec [OF conjunct1 [OF conjunct2 [OF a]]]])
  show "\<exists>t. dp_task_id (rc_sha cfg) (rc_plan cfg) p = Inr t" by (rule conjunct2 [OF conjunct2 [OF a]])
  show "q \<in> set ps \<Longrightarrow> dp_task_id (rc_sha cfg) (rc_plan cfg) p = dp_task_id (rc_sha cfg) (rc_plan cfg) q \<Longrightarrow> p = q"
    by (rule inj_onD [OF conjunct2 [OF assms(1) [unfolded definite_def]] _ assms(2)])
qed

text \<open>What holds of every entry of a journal, whoever crashed where: an entry for a partition of the plan names its result.\<close>

definition entry_sound :: "('f, 'v, 'r, 's, 'w) resume_config \<Rightarrow> (partition \<Rightarrow> exn + 'v) \<Rightarrow> partition list \<Rightarrow> journal_entry \<Rightarrow> bool" where
  "entry_sound cfg out ps e \<longleftrightarrow>
     (if je_stage e = ''environment''
      then starts_with (env_prefix (rc_sha cfg) []) (je_task_id e) \<longrightarrow>
        (\<exists>n b. 0 \<le> n \<and> je_task_id e = env_record_id (env_prefix (rc_sha cfg) []) n b)
      else \<forall>p \<in> set ps. dp_task_id (rc_sha cfg) (rc_plan cfg) p = Inr (je_task_id e) \<longrightarrow>
        (\<exists>v b. out p = Inr v \<and> cd_encode (rc_codec cfg) v = Inr b \<and> je_blob e = rc_sha cfg b))"

definition entries_sound :: "('f, 'v, 'r, 's, 'w) resume_config \<Rightarrow> (partition \<Rightarrow> exn + 'v) \<Rightarrow> partition list \<Rightarrow> journal_entry set \<Rightarrow> bool" where
  "entries_sound cfg out ps es \<longleftrightarrow> (\<forall>e \<in> es. entry_sound cfg out ps e)"

lemma entries_soundD:
  "entries_sound cfg out ps es \<Longrightarrow> e \<in> es \<Longrightarrow> je_stage e \<noteq> ''environment'' \<Longrightarrow> p \<in> set ps \<Longrightarrow>
     dp_task_id (rc_sha cfg) (rc_plan cfg) p = Inr (je_task_id e) \<Longrightarrow>
     \<exists>v b. out p = Inr v \<and> cd_encode (rc_codec cfg) v = Inr b \<and> je_blob e = rc_sha cfg b"
  by (drule (1) bspec [OF entries_sound_def [THEN iffD1]]) (simp add: entry_sound_def)

lemma entries_sound_mono: "entries_sound cfg out ps es \<Longrightarrow> es' \<subseteq> es \<Longrightarrow> entries_sound cfg out ps es'"
  unfolding entries_sound_def by blast

lemma entry_sound_done:
  assumes "definite cfg out ps" "p \<in> set ps"
    and "dp_task_id (rc_sha cfg) (rc_plan cfg) p = Inr (je_task_id e)" "je_stage e \<noteq> ''environment''"
    and "out p = Inr v" "cd_encode (rc_codec cfg) v = Inr b" "je_blob e = rc_sha cfg b"
  shows "entry_sound cfg out ps e"
proof -
  have "q = p" if "q \<in> set ps" "dp_task_id (rc_sha cfg) (rc_plan cfg) q = Inr (je_task_id e)" for q
    using definiteD(4) [OF assms(1) that(1) assms(2)] that(2) assms(3) by simp
  then have "\<forall>q \<in> set ps. dp_task_id (rc_sha cfg) (rc_plan cfg) q = Inr (je_task_id e) \<longrightarrow>
        (\<exists>v b. out q = Inr v \<and> cd_encode (rc_codec cfg) v = Inr b \<and> je_blob e = rc_sha cfg b)"
    using assms(5-7) by blast
  then show ?thesis unfolding entry_sound_def using assms(4) by simp
qed

lemma entries_sound_insert: "entries_sound cfg out ps es \<Longrightarrow> entry_sound cfg out ps e \<Longrightarrow> entries_sound cfg out ps (insert e es)"
  unfolding entries_sound_def by blast

section \<open>Runs on a store that keeps the contract\<close>

context checkpoint_store
begin

definition good :: "('f, 'v, 'r, 's, 'w) resume_config \<Rightarrow> (partition \<Rightarrow> exn + 'v) \<Rightarrow> partition list \<Rightarrow> ('s, 'w) session \<Rightarrow> bool" where
  "good cfg out ps s \<longleftrightarrow> valid (se_store s) \<and> entries_sound cfg out ps (entries (se_store s))"

lemma stored_partial_ok:
  assumes "rc_ops cfg = ops" "rc_sha cfg = sha" "\<not> collision sha" "definite cfg out ps" "good cfg out ps s" "p \<in> set ps"
    and "dp_task_id sha (rc_plan cfg) p = Inr tid"
    and "\<And>e. entry = Some e \<Longrightarrow> entries_sound cfg out ps {e} \<and> je_task_id e = tid \<and> je_stage e \<noteq> ''environment''"
  shows "\<exists>x s'. stored_partial ops (rc_codec cfg) entry s = (Inr x, s') \<and> good cfg out ps s' \<and> (\<forall>v. x = Some v \<longrightarrow> out p = Inr v)"
proof (cases entry)
  case None
  then show ?thesis using assms(5) by (simp add: stored_partial_def act_eval)
next
  case (Some e)
  from assms(8) [OF Some] entries_soundD [of cfg out ps "{e}" e p] assms(2,6,7)
  obtain v b where v: "out p = Inr v" "cd_encode (rc_codec cfg) v = Inr b" "je_blob e = sha b" by auto
  from definiteD(2) [OF assms(4,6) v(1)] v(2) have dec: "cd_decode (rc_codec cfg) b = Inr v" by auto
  from get_ok [of "se_store s" "je_blob e"] assms(5) obtain r t where g: "so_get ops (je_blob e) (se_store s) = (Inr r, t)"
      "valid t" "entries t = entries (se_store s)" "\<forall>data. r = Some data \<longrightarrow> sha data = je_blob e"
    by (auto simp: good_def)
  have good: "good cfg out ps (s\<lparr>se_store := t\<rparr>)" using assms(5) g(2,3) by (simp add: good_def)
  show ?thesis
  proof (cases r)
    case None
    with Some g(1) good show ?thesis by (simp add: stored_partial_def on_store_def act_eval)
  next
    case (Some data)
    with g(4) v(3) assms(3) have "data = b" by (auto simp: collision_def)
    with \<open>entry = Some e\<close> Some g(1) good dec v(1) show ?thesis
      by (simp add: stored_partial_def on_store_def act_eval)
  qed
qed

lemma commit_ok:
  assumes "rc_ops cfg = ops" "rc_sha cfg = sha" "definite cfg out ps" "good cfg out ps s" "p \<in> set ps"
    and "dp_task_id sha (rc_plan cfg) p = Inr tid" "out p = Inr v"
  shows "\<exists>x s'. commit cfg tid p v lp s = (x, s') \<and> good cfg out ps s' \<and>
    (case fold_in (rc_combine cfg) (lp_acc lp) v of
       Inl e \<Rightarrow> x = Inl e
     | Inr a \<Rightarrow> x = Inr \<lparr>lp_acc = Some a,
                      lp_report = (lp_report lp)\<lparr>rr_executed := rr_executed (lp_report lp) + 1\<rparr>,
                      lp_committed = lp_committed lp + 1\<rparr> \<or>
         (\<exists>k. rc_kill cfg = Some k \<and> x = Inl (Interrupt interrupt_name)))"
proof -
  from definiteD(2) [OF assms(3,5,7)] obtain b where b: "cd_encode (rc_codec cfg) v = Inr b" by blast
  from put_ok [of "se_store s" b] assms(4) obtain t where t: "so_put ops b (se_store s) = (Inr (sha b), t)"
    "valid t" "entries t = entries (se_store s)" by (auto simp: good_def)
  let ?e = "\<lparr>je_task_id = tid, je_partition = partition_tag p, je_blob = sha b, je_stage = [], je_deps = []\<rparr>"
  from record_done_ok [OF t(2), of ?e] obtain u where u: "so_record_done ops ?e t = (Inr (), u)" "valid u"
    "entries u \<subseteq> insert ?e (entries t)" by blast
  have "entries_sound cfg out ps (insert ?e (entries t))"
    using entry_sound_done [OF assms(3,5), of ?e v b] entries_sound_insert [of cfg out ps "entries t" ?e] assms b t(3)
    by (simp add: good_def)
  then have "entries_sound cfg out ps (entries u)" using u(3) entries_sound_mono by blast
  then have g: "good cfg out ps (s\<lparr>se_store := u\<rparr>)" using u(2) by (simp add: good_def)
  show ?thesis
    using g b t(1) u(1)
    by (cases "fold_in (rc_combine cfg) (lp_acc lp) v"; cases "rc_kill cfg")
       (simp_all add: commit_def assms(1) on_store_def act_eval Let_def)
qed

text \<open>The loop gives what \<open>resume_spec\<close> gives, or was killed; whichever, the store stays good.\<close>

lemma resume_parts_ok:
  assumes cfg: "rc_ops cfg = ops" "rc_sha cfg = sha" "\<not> collision sha" "definite cfg out PS"
    and c: "\<And>t e. map_of (co_entries c) t = Some e \<Longrightarrow> entries_sound cfg out PS {e} \<and> je_task_id e = t \<and> je_stage e \<noteq> ''environment''"
  shows "set ps \<subseteq> set PS \<Longrightarrow> good cfg out PS s \<Longrightarrow> rr_stopped (lp_report lp) = None \<Longrightarrow>
    \<exists>x s'. resume_parts cfg c ps lp s = (x, s') \<and> good cfg out PS s' \<and>
      ((\<exists>k. rc_kill cfg = Some k \<and> x = Inl (Interrupt interrupt_name)) \<or>
       (case resume_spec (rc_combine cfg) (rc_budget cfg) (map out ps) (lp_acc lp) (rr_dead (lp_report lp)) of
          Inl e \<Rightarrow> x = Inl e
        | Inr (a, n, stopped) \<Rightarrow> \<exists>lp'. x = Inr lp' \<and> lp_acc lp' = a \<and> rr_dead (lp_report lp') = n \<and>
            rr_stopped (lp_report lp') = (if stopped then Some ''error_budget'' else None)))"
proof (induction ps arbitrary: lp s)
  case Nil
  then show ?case by (simp add: act_eval)
next
  case (Cons p ps)
  have p: "p \<in> set PS" and ps: "set ps \<subseteq> set PS" using Cons.prems(1) by auto
  from definiteD(3) [OF cfg(4) p] cfg(2) obtain tid where tid: "dp_task_id sha (rc_plan cfg) p = Inr tid" by auto
  from stored_partial_ok [OF cfg(1-4) Cons.prems(2) p tid, of "map_of (co_entries c) tid"] c
  obtain stored s1 where st: "stored_partial ops (rc_codec cfg) (map_of (co_entries c) tid) s = (Inr stored, s1)"
      "good cfg out PS s1" "\<forall>v. stored = Some v \<longrightarrow> out p = Inr v" by blast
  show ?case
  proof (cases stored)
    case (Some v)
    with st(3) have v: "out p = Inr v" by simp
    show ?thesis
    proof (cases "fold_in (rc_combine cfg) (lp_acc lp) v")
      case (Inl e)
      with st tid cfg(1,2) Some v show ?thesis by (simp add: act_eval)
    next
      case (Inr a)
      let ?lp = "lp\<lparr>lp_acc := Some a, lp_report := (lp_report lp)\<lparr>rr_skipped := rr_skipped (lp_report lp) + 1\<rparr>\<rparr>"
      from Cons.IH [OF ps st(2), of ?lp] Cons.prems(3) Inr st tid cfg(1,2) Some v
      show ?thesis by (simp add: act_eval)
    qed
  next
    case None
    from definiteD(1) [OF cfg(4) p, of s1] obtain s2 where s2: "try_one cfg p s1 = (Inr (out p), s2)" "se_store s2 = se_store s1" by blast
    then have g2: "good cfg out PS s2" using st(2) by (simp add: good_def)
    show ?thesis
    proof (cases "out p")
      case (Inl exc)
      let ?d = "dead_letter_json (dead_letter_descriptor tid p exc)"
      from record_dead_ok [of "se_store s2" ?d] g2 obtain t where t: "so_record_dead ops ?d (se_store s2) = (Inr (), t)"
        "valid t" "entries t = entries (se_store s2)" by (auto simp: good_def)
      then have g3: "good cfg out PS (s2\<lparr>se_store := t\<rparr>)" using g2 by (simp add: good_def)
      let ?lp = "lp\<lparr>lp_report := (lp_report lp)\<lparr>rr_dead := rr_dead (lp_report lp) + 1\<rparr>\<rparr>"
      from Cons.IH [OF ps g3, of ?lp] Cons.prems(3) g3 st(1) tid cfg(1,2) None s2(1) Inl t(1)
      show ?thesis by (simp add: act_eval on_store_def Let_def)
    next
      case (Inr v)
      from commit_ok [OF cfg(1,2,4) g2 p tid Inr, of lp] obtain x s3 where x: "commit cfg tid p v lp s2 = (x, s3)" "good cfg out PS s3"
        "case fold_in (rc_combine cfg) (lp_acc lp) v of
           Inl e \<Rightarrow> x = Inl e
         | Inr a \<Rightarrow> x = Inr \<lparr>lp_acc = Some a,
                          lp_report = (lp_report lp)\<lparr>rr_executed := rr_executed (lp_report lp) + 1\<rparr>,
                          lp_committed = lp_committed lp + 1\<rparr> \<or>
             (\<exists>k. rc_kill cfg = Some k \<and> x = Inl (Interrupt interrupt_name))" by blast
      have run: "resume_parts cfg c (p # ps) lp s = (case x of Inl e \<Rightarrow> (Inl e, s3) | Inr lp' \<Rightarrow> resume_parts cfg c ps lp' s3)"
        using st(1) tid cfg(1,2) None s2(1) Inr x(1) by (simp add: act_eval split: sum.split)
      show ?thesis
      proof (cases "fold_in (rc_combine cfg) (lp_acc lp) v")
        case (Inl e)
        with x run Inr show ?thesis by simp
      next
        case fa: (Inr a)
        let ?lp = "\<lparr>lp_acc = Some a, lp_report = (lp_report lp)\<lparr>rr_executed := rr_executed (lp_report lp) + 1\<rparr>,
                     lp_committed = lp_committed lp + 1\<rparr>"
        from x(3) fa consider "x = Inr ?lp" | "\<exists>k. rc_kill cfg = Some k \<and> x = Inl (Interrupt interrupt_name)" by auto
        then show ?thesis
        proof cases
          case 1
          with Cons.IH [OF ps x(2), of ?lp] Cons.prems(3) run Inr fa show ?thesis by simp
        next
          case 2
          with run x(2) show ?thesis by auto
        qed
      qed
    qed
  qed
qed

lemma changes_of_ok:
  "valid s \<Longrightarrow> \<exists>x s'. changes_of ops new bs s = (x, s') \<and> valid s' \<and> entries s' = entries s"
proof (induction bs arbitrary: s)
  case Nil
  then show ?case by (simp add: act_eval)
next
  case (Cons b bs)
  from get_ok [OF Cons.prems, of b] obtain r t where g: "so_get ops b s = (Inr r, t)" "valid t" "entries t = entries s" by blast
  let ?old = "json_loads (case r of Some d \<Rightarrow> (if d = [] then ''{}'' else d) | None \<Rightarrow> ''{}'')"
  from Cons.IH [OF g(2)] obtain x u where u: "changes_of ops new bs t = (x, u)" "valid u" "entries u = entries t" by blast
  show ?case
    using g u by (cases ?old; cases "changes (projr ?old) new"; cases x) (simp_all add: old_environment_def act_eval)
qed

definition env_sound :: "string \<Rightarrow> journal_entry \<Rightarrow> bool" where
  "env_sound prefix e \<longleftrightarrow> (starts_with prefix (je_task_id e) \<longrightarrow> (\<exists>n b. 0 \<le> n \<and> je_task_id e = env_record_id prefix n b))"

lemma check_environment_ok:
  assumes "valid s" "\<forall>e \<in> set (co_environments c). env_sound (env_prefix sha salt) e"
  shows "\<exists>x s'. check_environment sha inst ops c salt accept s = (x, s') \<and> valid s' \<and> (accept \<longrightarrow> x = Inr ()) \<and>
    (\<exists>n b. 0 \<le> n \<and> entries s' \<subseteq> insert (environment_entry (env_record_id (env_prefix sha salt) n b) b) (entries s))"
proof -
  let ?prefix = "env_prefix sha salt"
  from env_records_total [of c ?prefix] assms(2) obtain rs where rs: "env_records ?prefix c = Inr rs" "\<forall>(n, b) \<in> set rs. 0 \<le> n"
    by (auto simp: env_sound_def)
  have top: "0 \<le> max_record rs" using rs(2) by (rule max_record_nonneg)
  let ?force = "remdups (map snd (List.filter (\<lambda>(n, blob). n = max_record rs) rs))"
  let ?mine = "environment_bytes inst"
  consider "set ?force = {sha ?mine}" | "set ?force \<noteq> {sha ?mine}" "?force \<noteq> [] \<and> \<not> accept"
    | "set ?force \<noteq> {sha ?mine}" "\<not> (?force \<noteq> [] \<and> \<not> accept)" by blast
  then show ?thesis
  proof cases
    case 1
    then have "check_environment sha inst ops c salt accept s = (Inr (), s)"
      unfolding check_environment_def Let_def rs(1) act_bind_lift by (simp only: if_True simp_thms act_eval(1))
    with assms(1) show ?thesis by fastforce
  next
    case 2
    then have e: "check_environment sha inst ops c salt accept s =
        act_bind (act_lift (json_loads ?mine)) (\<lambda>new.
        act_bind (changes_of ops new (sort (List.filter (\<lambda>b. b \<noteq> sha ?mine) ?force))) (\<lambda>chs.
          act_raise (EnvironmentChangedError (changed_text chs)))) s"
      unfolding check_environment_def Let_def rs(1) act_bind_lift by (simp only: if_False if_True simp_thms)
    show ?thesis
    proof (cases "json_loads ?mine")
      case (Inl err)
      with e assms(1) 2(2) show ?thesis by (auto simp: act_eval)
    next
      case (Inr new)
      from changes_of_ok [OF assms(1), of new "sort (List.filter (\<lambda>b. b \<noteq> sha ?mine) ?force)"]
      obtain x t where "changes_of ops new (sort (List.filter (\<lambda>b. b \<noteq> sha ?mine) ?force)) s = (x, t)" "valid t" "entries t = entries s" by blast
      with e Inr 2(2) show ?thesis by (cases x) (auto simp: act_eval)
    qed
  next
    case 3
    then have e: "check_environment sha inst ops c salt accept s =
        act_bind (so_put ops ?mine) (\<lambda>blob. so_record_environment ops (env_record_id ?prefix (max_record rs + 1) blob) blob) s"
      unfolding check_environment_def Let_def rs(1) act_bind_lift by (simp only: if_False simp_thms)
    from put_ok [OF assms(1), of ?mine] obtain t where t: "so_put ops ?mine s = (Inr (sha ?mine), t)" "valid t" "entries t = entries s" by blast
    from record_environment_ok [OF t(2), of "env_record_id ?prefix (max_record rs + 1) (sha ?mine)" "sha ?mine"]
    obtain u where "so_record_environment ops (env_record_id ?prefix (max_record rs + 1) (sha ?mine)) (sha ?mine) t = (Inr (), u)"
      "valid u" "entries u \<subseteq> insert (environment_entry (env_record_id ?prefix (max_record rs + 1) (sha ?mine)) (sha ?mine)) (entries t)" by blast
    moreover have "0 \<le> max_record rs + 1" using top by simp
    ultimately show ?thesis using e t by (auto simp: act_eval)
  qed
qed

lemma warn_unreused_ok:
  "list_all (\<lambda>i. \<exists>t. i = Inr t) ids \<Longrightarrow> \<exists>s'. warn_unreused place c n ps ids s = (Inr (), s') \<and> se_store s' = se_store s"
proof -
  assume ids: "list_all (\<lambda>i. \<exists>t. i = Inr t) ids"
  then have "\<exists>b. any_done c ids = Inr b" by (induction ids) auto
  then show ?thesis by (auto simp: warn_unreused_def Let_def act_eval log_message_def)
qed

lemma run_resumable_ok:
  fixes ca :: "('f, 'v, 'r, 'w) callables" and s :: "('s, 'w) session"
  assumes res: "op_resolve (ca_env ca) (dp_process plan) = Inr process"
      "op_resolve (ca_env ca) (dp_combine plan) = Inr combine" "op_resolve (ca_env ca) (dp_empty plan) = Inr mt"
    and bud: "(case budget of None \<Rightarrow> plan_budget plan | Some b \<Rightarrow> Inr (Some b)) = Inr bud"
    and cfg: "cfg = resume_config_of sha ca plan ops r retry cdc process combine bud kill"
    and d: "definite cfg out (dp_partitions plan)" "\<not> collision sha" and g: "good cfg out (dp_partitions plan) s"
  shows "\<exists>x s'. run_resumable sha inst ca plan ops place r retry cdc budget accept kill s = (x, s') \<and>
    good cfg out (dp_partitions plan) s' \<and>
    (accept \<longrightarrow> kill = None \<longrightarrow> result_bind x (\<lambda>res. Inr (run_summary res)) =
       run_spec (ca_combine ca combine) bud (ca_empty ca mt) (finish_value ca plan) (map out (dp_partitions plan)))"
proof -
  let ?ps = "dp_partitions plan"
  have cs: "rc_ops cfg = ops" "rc_sha cfg = sha" "rc_plan cfg = plan" "rc_combine cfg = ca_combine ca combine"
      "rc_budget cfg = bud" "rc_kill cfg = kill" by (simp_all add: cfg resume_config_of_def)
  from completed_ok [of "se_store s"] g obtain c t where c: "so_completed ops (se_store s) = (Inr c, t)" "valid t" "entries t = entries (se_store s)"
    "\<forall>k e. map_of (co_entries c) k = Some e \<longrightarrow> e \<in> entries (se_store s) \<and> je_task_id e = k \<and> je_stage e \<noteq> ''environment''"
    "\<forall>e \<in> set (co_environments c). e \<in> entries (se_store s) \<and> je_stage e = ''environment''"
    by (auto simp: good_def)
  have sound: "entries_sound cfg out ?ps (entries (se_store s))" using g by (simp add: good_def)
  have "\<forall>e \<in> set (co_environments c). env_sound (env_prefix sha []) e"
  proof
    fix e assume "e \<in> set (co_environments c)"
    with c(5) sound have "je_stage e = ''environment''" "entry_sound cfg out ?ps e" by (simp_all add: entries_sound_def)
    then show "env_sound (env_prefix sha []) e" unfolding env_sound_def by (simp add: entry_sound_def cs(2))
  qed
  from check_environment_ok [OF c(2) this, of inst accept] obtain x2 u n b where u: "check_environment sha inst ops c [] accept t = (x2, u)" "valid u"
    "accept \<longrightarrow> x2 = Inr ()" "0 \<le> n" "entries u \<subseteq> insert (environment_entry (env_record_id (env_prefix sha []) n b) b) (entries t)" by blast
  have "entry_sound cfg out ?ps (environment_entry (env_record_id (env_prefix sha []) n b) b)"
    using u(4) cs(2) by (auto simp: entry_sound_def environment_entry_def)
  with sound have su: "entries_sound cfg out ?ps (entries u)"
    using entries_sound_mono [OF entries_sound_insert u(5)] c(3) by simp
  let ?s1 = "s\<lparr>se_store := u\<rparr>"
  have start: "run_resumable sha inst ca plan ops place r retry cdc budget accept kill s =
     (case x2 of Inl e \<Rightarrow> (Inl e, ?s1) | Inr _ \<Rightarrow>
       act_bind (warn_unreused place c (length ?ps) ?ps (map (dp_task_id sha plan) ?ps)) (\<lambda>_.
       act_bind (resume_parts cfg c ?ps \<lparr>lp_acc = None, lp_report = new_report, lp_committed = 0\<rparr>) (\<lambda>lp.
        act_bind (act_lift (require_kill_fired kill (lp_report lp) (lp_committed lp))) (\<lambda>_.
        act_bind (on_store (so_dead_letters ops)) (\<lambda>letters.
        act_bind (act_lift (case lp_acc lp of Some v \<Rightarrow> Inr v | None \<Rightarrow> ca_empty ca mt)) (\<lambda>value.
        act_bind (act_lift (finish_value ca plan value)) (\<lambda>value.
          act_return \<lparr>rs_value = value, rs_report = (lp_report lp)\<lparr>rr_dead_letters := letters\<rparr>\<rparr>)))))) ?s1)"
    using res bud c(1) u(1) by (simp add: run_resumable_def act_eval on_store_def cfg [symmetric] finish_value_def split: sum.split)
  show ?thesis
  proof (cases x2)
    case (Inl e)
    with u(2,3) su start show ?thesis by (auto simp: good_def)
  next
    case (Inr y)
    have ids: "list_all (\<lambda>i. \<exists>t. i = Inr t) (map (dp_task_id sha plan) ?ps)"
      using definiteD(3) [OF d(1)] cs by (simp add: list_all_iff)
    from warn_unreused_ok [OF ids, of place c "length ?ps" ?ps ?s1] obtain s2 where
      s2: "warn_unreused place c (length ?ps) ?ps (map (dp_task_id sha plan) ?ps) ?s1 = (Inr (), s2)" "se_store s2 = u" by auto
    then have g2: "good cfg out ?ps s2" using u(2) su by (simp add: good_def)
    have centry: "entries_sound cfg out ?ps {e} \<and> je_task_id e = t \<and> je_stage e \<noteq> ''environment''"
      if "map_of (co_entries c) t = Some e" for t e
      using c(4) that sound by (auto simp: entries_sound_def)
    let ?lp = "\<lparr>lp_acc = None, lp_report = new_report, lp_committed = 0\<rparr>"
    from resume_parts_ok [OF cs(1,2) d(2,1), where c = c and ps = ?ps and s = s2 and lp = ?lp, OF centry] g2 cs
    obtain x3 s3 where s3: "resume_parts cfg c ?ps ?lp s2 = (x3, s3)" "good cfg out ?ps s3"
      "(\<exists>k. kill = Some k \<and> x3 = Inl (Interrupt interrupt_name)) \<or>
       (case resume_spec (ca_combine ca combine) bud (map out ?ps) None 0 of
          Inl e \<Rightarrow> x3 = Inl e
        | Inr (a, n, stopped) \<Rightarrow> \<exists>lp'. x3 = Inr lp' \<and> lp_acc lp' = a \<and> rr_dead (lp_report lp') = n \<and>
            rr_stopped (lp_report lp') = (if stopped then Some ''error_budget'' else None))"
      by (auto simp: new_report_def)
    from dead_letters_ok [of "se_store s3"] s3(2) obtain ds w where w: "so_dead_letters ops (se_store s3) = (Inr ds, w)" "valid w"
      "entries w = entries (se_store s3)" by (auto simp: good_def)
    then have g4: "good cfg out ?ps (s3\<lparr>se_store := w\<rparr>)" using s3(2) by (simp add: good_def)
    show ?thesis
    proof (cases x3)
      case (Inl e)
      with s3 start Inr s2(1) show ?thesis
        by (auto simp: act_eval run_spec_def split: sum.splits prod.splits)
    next
      case x3: (Inr lp)
      let ?v = "result_bind (case lp_acc lp of Some v \<Rightarrow> Inr v | None \<Rightarrow> ca_empty ca mt) (finish_value ca plan)"
      have run: "run_resumable sha inst ca plan ops place r retry cdc budget accept kill s =
         (case require_kill_fired kill (lp_report lp) (lp_committed lp) of Inl e \<Rightarrow> (Inl e, s3)
          | Inr _ \<Rightarrow> (case ?v of Inl e \<Rightarrow> (Inl e, s3\<lparr>se_store := w\<rparr>)
             | Inr v \<Rightarrow> (Inr \<lparr>rs_value = v, rs_report = (lp_report lp)\<lparr>rr_dead_letters := ds\<rparr>\<rparr>, s3\<lparr>se_store := w\<rparr>)))"
        using start Inr s2(1) s3(1) x3 w(1)
        by (simp add: act_eval on_store_def result_bind_def split: sum.split option.split)
      show ?thesis
      proof (cases "require_kill_fired kill (lp_report lp) (lp_committed lp)")
        case (Inl e)
        then have "kill \<noteq> None" by (cases kill) (auto simp: require_kill_fired_def)
        with Inl run s3(2) show ?thesis by auto
      next
        case (Inr z)
        have sp: "kill = None \<Longrightarrow> resume_spec (ca_combine ca combine) bud (map out ?ps) None 0 =
            Inr (lp_acc lp, rr_dead (lp_report lp), rr_stopped (lp_report lp) \<noteq> None)"
          using s3(3) x3 by (auto split: sum.splits prod.splits if_splits)
        show ?thesis
        proof (cases ?v)
          case (Inl e)
          with run Inr g4 sp show ?thesis by (auto simp: run_spec_def result_bind_def split: sum.splits option.splits)
        next
          case v: (Inr v)
          with run Inr g4 sp show ?thesis
            by (auto simp: run_spec_def result_bind_def run_summary_def split: sum.splits option.splits)
        qed
      qed
    qed
  qed
qed

end

section \<open>Resuming after crashes\<close>

text \<open>
  The states a local store can be in: never used, after any run of the plan (finished, stopped by its
  budget, raised or killed after any commit, in any environment, by any node), with the append of an entry
  or of a dead letter cut anywhere, with blobs lost or overwritten by anything, and with the entries of
  other analyses.
\<close>

inductive store_history :: "(string \<Rightarrow> string) \<Rightarrow> ('f, 'v, 'r, 'w) callables \<Rightarrow> 'f durable_plan \<Rightarrow> 'r \<Rightarrow>
    ('r, (local_store, 'w) session) retry_policy option \<Rightarrow> 'v value_codec \<Rightarrow> (partition \<Rightarrow> exn + 'v) \<Rightarrow> local_store \<Rightarrow> bool"
  for sha ca plan r retry cdc out where
  fresh: "local_valid t \<Longrightarrow> local_entries t = {} \<Longrightarrow> store_history sha ca plan r retry cdc out t"
| ran: "store_history sha ca plan r retry cdc out (se_store s) \<Longrightarrow>
    run_resumable sha inst ca plan (local_ops sha node) place r retry cdc budget accept kill s = (x, s') \<Longrightarrow>
    store_history sha ca plan r retry cdc out (se_store s')"
| torn_entry: "store_history sha ca plan r retry cdc out t \<Longrightarrow> p \<in> set (dp_partitions plan) \<Longrightarrow>
    dp_task_id sha plan p = Inr (je_task_id e) \<Longrightarrow> je_stage e = [] \<Longrightarrow> out p = Inr v \<Longrightarrow> cd_encode cdc v = Inr b \<Longrightarrow>
    je_blob e = sha b \<Longrightarrow> store_history sha ca plan r retry cdc out (cut_append n (journal_name node) (done_record e) t)"
| torn_letter: "store_history sha ca plan r retry cdc out t \<Longrightarrow>
    store_history sha ca plan r retry cdc out (cut_append n dead_letter_log d t)"
| damaged: "store_history sha ca plan r retry cdc out t \<Longrightarrow>
    store_history sha ca plan r retry cdc out (t\<lparr>ls_blobs := blobs, ls_bad := bad\<rparr>)"
| other: "store_history sha ca plan r retry cdc out t \<Longrightarrow> je_stage e \<noteq> ''environment'' \<Longrightarrow>
    (\<And>p. p \<in> set (dp_partitions plan) \<Longrightarrow> dp_task_id sha plan p \<noteq> Inr (je_task_id e)) \<Longrightarrow>
    store_history sha ca plan r retry cdc out (cut_append n (journal_name node) (done_record e) t)"

lemma definite_cong:
  "definite (resume_config_of sha ca plan ops1 r retry cdc process combine b1 k1) out ps =
   definite (resume_config_of sha ca plan ops2 r retry cdc process combine b2 k2) out ps"
proof -
  have "try_one (resume_config_of sha ca plan ops1 r retry cdc process combine b1 k1) p s =
        try_one (resume_config_of sha ca plan ops2 r retry cdc process combine b2 k2) p s" for p s
  proof -
    have pp: "plain_process (resume_config_of sha ca plan ops1 r retry cdc process combine b1 k1) =
          plain_process (resume_config_of sha ca plan ops2 r retry cdc process combine b2 k2)"
      by (simp add: plain_process_def resume_config_of_def fun_eq_iff)
    have fs: "rc_retry (resume_config_of sha ca plan o' r retry cdc process combine b k) = retry"
        "rc_combine (resume_config_of sha ca plan o' r retry cdc process combine b k) = ca_combine ca combine"
        "rc_resources (resume_config_of sha ca plan o' r retry cdc process combine b k) = r" for o' b k
      by (simp_all add: resume_config_of_def)
    show ?thesis unfolding try_one_def run_one_def fs pp by (rule refl)
  qed
  then show ?thesis by (simp add: definite_def) (simp add: resume_config_of_def)
qed

lemma entries_sound_cong:
  "entries_sound (resume_config_of sha ca plan ops1 r retry cdc process combine b1 k1) out ps es =
   entries_sound (resume_config_of sha ca plan ops2 r retry cdc process combine b2 k2) out ps es"
  by (simp add: entries_sound_def entry_sound_def resume_config_of_def)

lemma cut_entry_sound:
  assumes "local_valid t \<and> entries_sound cfg out ps (local_entries t)" "entry_sound cfg out ps e"
  shows "local_valid (cut_append n name (done_record e) t) \<and>
    entries_sound cfg out ps (local_entries (cut_append n name (done_record e) t))"
proof -
  have "local_entries (cut_append n name (done_record e) t) \<subseteq> insert e (local_entries t)"
    using cut_append_journal(2) [of t _ n name e] assms(1) by blast
  with entries_sound_insert [of cfg out ps "local_entries t" e] assms cut_append_journal(1) [of t]
  show ?thesis using entries_sound_mono by blast
qed

lemma store_history_sound:
  assumes res: "op_resolve (ca_env ca) (dp_process plan) = Inr process"
      "op_resolve (ca_env ca) (dp_combine plan) = Inr combine" "op_resolve (ca_env ca) (dp_empty plan) = Inr mt"
    and d: "definite (resume_config_of sha ca plan (local_ops sha node0) r retry cdc process combine bud0 None) out (dp_partitions plan)"
    and nc: "\<not> collision sha" and h: "store_history sha ca plan r retry cdc out t"
  shows "local_valid t \<and> entries_sound (resume_config_of sha ca plan (local_ops sha node0) r retry cdc process combine bud0 None)
     out (dp_partitions plan) (local_entries t)"
  using h
proof induction
  case (fresh t)
  then show ?case by (simp add: entries_sound_def)
next
  case (ran s inst node place budget accept kill x s')
  let ?b = "case budget of None \<Rightarrow> plan_budget plan | Some b \<Rightarrow> Inr (Some b)"
  show ?case
  proof (cases ?b)
    case (Inl e)
    with ran.hyps(2) res have "s' = s" by (simp add: run_resumable_def act_eval)
    with ran.IH show ?thesis by simp
  next
    case (Inr bud)
    let ?cfg = "resume_config_of sha ca plan (local_ops sha node) r retry cdc process combine bud kill"
    have "local.good ?cfg out (dp_partitions plan) s"
      unfolding local.good_def
      by (rule conjI [OF conjunct1 [OF ran.IH] iffD1 [OF entries_sound_cong conjunct2 [OF ran.IH]]])
    from local.run_resumable_ok [OF res Inr refl iffD1 [OF definite_cong d] nc this, of inst place accept] ran.hyps(2)
    have g: "local.good ?cfg out (dp_partitions plan) s'" by auto
    show ?thesis
      by (rule conjI [OF conjunct1 [OF g [unfolded local.good_def]]
            iffD1 [OF entries_sound_cong conjunct2 [OF g [unfolded local.good_def]]]])
  qed
next
  case (torn_entry t p e v b n node)
  have "entry_sound (resume_config_of sha ca plan (local_ops sha node0) r retry cdc process combine bud0 None) out (dp_partitions plan) e"
    by (rule entry_sound_done [OF d torn_entry.hyps(2), of e v b]) (use torn_entry.hyps in \<open>simp_all add: resume_config_of_def\<close>)
  from cut_entry_sound [OF torn_entry.IH this] show ?case .
next
  case (torn_letter t n d)
  with append_dead show ?case by simp
next
  case (damaged t blobs bad)
  then show ?case by simp
next
  case (other t e n node)
  then have "entry_sound (resume_config_of sha ca plan (local_ops sha node0) r retry cdc process combine bud0 None) out (dp_partitions plan) e"
    by (auto simp: entry_sound_def resume_config_of_def)
  from cut_entry_sound [OF other.IH this] show ?case .
qed

text \<open>
  C16. Resume is safe: whatever happened to a store before (runs killed after any commit or stopped
  anywhere, appends torn, blobs lost or corrupted, other analyses recorded), a run of the plan against it
  gives the value, the number of dead partitions and the stop of a run that uses no store: every partition
  counts exactly once.
\<close>
theorem resume_after_crashes:
  assumes "op_resolve (ca_env ca) (dp_process plan) = Inr process"
      "op_resolve (ca_env ca) (dp_combine plan) = Inr combine" "op_resolve (ca_env ca) (dp_empty plan) = Inr mt"
    and "(case budget of None \<Rightarrow> plan_budget plan | Some b \<Rightarrow> Inr (Some b)) = Inr bud"
    and "definite (resume_config_of sha ca plan (local_ops sha node) r retry cdc process combine bud None) out (dp_partitions plan)"
    and "\<not> collision sha" "store_history sha ca plan r retry cdc out (se_store s)"
  shows "result_bind (fst (run_resumable sha inst ca plan (local_ops sha node) place r retry cdc budget True None s)) (\<lambda>res. Inr (run_summary res)) =
     run_spec (ca_combine ca combine) bud (ca_empty ca mt) (finish_value ca plan) (map out (dp_partitions plan))"
proof -
  have "local.good (resume_config_of sha ca plan (local_ops sha node) r retry cdc process combine bud None) out (dp_partitions plan) s"
    unfolding local.good_def by (rule store_history_sound [OF assms(1-3,5-7)])
  from local.run_resumable_ok [OF assms(1-4) refl assms(5,6) this, of inst place True] show ?thesis by auto
qed

text \<open>A plan over two partitions whose process counts entries, with an injective stand-in for the hash.\<close>

definition live_op :: "unit op_spec" where
  "live_op = \<lparr>os_kind = ''ref'', os_ref = ''m:f'', os_blob_b64 = [], os_live = Some ()\<rparr>"

definition count_plan :: "unit durable_plan" where
  "count_plan = \<lparr>dp_ir = ''ir'', dp_process = live_op, dp_combine = live_op, dp_empty = live_op,
     dp_partitions = [mk_partition ''f'' ''t'' 0 3, mk_partition ''f'' ''t'' 3 7], dp_read_columns = [],
     dp_stopping = [], dp_file_locality = [], dp_resource_hints = [], dp_format_version = 1, dp_services = [],
     dp_finalize = None\<rparr>"

definition count_calls :: "(unit, int, unit, unit) callables" where
  "count_calls = \<lparr>ca_env = \<lparr>in_import = \<lambda>_. Inr (), in_getattr = \<lambda>_ _. Inr (), in_loads = \<lambda>_. Inr (), in_dumps = \<lambda>_. [],
       in_module = \<lambda>_. None, in_qualname = \<lambda>_. None\<rparr>,
     ca_process = \<lambda>_ p _ w. (Inr (Plain (n_entries p)), w), ca_combine = \<lambda>_ a b. Inr (a + b),
     ca_empty = \<lambda>_. Inr 0, ca_finalize = \<lambda>_ v. Inr v\<rparr>"

definition int_codec :: "int value_codec" where
  "int_codec = \<lparr>cd_encode = \<lambda>v. Inr (dec v), cd_decode = \<lambda>b. Inr (int_value b)\<rparr>"

definition count_session :: "local_store \<Rightarrow> (local_store, unit) session" where
  "count_session t = \<lparr>se_store = t, se_world = (), se_warnings = \<lparr>ws_interpreter = [], ws_pid = 1, ws_worker_pid = None,
     ws_installed = False, ws_sink = None, ws_shown = []\<rparr>, se_log = []\<rparr>"

definition count_run where
  "count_run kill = run_resumable (\<lambda>b. b) sample_installation count_calls count_plan (local_ops (\<lambda>b. b) None) ''store'' ()
     None int_codec None True kill"

lemma count_definite:
  "definite (resume_config_of (\<lambda>b. b) count_calls count_plan (local_ops (\<lambda>b. b) None) () None int_codec () () None None)
     (\<lambda>p. Inr (n_entries p)) (dp_partitions count_plan)"
proof -
  let ?p = "mk_partition ''f'' ''t'' 0 3" and ?q = "mk_partition ''f'' ''t'' 3 7"
  have l: "length (partition_bytes ?p) = 53" "length (partition_bytes ?q) = 53" by code_simp+
  obtain ps qs where ps: "dp_task_parts count_plan ?p = Inr ps" "dp_task_parts count_plan ?q = Inr qs" "framable ps" "framable qs"
      "ps ! 3 = partition_bytes ?p" "qs ! 3 = partition_bytes ?q"
    by (simp add: dp_task_parts_def count_plan_def op_identity_def live_op_def framable_def l utf8_def utf8_char_def task_domain_def)
  have "partition_bytes ?p \<noteq> partition_bytes ?q" using partition_bytes_inject [of ?p ?q] by auto
  then have "sha256_hex (\<lambda>b. b) ps \<noteq> sha256_hex (\<lambda>b. b) qs"
    using sha256_hex_inject [OF ps(3,4), of "\<lambda>b. b"] ps(5,6) by (auto simp: collision_def)
  then have ne: "dp_task_id (\<lambda>b. b) count_plan ?p \<noteq> dp_task_id (\<lambda>b. b) count_plan ?q"
    using ps(1,2) by (simp add: dp_task_id_def)
  have ids: "\<exists>t. dp_task_id (\<lambda>b. b) count_plan p = Inr t" for p
    by (simp add: dp_task_id_def dp_task_parts_def count_plan_def op_identity_def live_op_def)
  have run: "try_one (resume_config_of (\<lambda>b. b) count_calls count_plan (local_ops (\<lambda>b. b) None) () None int_codec () () None None) p s
      = (Inr (Inr (n_entries p)), s)" for p s
    by (simp add: resume_config_of_def try_one_def run_one_def plain_process_def count_calls_def on_world_def
        drop_warnings_def without_warnings_def act_eval)
  have parts: "set (dp_partitions count_plan) = {?p, ?q}" by (simp add: count_plan_def)
  show ?thesis
    unfolding definite_def parts run
    using ids ne dec_token by (auto simp: resume_config_of_def int_codec_def inj_on_def)
qed

theorem resume_after_crashes_witness:
  "result_bind (fst (count_run None (snd (count_run (Some 1) (count_session fresh_store))))) (\<lambda>res. Inr (run_summary res))
   = Inr (7, 0, False)"
proof -
  have r: "op_resolve (ca_env count_calls) (dp_process count_plan) = Inr ()" "op_resolve (ca_env count_calls) (dp_combine count_plan) = Inr ()"
    "op_resolve (ca_env count_calls) (dp_empty count_plan) = Inr ()"
    by (simp_all add: count_plan_def op_resolve_def live_op_def)
  have "store_history (\<lambda>b. b) count_calls count_plan () None int_codec (\<lambda>p. Inr (n_entries p)) (se_store (count_session fresh_store))"
    by (rule store_history.fresh) (simp_all add: count_session_def)
  then have h: "store_history (\<lambda>b. b) count_calls count_plan () None int_codec (\<lambda>p. Inr (n_entries p))
      (se_store (snd (count_run (Some 1) (count_session fresh_store))))"
    unfolding count_run_def by (rule store_history.ran) (rule prod.collapse [symmetric])
  show ?thesis
    using resume_after_crashes [OF r, of None None "\<lambda>b. b" None "()" None int_codec "\<lambda>p. Inr (n_entries p)"
        "snd (count_run (Some 1) (count_session fresh_store))" sample_installation "''store''", OF _ count_definite _ h]
    by (simp add: plan_budget_def collision_def count_run_def)
       (simp add: count_plan_def run_spec_def fold_in_def count_calls_def finish_value_def n_entries_def)
qed

end
