(* ===== verification/Shuffle_Resume.thy ===== *)
theory Shuffle_Resume
  imports Resume
begin

text \<open>
  \<open>run_shuffle_resumable\<close> (\<open>checkpoint/runner.py\<close>): a staged plan against a checkpoint store. Each
  stage's tasks receive the payloads of the stages it reads; each block is stored under its hash and
  journaled with its stage and the hash of one blob that lists the blocks it was made from.
\<close>

section \<open>The runner\<close>

record ('f, 'r, 'w) stage_callables =
  sc_env :: "'f interpreter"
  sc_process :: "'f \<Rightarrow> task \<Rightarrow> string list \<Rightarrow> 'r \<Rightarrow> (string, 'w) action"

record shuffle_resume_result =
  sr_value :: "string list"
  sr_report :: resume_report

text \<open>The blocks of the finished stages: payloads and hashes by stage index.\<close>

record shuffle_blocks =
  sb_payloads :: "(int \<times> string list) list"
  sb_hashes :: "(int \<times> string list) list"

text \<open>Within a stage: the blocks so far, the hash of the listing once it is stored, the counts.\<close>

record stage_state =
  sg_payloads :: "string list"
  sg_hashes :: "string list"
  sg_deps :: "string list option"
  sg_report :: resume_report
  sg_committed :: int

record ('f, 'r, 's, 'w) shuffle_config =
  sf_sha :: "string \<Rightarrow> string"
  sf_plan :: "'f durable_plan_v2"
  sf_callables :: "('f, 'r, 'w) stage_callables"
  sf_ops :: "'s store_ops"
  sf_resources :: 'r
  sf_kill :: "int option"

definition listing_bytes :: "string list \<Rightarrow> string" where
  "listing_bytes hashes = utf8 (dumps (JArr (map JStr hashes)))"

definition stored_block :: "'s store_ops \<Rightarrow> journal_entry option \<Rightarrow> ((string \<times> string) option, ('s, 'w) session) action" where
  "stored_block ops entry = (case entry of
       None \<Rightarrow> act_return None
     | Some e \<Rightarrow> act_bind (on_store (so_get ops (je_blob e))) (\<lambda>blob.
         act_return (map_option (\<lambda>b. (b, je_blob e)) blob)))"

definition commit_block ::
  "('f, 'r, 's, 'w) shuffle_config \<Rightarrow> string \<Rightarrow> 'f stage_spec \<Rightarrow> task \<Rightarrow> string list \<Rightarrow> string \<Rightarrow> stage_state \<Rightarrow> (stage_state, ('s, 'w) session) action" where
  "commit_block cfg tid stage t upstream_hashes payload sg =
     act_bind (on_store (so_put (sf_ops cfg) payload)) (\<lambda>blob_hash.
     act_bind (case sg_deps sg of
         Some deps \<Rightarrow> act_return deps
       | None \<Rightarrow>
           if upstream_hashes = [] then act_return []
           else act_bind (on_store (so_put (sf_ops cfg) (listing_bytes upstream_hashes))) (\<lambda>listing. act_return [listing])) (\<lambda>deps.
     act_bind (on_store (so_record_done (sf_ops cfg)
       \<lparr>je_task_id = tid, je_partition = partition_tag (task_partition t), je_blob = blob_hash,
        je_stage = ss_kind stage, je_deps = deps\<rparr>)) (\<lambda>_.
       let rep = (sg_report sg)\<lparr>rr_executed := rr_executed (sg_report sg) + 1\<rparr>;
           committed = sg_committed sg + 1;
           sg' = \<lparr>sg_payloads = sg_payloads sg @ [payload], sg_hashes = sg_hashes sg @ [blob_hash], sg_deps = Some deps,
                  sg_report = rep, sg_committed = committed\<rparr>
       in case sf_kill cfg of
            Some k \<Rightarrow> if k \<le> committed then act_raise (Interrupt interrupt_name) else act_return sg'
          | None \<Rightarrow> act_return sg')))"

fun stage_tasks ::
  "('f, 'r, 's, 'w) shuffle_config \<Rightarrow> completed \<Rightarrow> int \<Rightarrow> 'f stage_spec \<Rightarrow> 'f \<Rightarrow> string list \<Rightarrow> string list \<Rightarrow> task list \<Rightarrow>
   stage_state \<Rightarrow> (stage_state, ('s, 'w) session) action" where
  "stage_tasks cfg c si stage f inputs upstream [] sg = act_return sg"
| "stage_tasks cfg c si stage f inputs upstream (t # ts) sg =
     act_bind (act_lift (v2_task_id (sf_sha cfg) (sf_plan cfg) si t)) (\<lambda>tid.
     act_bind (stored_block (sf_ops cfg) (map_of (co_entries c) tid)) (\<lambda>stored.
     case stored of
       Some (blob, hash) \<Rightarrow>
         stage_tasks cfg c si stage f inputs upstream ts
           (sg\<lparr>sg_payloads := sg_payloads sg @ [blob], sg_hashes := sg_hashes sg @ [hash],
               sg_report := (sg_report sg)\<lparr>rr_skipped := rr_skipped (sg_report sg) + 1\<rparr>\<rparr>)
     | None \<Rightarrow>
         act_bind (on_world (sc_process (sf_callables cfg) f t inputs (sf_resources cfg))) (\<lambda>payload.
         act_bind (commit_block cfg tid stage t upstream payload sg)
           (stage_tasks cfg c si stage f inputs upstream ts))))"

text \<open>\<open>stage_payloads[dep]\<close> for each stage it reads, in order; a stage that has not run is a \<open>KeyError\<close>.\<close>

definition upstream_of :: "(int \<times> 'x list) list \<Rightarrow> int list \<Rightarrow> 'x list result" where
  "upstream_of blocks deps = result_bind (traverse (\<lambda>d. case map_of blocks d of
       Some xs \<Rightarrow> Inr xs | None \<Rightarrow> Inl (KeyError (dec d))) deps) (\<lambda>xss. Inr (concat xss))"

fun run_stages ::
  "('f, 'r, 's, 'w) shuffle_config \<Rightarrow> completed \<Rightarrow> int \<Rightarrow> 'f stage_spec list \<Rightarrow> shuffle_blocks \<Rightarrow> resume_report \<Rightarrow> int \<Rightarrow>
   (shuffle_blocks \<times> resume_report, ('s, 'w) session) action" where
  "run_stages cfg c si [] blocks rep committed = act_return (blocks, rep)"
| "run_stages cfg c si (stage # stages) blocks rep committed =
     act_bind (act_lift (op_resolve (sc_env (sf_callables cfg)) (ss_process stage))) (\<lambda>f.
     act_bind (act_lift (upstream_of (sb_payloads blocks) (ss_inputs stage))) (\<lambda>inputs.
     act_bind (act_lift (upstream_of (sb_hashes blocks) (ss_inputs stage))) (\<lambda>upstream.
     act_bind (stage_tasks cfg c si stage f inputs upstream (ss_tasks stage)
         \<lparr>sg_payloads = [], sg_hashes = [], sg_deps = None, sg_report = rep, sg_committed = committed\<rparr>) (\<lambda>sg.
       run_stages cfg c (si + 1) stages
         \<lparr>sb_payloads = AList.update si (sg_payloads sg) (sb_payloads blocks),
          sb_hashes = AList.update si (sg_hashes sg) (sb_hashes blocks)\<rparr> (sg_report sg) (sg_committed sg)))))"

definition all_task_ids :: "(string \<Rightarrow> string) \<Rightarrow> 'f durable_plan_v2 \<Rightarrow> string result list" where
  "all_task_ids sha plan = concat (map (\<lambda>(si, stage). map (v2_task_id sha plan si) (ss_tasks stage)) (py_enumerate (v2_stages plan)))"

definition read_partitions :: "'f durable_plan_v2 \<Rightarrow> partition list" where
  "read_partitions plan = concat (map (\<lambda>s. if ss_inputs s = [] then map task_partition (ss_tasks s) else []) (v2_stages plan))"

definition run_shuffle_resumable ::
  "(string \<Rightarrow> string) \<Rightarrow> installation \<Rightarrow> ('f, 'r, 'w) stage_callables \<Rightarrow> 'f durable_plan_v2 \<Rightarrow> unit result \<Rightarrow> 's store_ops \<Rightarrow> string \<Rightarrow>
   'r \<Rightarrow> bool \<Rightarrow> int option \<Rightarrow> (shuffle_resume_result, ('s, 'w) session) action" where
  "run_shuffle_resumable sha inst sc plan bound ops place res accept kill =
     act_bind (act_lift bound) (\<lambda>_.
     act_bind (on_store (so_completed ops)) (\<lambda>c.
     act_bind (on_store (check_environment sha inst ops c [] accept)) (\<lambda>_.
     act_bind (warn_unreused place c (length (concat (map ss_tasks (v2_stages plan)))) (read_partitions plan) (all_task_ids sha plan)) (\<lambda>_.
     let cfg = \<lparr>sf_sha = sha, sf_plan = plan, sf_callables = sc, sf_ops = ops, sf_resources = res, sf_kill = kill\<rparr>
     in act_bind (run_stages cfg c 0 (v2_stages plan) \<lparr>sb_payloads = [], sb_hashes = []\<rparr> new_report 0) (\<lambda>(blocks, rep).
          act_bind (act_lift (case map_of (sb_hashes blocks) (int (length (v2_stages plan)) - 1) of
               Some hs \<Rightarrow> Inr hs | None \<Rightarrow> Inl (KeyError (dec (int (length (v2_stages plan)) - 1))))) (\<lambda>hs.
            act_return \<lparr>sr_value = hs, sr_report = rep\<rparr>))))))"

end
