(* ===== verification/Services.thy ===== *)
theory Services
  imports Resume
begin

text \<open>
  The services of a plan (\<open>core/services.py\<close>, \<open>services.py\<close>): reading an endpoint, binding endpoints
  into a plan's processes and handing a run's value back through them.

  A plan part is a value \<open>'f\<close>; whether it has a hook is data (\<open>hooks\<close>): a part without \<open>bind_services\<close> is
  not \<open>Bindable\<close>. The check of a bracketed host (the standard library's \<open>ipaddress\<close>) is an argument.
\<close>

section \<open>Endpoints\<close>

definition schemes :: "string list" where
  "schemes = [''tcp'', ''http'', ''https'', ''grpc'', ''grpcs'']"

text \<open>
  \<open>urlsplit\<close>: leading control characters and spaces go, tabs and line ends anywhere go, then the scheme
  and the network location are split off.
\<close>

record split_url =
  su_scheme :: string
  su_netloc :: string

definition is_alpha :: "char \<Rightarrow> bool" where
  "is_alpha c \<longleftrightarrow> (let n = of_char c :: nat in 65 \<le> n \<and> n \<le> 90 \<or> 97 \<le> n \<and> n \<le> 122)"

definition scheme_char :: "char \<Rightarrow> bool" where
  "scheme_char c \<longleftrightarrow> is_alpha c \<or> is_digit c \<or> c \<in> {CHR ''+'', CHR ''-'', CHR ''.''}"

definition url_clean :: "string \<Rightarrow> string" where
  "url_clean u = List.filter (\<lambda>c. c \<notin> {CHR 0x09, CHR 0x0A, CHR 0x0D}) (dropWhile (\<lambda>c. (of_char c :: nat) \<le> 32) u)"

definition split_scheme :: "string \<Rightarrow> string \<times> string" where
  "split_scheme u =
     (case str_partition '':'' u of
        (s, found, rest) \<Rightarrow>
          if found \<and> s \<noteq> [] \<and> is_alpha (hd s) \<and> list_all scheme_char s then (map lower_char s, rest) else ([], u))"

definition urlsplit :: "(string \<Rightarrow> bool) \<Rightarrow> string \<Rightarrow> split_url result" where
  "urlsplit bracket_ok u =
     (case split_scheme (url_clean u) of
        (s, rest) \<Rightarrow>
          let netloc = (if starts_with ''//'' rest
                then takeWhile (\<lambda>c. c \<notin> {CHR ''/'', CHR ''?'', CHR ''#''}) (drop 2 rest) else []);
              opens = CHR ''['' \<in> set netloc; closes = CHR '']'' \<in> set netloc
          in if opens \<noteq> closes then Inl (ValueError ''Invalid IPv6 URL'')
             else if opens \<and> \<not> bracket_ok netloc then Inl (ValueError ''Invalid IPv6 URL'')
             else Inr \<lparr>su_scheme = s, su_netloc = netloc\<rparr>)"

text \<open>The host and the port text of a network location, after the last \<open>@\<close>.\<close>

definition after_at :: "string \<Rightarrow> string" where
  "after_at netloc = rev (takeWhile (\<lambda>c. c \<noteq> CHR ''@'') (rev netloc))"

definition host_port :: "string \<Rightarrow> string \<times> string" where
  "host_port netloc =
     (let info = after_at netloc
      in case str_partition ''['' info of
           (_, True, bracketed) \<Rightarrow>
             (case str_partition '']'' bracketed of (host, _, port) \<Rightarrow>
              case str_partition '':'' port of (_, _, port) \<Rightarrow> (host, port))
         | (_, False, _) \<Rightarrow> (case str_partition '':'' info of (host, _, port) \<Rightarrow> (host, port)))"

definition port_of :: "string \<Rightarrow> int option result" where
  "port_of text =
     (if text = [] then Inr None
      else if list_all is_digit text then
        (if undec text \<le> 65535 then Inr (Some (int (undec text))) else Inl (ValueError ''Port out of range 0-65535''))
      else Inl (ValueError ''Port could not be cast to integer value''))"

definition split_endpoint :: "(string \<Rightarrow> bool) \<Rightarrow> string \<Rightarrow> (string \<times> string) result" where
  "split_endpoint bracket_ok endpoint =
     result_bind (urlsplit bracket_ok endpoint) (\<lambda>parts.
       let (host, text) = host_port (su_netloc parts);
           port = (case port_of text of Inr p \<Rightarrow> p | Inl _ \<Rightarrow> None)
       in if su_scheme parts \<notin> set schemes \<or> port = None \<or> host = [] \<or> CHR ''@'' \<in> set (su_netloc parts)
             \<or> endpoint \<noteq> su_scheme parts @ ''://'' @ su_netloc parts
          then Inl (ValueError (''an endpoint is scheme://host:port with a scheme in '' @ str_join '', '' schemes @
                 ''; got '' @ py_repr endpoint))
          else Inr (su_scheme parts, su_netloc parts))"

section \<open>Binding and resolving\<close>

record ('f, 'v) hooks =
  hk_bind :: "'f \<Rightarrow> ((string \<rightharpoonup> string) \<Rightarrow> 'f result) option"
  hk_resolve :: "'f \<Rightarrow> ('v \<Rightarrow> 'v result) option"

definition bind_part :: "('f, 'v) hooks \<Rightarrow> (string \<rightharpoonup> string) \<Rightarrow> 'f \<Rightarrow> 'f result" where
  "bind_part hk endpoints f = (case hk_bind hk f of Some b \<Rightarrow> b endpoints | None \<Rightarrow> Inr f)"

definition bind_externals :: "('f, 'v) hooks \<Rightarrow> (string \<times> 'f) list \<Rightarrow> (string \<rightharpoonup> string) \<Rightarrow> (string \<times> 'f) list result" where
  "bind_externals hk externals endpoints =
     traverse (\<lambda>(key, fn). result_bind (bind_part hk endpoints fn) (\<lambda>fn. Inr (key, fn))) externals"

text \<open>An External node: its kind and the service its parameters name.\<close>

definition referenced_services ::
  "(string \<Rightarrow> service_spec result) \<Rightarrow> (string \<times> (string \<times> json) list) list \<Rightarrow> string list \<Rightarrow> service_spec list result" where
  "referenced_services service_for nodes names =
     (let named = List.map_filter (\<lambda>(kind, params).
            if kind = ''external'' then map_option py_str (map_of params ''service'') else None) nodes
      in traverse service_for (sort (remdups (named @ names))))"

definition check_endpoints :: "(string \<Rightarrow> bool) \<Rightarrow> (string \<times> string) list \<Rightarrow> unit result" where
  "check_endpoints bracket_ok endpoints =
     result_bind (traverse (\<lambda>(_, e). split_endpoint bracket_ok e) endpoints) (\<lambda>_. Inr ())"

definition bind_stage :: "'f interpreter \<Rightarrow> ('f, 'v) hooks \<Rightarrow> (string \<rightharpoonup> string) \<Rightarrow> 'f stage_spec \<Rightarrow> 'f stage_spec result" where
  "bind_stage env hk endpoints stage =
     result_bind (op_resolve env (ss_process stage)) (\<lambda>fn.
       case hk_bind hk fn of
         None \<Rightarrow> Inr stage
       | Some b \<Rightarrow> result_bind (b endpoints) (\<lambda>live. Inr (stage\<lparr>ss_process := (ss_process stage)\<lparr>os_live := Some live\<rparr>\<rparr>)))"

definition bind_staged_services ::
  "(string \<Rightarrow> bool) \<Rightarrow> 'f interpreter \<Rightarrow> ('f, 'v) hooks \<Rightarrow> 'f durable_plan_v2 \<Rightarrow> (string \<times> string) list \<Rightarrow> 'f durable_plan_v2 result" where
  "bind_staged_services bracket_ok env hk plan endpoints =
     result_bind (check_endpoints bracket_ok endpoints) (\<lambda>_.
     result_bind (traverse (bind_stage env hk (map_of endpoints)) (v2_stages plan)) (\<lambda>stages.
       Inr (plan\<lparr>v2_stages := stages\<rparr>)))"

definition bind_plan_services ::
  "(string \<Rightarrow> bool) \<Rightarrow> ('r, 'h) plan \<Rightarrow> (string \<times> string) list \<Rightarrow> ('r, 'h) plan result" where
  "bind_plan_services bracket_ok plan endpoints =
     result_bind (check_endpoints bracket_ok endpoints) (\<lambda>_.
       if is_bindable (pl_process plan)
       then result_bind (bind_process (pl_process plan) (map_of endpoints)) (\<lambda>p. Inr (plan\<lparr>pl_process := p\<rparr>))
       else Inr plan)"

text \<open>The value goes through each part that has the hook, in order, its warnings kept.\<close>

fun resolve_through :: "('v \<Rightarrow> 'v result) option list \<Rightarrow> 'v carrier \<Rightarrow> 'v carrier result" where
  "resolve_through [] value = Inr value"
| "resolve_through (None # ps) value = resolve_through ps value"
| "resolve_through (Some f # ps) value = result_bind (on_value f value) (resolve_through ps)"

definition resolve_staged_services ::
  "'f interpreter \<Rightarrow> ('f, 'v) hooks \<Rightarrow> 'f durable_plan_v2 \<Rightarrow> 'v carrier \<Rightarrow> 'v carrier result" where
  "resolve_staged_services env hk plan value =
     result_bind (traverse (\<lambda>s. op_resolve env (ss_process s)) (v2_stages plan)) (\<lambda>parts.
       resolve_through (map (hk_resolve hk) parts) value)"

definition require_staged_bound :: "'f interpreter \<Rightarrow> ('f, 'v) hooks \<Rightarrow> 'f durable_plan_v2 \<Rightarrow> unit result option" where
  "require_staged_bound env hk plan =
     (if v2_services plan = [] then Some (Inr ())
      else case traverse (\<lambda>s. op_resolve env (ss_process s)) (v2_stages plan) of
             Inl e \<Rightarrow> Some (Inl e)
           | Inr parts \<Rightarrow> require_parts (List.map_filter (hk_bind hk) parts) [])"

section \<open>Facts\<close>

lemma str_partition_char:
  "str_partition [c] s = (takeWhile (\<lambda>x. x \<noteq> c) s, c \<in> set s, tl (dropWhile (\<lambda>x. x \<noteq> c) s))"
  by (induction s) auto

lemma after_at_id: "CHR ''@'' \<notin> set n \<Longrightarrow> after_at n = n"
proof -
  assume "CHR ''@'' \<notin> set n"
  then have "takeWhile (\<lambda>c. c \<noteq> CHR ''@'') (rev n) = rev n" unfolding takeWhile_eq_all_conv by auto
  then show ?thesis unfolding after_at_def by (simp only: rev_rev_ident)
qed

lemma host_port_plain:
  assumes "CHR ''@'' \<notin> set n" "CHR ''['' \<notin> set n"
  shows "host_port n = (takeWhile (\<lambda>x. x \<noteq> CHR '':'') n, tl (dropWhile (\<lambda>x. x \<noteq> CHR '':'') n))"
  using assms by (simp add: host_port_def Let_def after_at_id str_partition_char)

lemma port_of_Some: "port_of t = Inr (Some p) \<longleftrightarrow> t \<noteq> [] \<and> list_all is_digit t \<and> undec t \<le> 65535 \<and> p = int (undec t)"
  by (auto simp: port_of_def)

lemma scheme_facts:
  assumes "s \<in> set schemes"
  shows "s \<noteq> []" "is_alpha (hd s)" "list_all scheme_char s" "map lower_char s = s" "CHR '':'' \<notin> set s"
    "\<forall>c \<in> set s. 32 < (of_char c :: nat)"
  using assms by (auto simp: schemes_def is_alpha_def scheme_char_def lower_char_def Let_def is_digit_def)

definition plain_host :: "string \<Rightarrow> bool" where
  "plain_host h \<longleftrightarrow> h \<noteq> [] \<and> set h \<inter> {CHR ''/'', CHR ''?'', CHR ''#'', CHR ''@'', CHR '':'', CHR 0x09, CHR 0x0A, CHR 0x0D} = {}"

lemma split_endpoint_Inr:
  "split_endpoint bracket_ok e = Inr (s, n) \<longleftrightarrow>
     urlsplit bracket_ok e = Inr \<lparr>su_scheme = s, su_netloc = n\<rparr> \<and> s \<in> set schemes \<and> CHR ''@'' \<notin> set n \<and>
     e = s @ ''://'' @ n \<and> fst (host_port n) \<noteq> [] \<and> (\<exists>p. port_of (snd (host_port n)) = Inr (Some p))"
proof (cases "urlsplit bracket_ok e")
  case (Inr parts)
  obtain s' n' where p: "parts = \<lparr>su_scheme = s', su_netloc = n'\<rparr>" by (cases parts) auto
  have "split_endpoint bracket_ok e = Inr (s, n) \<longleftrightarrow> s' = s \<and> n' = n \<and> s' \<in> set schemes \<and> CHR ''@'' \<notin> set n' \<and>
     e = s' @ ''://'' @ n' \<and> fst (host_port n') \<noteq> [] \<and> (\<exists>p. port_of (snd (host_port n')) = Inr (Some p))"
    by (cases "port_of (snd (host_port n'))"; cases "host_port n'") (auto simp: split_endpoint_def Inr p split: option.split)
  then show ?thesis by (auto simp: Inr p)
qed (simp add: split_endpoint_def)

text \<open>A network location that was split off holds no delimiter and no tab or line end.\<close>

lemma urlsplit_netloc_chars:
  assumes "urlsplit bracket_ok e = Inr \<lparr>su_scheme = s, su_netloc = n\<rparr>"
  shows "set n \<inter> {CHR ''/'', CHR ''?'', CHR ''#'', CHR 0x09, CHR 0x0A, CHR 0x0D} = {}"
proof -
  obtain s' rest where sr: "split_scheme (url_clean e) = (s', rest)" by fastforce
  then have "set rest \<subseteq> set (url_clean e)"
    by (auto simp: split_scheme_def str_partition_char split: if_splits dest!: list.set_sel(2)[rotated] set_dropWhileD)
  moreover have "set (url_clean e) \<inter> {CHR 0x09, CHR 0x0A, CHR 0x0D} = {}" by (auto simp: url_clean_def)
  moreover have "n \<noteq> [] \<Longrightarrow> n = takeWhile (\<lambda>c. c \<notin> {CHR ''/'', CHR ''?'', CHR ''#''}) (drop 2 rest)"
    using assms sr by (auto simp: urlsplit_def Let_def split: if_splits)
  ultimately show ?thesis by (cases "n = []") (auto dest!: set_takeWhileD in_set_dropD)
qed

lemma tl_dropWhile_split:
  assumes "tl (dropWhile (\<lambda>x. x \<noteq> c) n) \<noteq> []"
  shows "n = takeWhile (\<lambda>x. x \<noteq> c) n @ [c] @ tl (dropWhile (\<lambda>x. x \<noteq> c) n)"
proof -
  let ?t = "dropWhile (\<lambda>x. x \<noteq> c) n"
  from assms have "?t \<noteq> []" by (cases ?t) (simp_all del: dropWhile_eq_Nil_conv)
  then have "?t = c # tl ?t" using hd_dropWhile [of "\<lambda>x. x \<noteq> c" n] by (cases ?t) auto
  with takeWhile_dropWhile_id [of "\<lambda>x. x \<noteq> c" n] show ?thesis by simp
qed

lemma netloc_parts:
  assumes "set n \<inter> {CHR ''/'', CHR ''?'', CHR ''#'', CHR ''@'', CHR ''['', CHR 0x09, CHR 0x0A, CHR 0x0D} = {}"
    and "fst (host_port n) \<noteq> []" "port_of (snd (host_port n)) = Inr (Some p)"
  shows "\<exists>h t. n = h @ '':'' @ t \<and> plain_host h \<and> t \<noteq> [] \<and> list_all is_digit t \<and> undec t \<le> 65535"
proof -
  let ?h = "takeWhile (\<lambda>x. x \<noteq> CHR '':'') n" and ?t = "tl (dropWhile (\<lambda>x. x \<noteq> CHR '':'') n)"
  have hp: "host_port n = (?h, ?t)" by (rule host_port_plain) (use assms(1) in auto)
  from assms(3) have t: "?t \<noteq> []" "list_all is_digit ?t" "undec ?t \<le> 65535" by (simp_all add: hp port_of_Some)
  have "plain_host ?h" using assms(1,2) by (auto simp: hp plain_host_def dest!: set_takeWhileD)
  with tl_dropWhile_split [OF t(1)] t show ?thesis by blast
qed

text \<open>A plain \<open>scheme://location\<close> is split into just these.\<close>

lemma urlsplit_plain:
  assumes "s \<in> set schemes"
    and "set n \<inter> {CHR ''/'', CHR ''?'', CHR ''#'', CHR ''['', CHR '']'', CHR 0x09, CHR 0x0A, CHR 0x0D} = {}"
  shows "urlsplit bracket_ok (s @ ''://'' @ n) = Inr \<lparr>su_scheme = s, su_netloc = n\<rparr>"
proof -
  let ?e = "s @ ''://'' @ n"
  note sf = scheme_facts [OF assms(1)]
  have "c \<in> set ?e \<Longrightarrow> c \<notin> {CHR 0x09, CHR 0x0A, CHR 0x0D}" for c
    using assms(2) sf(6) by (cases "c \<in> set s") auto
  then have "List.filter (\<lambda>c. c \<notin> {CHR 0x09, CHR 0x0A, CHR 0x0D}) ?e = ?e" unfolding filter_id_conv by blast
  moreover have "dropWhile (\<lambda>c. (of_char c :: nat) \<le> 32) ?e = ?e" using sf(1,6) by (cases s) auto
  ultimately have clean: "url_clean ?e = ?e" by (simp add: url_clean_def)
  have tk: "takeWhile (\<lambda>x. x \<noteq> CHR '':'') s = s" "dropWhile (\<lambda>x. x \<noteq> CHR '':'') s = []"
    using sf(5) by (auto simp: takeWhile_eq_all_conv)
  have ss: "split_scheme ?e = (s, ''//'' @ n)"
    using sf tk by (simp add: split_scheme_def str_partition_char takeWhile_append dropWhile_append)
  have tn: "takeWhile (\<lambda>c. c \<noteq> CHR ''/'' \<and> c \<noteq> CHR ''?'' \<and> c \<noteq> CHR ''#'') n = n"
    using assms(2) by (auto simp: takeWhile_eq_all_conv)
  have "CHR ''['' \<notin> set n" "CHR '']'' \<notin> set n" using assms(2) by auto
  then show ?thesis unfolding urlsplit_def clean ss by (simp add: Let_def tn)
qed

lemma host_port_join:
  assumes "plain_host h" "CHR ''['' \<notin> set h" "CHR ''@'' \<notin> set t" "CHR ''['' \<notin> set t"
  shows "host_port (h @ '':'' @ t) = (h, t)"
proof -
  have hn: "takeWhile (\<lambda>x. x \<noteq> CHR '':'') h = h" "dropWhile (\<lambda>x. x \<noteq> CHR '':'') h = []"
    using assms(1) by (auto simp: plain_host_def takeWhile_eq_all_conv)
  have b: "CHR ''@'' \<notin> set (h @ '':'' @ t)" "CHR ''['' \<notin> set (h @ '':'' @ t)" using assms by (auto simp: plain_host_def)
  show ?thesis using hn unfolding host_port_plain [OF b] by (simp add: takeWhile_append dropWhile_append)
qed

text \<open>
  C26. Endpoints. A text without brackets is an endpoint exactly when it is a known scheme, \<open>://\<close>, a host
  without delimiters, a colon and a port of at most 65535; the scheme and the location come back as they
  were written.
\<close>
theorem split_endpoint_spec:
  assumes "CHR ''['' \<notin> set e" "CHR '']'' \<notin> set e"
  shows "split_endpoint bracket_ok e = Inr (s, n) \<longleftrightarrow>
    s \<in> set schemes \<and> e = s @ ''://'' @ n \<and>
    (\<exists>h t. n = h @ '':'' @ t \<and> plain_host h \<and> t \<noteq> [] \<and> list_all is_digit t \<and> undec t \<le> 65535)"
    (is "?L \<longleftrightarrow> ?R")
proof
  assume ?L
  then have parts: "urlsplit bracket_ok e = Inr \<lparr>su_scheme = s, su_netloc = n\<rparr>"
      "s \<in> set schemes" "CHR ''@'' \<notin> set n" "e = s @ ''://'' @ n"
      "fst (host_port n) \<noteq> []" "\<exists>p. port_of (snd (host_port n)) = Inr (Some p)"
    unfolding split_endpoint_Inr by blast+
  have "CHR ''['' \<notin> set n" using assms parts(4) by simp
  with urlsplit_netloc_chars [OF parts(1)] parts(3)
  have "set n \<inter> {CHR ''/'', CHR ''?'', CHR ''#'', CHR ''@'', CHR ''['', CHR 0x09, CHR 0x0A, CHR 0x0D} = {}" by auto
  from netloc_parts [OF this parts(5)] parts(2,4,6) show ?R by blast
next
  assume ?R
  then obtain h t where e: "s \<in> set schemes" "e = s @ ''://'' @ n" "n = h @ '':'' @ t" "plain_host h" "t \<noteq> []"
    "list_all is_digit t" "undec t \<le> 65535" by blast
  have td: "c \<in> set t \<Longrightarrow> 48 \<le> (of_char c :: nat) \<and> (of_char c :: nat) \<le> 57" for c
    using e(6) by (auto simp: list_all_iff is_digit_def)
  then have tn: "set t \<inter> {CHR ''/'', CHR ''?'', CHR ''#'', CHR ''@'', CHR ''['', CHR '']'', CHR 0x09, CHR 0x0A, CHR 0x0D} = {}" by fastforce
  have "CHR ''['' \<notin> set n" "CHR '']'' \<notin> set n" using assms e(2) by auto
  with e(4) tn have nset: "set n \<inter> {CHR ''/'', CHR ''?'', CHR ''#'', CHR ''['', CHR '']'', CHR 0x09, CHR 0x0A, CHR 0x0D} = {}" "CHR ''@'' \<notin> set n"
    by (auto simp: e(3) plain_host_def)
  have hp: "host_port n = (h, t)" unfolding e(3) by (rule host_port_join [OF e(4)]) (use nset(1) tn e(3) in auto)
  show ?L
    unfolding split_endpoint_Inr e(2)
    using urlsplit_plain [OF e(1) nset(1)] e(1,4-7) nset(2) by (auto simp: hp port_of_Some plain_host_def)
qed

theorem split_endpoint_spec_witness:
  "split_endpoint (\<lambda>_. False) ''grpcs://host:443'' = Inr (''grpcs'', ''host:443'')"
proof -
  have "''host:443'' = ''host'' @ '':'' @ ''443'' \<and> plain_host ''host'' \<and> ''443'' \<noteq> [] \<and> list_all is_digit ''443'' \<and> undec ''443'' \<le> 65535"
    by (simp add: plain_host_def is_digit_def undec_def digit_val_def)
  then have ht: "\<exists>h t. ''host:443'' = h @ '':'' @ t \<and> plain_host h \<and> t \<noteq> [] \<and> list_all is_digit t \<and> undec t \<le> 65535" by blast
  show ?thesis
    by (rule split_endpoint_spec [of "''grpcs://host:443''" "\<lambda>_. False" "''grpcs''" "''host:443''", THEN iffD2])
       (simp, simp, rule conjI [OF _ conjI [OF _ ht]], simp add: schemes_def, simp)
qed

text \<open>
  C27. Binding endpoints is invisible to a plan's identity: the bound plan has the bytes and the task ids
  of the plan it was made from.
\<close>
theorem binding_keeps_identity:
  assumes "bind_staged_services bracket_ok env hk plan endpoints = Inr bound"
  shows "v2_to_bytes bound = v2_to_bytes plan \<and> v2_task_id sha bound i t = v2_task_id sha plan i t"
proof -
  from assms obtain stages where b: "bound = plan\<lparr>v2_stages := stages\<rparr>"
      "traverse (bind_stage env hk (map_of endpoints)) (v2_stages plan) = Inr stages"
    by (auto simp: bind_staged_services_def result_bind_Inr_iff)
  have one: "bind_stage env hk m st = Inr st' \<Longrightarrow> stage_json st' = stage_json st \<and> op_identity (ss_process st') = op_identity (ss_process st)
      \<and> ss_kind st' = ss_kind st \<and> ss_routing st' = ss_routing st" for m st st'
    by (auto simp: bind_stage_def result_bind_Inr_iff stage_json_def op_json_def op_identity_def split: option.splits)
  have l: "list_all2 (\<lambda>st st'. \<exists>m. bind_stage env hk m st = Inr st') xs ys" if "traverse (bind_stage env hk m) xs = Inr ys" for m xs ys
    using that by (induction xs arbitrary: ys) (auto simp: result_bind_Inr_iff)
  from l [OF b(2)] have "map stage_json stages = map stage_json (v2_stages plan)"
    by (induction rule: list_all2_induct) (use one in auto)
  then have bytes: "v2_to_bytes bound = v2_to_bytes plan"
    by (simp add: v2_to_bytes_def v2_doc_def b(1) tail_fields_def)
  from l [OF b(2)] have len: "length stages = length (v2_stages plan)" by (simp add: list_all2_lengthD)
  have nth: "k < length stages \<Longrightarrow> \<exists>m. bind_stage env hk m (v2_stages plan ! k) = Inr (stages ! k)" for k
    using l [OF b(2)] len by (auto simp: list_all2_conv_all_nth)
  have "v2_task_parts bound i t = v2_task_parts plan i t"
  proof (cases "py_index stages i")
    case (Inl e)
    then show ?thesis using len by (auto simp: v2_task_parts_def b(1) py_index_def Let_def split: if_splits)
  next
    case (Inr st')
    then obtain k where k: "k < length stages" "st' = stages ! k" "py_index (v2_stages plan) i = Inr (v2_stages plan ! k)"
    proof -
      let ?k = "nat (if i < 0 then i + int (length stages) else i)"
      have "?k < length stages \<and> st' = stages ! ?k \<and> py_index (v2_stages plan) i = Inr (v2_stages plan ! ?k)"
        using Inr len by (auto simp: py_index_def Let_def split: if_splits)
      then show thesis using that by blast
    qed
    with nth one have "op_identity (ss_process st') = op_identity (ss_process (v2_stages plan ! k))"
      "ss_kind st' = ss_kind (v2_stages plan ! k)" "ss_routing st' = ss_routing (v2_stages plan ! k)" by blast+
    with Inr k(3) show ?thesis by (simp add: v2_task_parts_def b(1))
  qed
  with bytes show ?thesis by (simp add: v2_task_id_def)
qed

definition sample_staged :: "string durable_plan_v2" where
  "sample_staged = \<lparr>v2_ir = ''ir'',
     v2_stages = [\<lparr>ss_kind = ''map'', ss_inputs = [], ss_process = (op_from_ref ''m:f'')\<lparr>os_live := Some ''f''\<rparr>,
       ss_routing = [], ss_tasks = []\<rparr>],
     v2_format_version = format_version_v2, v2_services = [], v2_finalize = None\<rparr>"

definition sample_interpreter :: "string interpreter" where
  "sample_interpreter = \<lparr>in_import = Inr, in_getattr = (\<lambda>f name. Inr (f @ ''.'' @ name)), in_loads = Inr, in_dumps = (\<lambda>f. f),
     in_module = (\<lambda>f. Some ''m''), in_qualname = Some\<rparr>"

definition sample_hooks :: "(string, int) hooks" where
  "sample_hooks = \<lparr>hk_bind = (\<lambda>f. Some (\<lambda>endpoints. case endpoints ''s'' of
       Some e \<Rightarrow> Inr (f @ e) | None \<Rightarrow> Inl (KeyError ''s''))), hk_resolve = (\<lambda>f. None)\<rparr>"

theorem binding_keeps_identity_witness:
  "\<exists>bound. bind_staged_services (\<lambda>_. False) sample_interpreter sample_hooks sample_staged [(''s'', ''tcp://h:1'')] = Inr bound \<and>
     os_live (ss_process (hd (v2_stages bound))) = Some ''ftcp://h:1'' \<and> v2_to_bytes bound = v2_to_bytes sample_staged"
proof -
  have "split_endpoint (\<lambda>_. False) ''tcp://h:1'' = Inr (''tcp'', ''h:1'')"
    by (simp add: split_endpoint_def urlsplit_def url_clean_def split_scheme_def is_alpha_def scheme_char_def lower_char_def
        is_digit_def host_port_def after_at_def port_of_def undec_def digit_val_def schemes_def Let_def)
  then have "check_endpoints (\<lambda>_. False) [(''s'', ''tcp://h:1'')] = Inr ()" by (simp add: check_endpoints_def)
  then obtain bound where b: "bind_staged_services (\<lambda>_. False) sample_interpreter sample_hooks sample_staged [(''s'', ''tcp://h:1'')] = Inr bound"
      "os_live (ss_process (hd (v2_stages bound))) = Some ''ftcp://h:1''"
    by (simp add: bind_staged_services_def bind_stage_def op_resolve_def sample_staged_def sample_hooks_def)
  with binding_keeps_identity [OF b(1), of "\<lambda>s. s" 0 "\<lparr>task_key = 0, task_partition = mk_partition ''a'' [] 0 5\<rparr>"]
  show ?thesis by blast
qed

end
