(* ===== verification/Evaluate.thy ===== *)
theory Evaluate
  imports Json
begin

text \<open>
  Evaluation of a reduced graph (\<open>execute.py\<close>): \<open>evaluate_ir\<close>, its dispatch with failure attribution, the
  release of values after their last consumer, the cone of a set of nodes, and the refusal of reductions
  whose per-chunk value would be taken for the dataset's.

  The nodes are what the compiled store's \<open>nodes()\<close> lists (the store itself is Rust). An array backend is
  an argument: its \<open>eval_stage\<close>, the operations it lets take unaligned rows and the row count of a value.
  A slot of the value list is \<open>None\<close> where Python holds \<open>None\<close>. The reference is \<open>node_value\<close>, which evaluates
  a node by recursion on its inputs, with no list of values, no release and no order.
\<close>

section \<open>Nodes\<close>

type_synonym params = "(string \<times> json) list"

datatype stage_ref = StageInput nat | StageMember nat

record stage_member =
  sm_name :: string
  sm_inputs :: "stage_ref list"
  sm_params :: params

datatype node_body =
    SourceNode string
  | OpNode string params
  | ReductionNode string params
  | ExchangeNode params
  | JoinNode params
  | StageNode "stage_member list"
  | ExternalNode string string params

record ir_node =
  nd_body :: node_body
  nd_inputs :: "nat list"

fun node_kind :: "node_body \<Rightarrow> string" where
  "node_kind (SourceNode _) = ''source''"
| "node_kind (OpNode _ _) = ''op''"
| "node_kind (ReductionNode _ _) = ''reduction''"
| "node_kind (ExchangeNode _) = ''exchange''"
| "node_kind (JoinNode _) = ''join''"
| "node_kind (StageNode _) = ''stage''"
| "node_kind (ExternalNode _ _ _) = ''external''"

section \<open>Dispatch\<close>

type_synonym node_key = "nat \<times> nat option"

type_synonym 'v failure_hook = "node_key \<Rightarrow> string \<Rightarrow> 'v option list \<Rightarrow> exn \<Rightarrow> exn option"

record 'v array_backend =
  ab_eval :: "string \<Rightarrow> 'v option list \<Rightarrow> params \<Rightarrow> 'v result"
  ab_unaligned :: "string list"
  ab_rows :: "'v \<Rightarrow> nat option"

record 'v evaluation =
  ev_backend :: "'v array_backend"
  ev_sources :: "string \<rightharpoonup> 'v result"
  ev_externals :: "(string \<rightharpoonup> ('v option list \<Rightarrow> 'v result)) option"
  ev_on_failure :: "'v failure_hook option"
  ev_chunked :: bool

definition dispatch :: "'v failure_hook option \<Rightarrow> 'v result \<Rightarrow> string \<Rightarrow> 'v option list \<Rightarrow> node_key \<Rightarrow> 'v result" where
  "dispatch hook run name ins key =
     (case run of
        Inr v \<Rightarrow> Inr v
      | Inl e \<Rightarrow>
          if is_exception e then
            (case hook of None \<Rightarrow> Inl e
             | Some h \<Rightarrow> (case h key name ins e of None \<Rightarrow> Inl e | Some replacement \<Rightarrow> Inl replacement))
          else Inl e)"

definition row_counts :: "('v \<Rightarrow> nat option) \<Rightarrow> 'v option list \<Rightarrow> nat list" where
  "row_counts rows ins = sort (remdups (List.map_filter (\<lambda>x. Option.bind x rows) ins))"

definition rows_aligned :: "'v array_backend \<Rightarrow> string \<Rightarrow> 'v option list \<Rightarrow> params \<Rightarrow> 'v result" where
  "rows_aligned be op ins params =
     (let lengths = row_counts (ab_rows be) ins
      in if 1 < length lengths \<and> op \<notin> set (ab_unaligned be)
         then Inl (ValueError (py_repr op @ '' got arrays of ['' @ str_join '', '' (map (\<lambda>n. dec (int n)) lengths) @
           ''] rows in one chunk: they are different row sets, so a partitioned run cannot pair them with the dataset's rows''))
         else ab_eval be op ins params)"

definition row_wise :: "'v evaluation \<Rightarrow> string \<Rightarrow> 'v option list \<Rightarrow> params \<Rightarrow> 'v result" where
  "row_wise ev = (if ev_chunked ev then rows_aligned (ev_backend ev) else ab_eval (ev_backend ev))"

section \<open>Values and their release\<close>

text \<open>\<open>vals[i]\<close>, and \<open>vals[i] = None\<close> for the values a consumer was the last to read.\<close>

definition slot :: "'v option list \<Rightarrow> nat \<Rightarrow> 'v option result" where
  "slot vals i = (if i < length vals then Inr (vals ! i) else Inl (IndexError ''list index out of range''))"

definition release :: "nat list \<Rightarrow> 'v option list \<Rightarrow> 'v option list" where
  "release freed vals = foldl (\<lambda>vs i. vs[i := None]) vals freed"

definition last_reads :: "nat list list \<Rightarrow> (nat \<times> nat) list" where
  "last_reads inputs =
     foldl (\<lambda>d (consumer, used). foldl (\<lambda>d i. AList.update i consumer d) d used) [] (enumerate 0 inputs)"

definition last_consumers :: "nat list list \<Rightarrow> nat list \<Rightarrow> (nat \<times> nat list) list" where
  "last_consumers inputs keep =
     foldl (\<lambda>out (i, consumer). if i \<in> set keep then out
            else AList.map_default consumer [i] (\<lambda>freed. freed @ [i]) out) [] (last_reads inputs)"

definition freed_by :: "(nat \<times> nat list) list \<Rightarrow> nat \<Rightarrow> nat list" where
  "freed_by table n = (case map_of table n of None \<Rightarrow> [] | Some freed \<Rightarrow> freed)"

section \<open>Fused stages and external nodes\<close>

definition member_reads :: "stage_member \<Rightarrow> nat list" where
  "member_reads m = List.map_filter (\<lambda>r. case r of StageMember i \<Rightarrow> Some i | StageInput _ \<Rightarrow> None) (sm_inputs m)"

definition member_ins :: "'v option list \<Rightarrow> 'v option list \<Rightarrow> stage_member \<Rightarrow> 'v option list result" where
  "member_ins ins mvals m = traverse (\<lambda>r. case r of StageInput i \<Rightarrow> slot ins i | StageMember i \<Rightarrow> slot mvals i) (sm_inputs m)"

fun run_members ::
  "'v evaluation \<Rightarrow> nat \<Rightarrow> (nat \<times> nat list) list \<Rightarrow> 'v option list \<Rightarrow> nat \<Rightarrow> stage_member list \<Rightarrow> 'v option list \<Rightarrow> 'v option list result" where
  "run_members ev nid table ins index [] mvals = Inr mvals"
| "run_members ev nid table ins index (m # ms) mvals =
     result_bind (member_ins ins mvals m) (\<lambda>mins.
     result_bind (dispatch (ev_on_failure ev) (row_wise ev (sm_name m) mins (sm_params m)) (sm_name m) mins (nid, Some index)) (\<lambda>v.
       run_members ev nid table ins (Suc index) ms (release (freed_by table index) (mvals @ [Some v]))))"

text \<open>\<open>mvals[-1]\<close>; the last member's value is never released.\<close>

definition evaluate_stage :: "'v evaluation \<Rightarrow> nat \<Rightarrow> stage_member list \<Rightarrow> 'v option list \<Rightarrow> 'v option result" where
  "evaluate_stage ev nid members ins =
     result_bind (run_members ev nid (last_consumers (map member_reads members) [length members - 1]) ins 0 members []) (\<lambda>mvals.
       if mvals = [] then Inl (IndexError ''list index out of range'') else Inr (last mvals))"

definition external_op :: "string \<Rightarrow> params \<Rightarrow> string" where
  "external_op kind params =
     (case map_of params ''fn'' of
        None \<Rightarrow> ''external:'' @ kind
      | Some JNull \<Rightarrow> ''external:'' @ kind
      | Some v \<Rightarrow> ''map '' @ json_repr v)"

definition evaluator_key :: "string \<Rightarrow> params \<Rightarrow> string" where
  "evaluator_key content_hash params = content_hash @ ''|'' @ dumps (JObj params)"

definition external_key :: "string \<Rightarrow> params \<Rightarrow> string" where
  "external_key content_hash params = evaluator_key content_hash params"

definition unbound_external :: "string \<Rightarrow> exn" where
  "unbound_external chash = GraphedError (''evaluate_ir: External payload '' @ py_repr chash @
     '' needs an evaluator. `aggregate_plan` wires these from the recording session; a bare `evaluate_ir` call must pass'' @
     '' externals keyed by `graphed.execute.external_key(node)` or by `content_hash`.'')"

definition unbound_source :: "string \<Rightarrow> exn" where
  "unbound_source name = GraphedError (''evaluate_ir: no data bound for source '' @ py_repr name)"

definition find_external :: "'v evaluation \<Rightarrow> string \<Rightarrow> params \<Rightarrow> ('v option list \<Rightarrow> 'v result) option" where
  "find_external ev chash params =
     (case ev_externals ev of None \<Rightarrow> None
      | Some d \<Rightarrow> (case d (external_key chash params) of Some f \<Rightarrow> Some f | None \<Rightarrow> d chash))"

definition evaluate_external ::
  "'v evaluation \<Rightarrow> nat \<Rightarrow> string \<Rightarrow> string \<Rightarrow> params \<Rightarrow> 'v option list \<Rightarrow> 'v result" where
  "evaluate_external ev nid chash kind params ins =
     (case find_external ev chash params of
        None \<Rightarrow> Inl (unbound_external chash)
      | Some f \<Rightarrow> dispatch (ev_on_failure ev) (f ins) (external_op kind params) ins (nid, None))"

section \<open>Cones\<close>

text \<open>\<open>todo\<close> is the stack, its top first: \<open>extend\<close> then \<open>pop\<close> takes the last input first.\<close>

definition node_at :: "ir_node list \<Rightarrow> nat \<Rightarrow> ir_node result" where
  "node_at nodes i = (if i < length nodes then Inr (nodes ! i) else Inl (IndexError ''list index out of range''))"

function cone_walk :: "ir_node list \<Rightarrow> nat set \<Rightarrow> nat list \<Rightarrow> nat set \<Rightarrow> nat set result" where
  "cone_walk nodes stop [] seen = Inr seen"
| "cone_walk nodes stop (nid # todo) seen =
     (if nid \<in> seen then cone_walk nodes stop todo seen
      else if nid \<in> stop then cone_walk nodes stop todo (insert nid seen)
      else if nid < length nodes then cone_walk nodes stop (rev (nd_inputs (nodes ! nid)) @ todo) (insert nid seen)
      else Inl (IndexError ''list index out of range''))"
  by pat_completeness auto

text \<open>Either a node is seen for the first time, or the stack shrinks.\<close>

termination
proof (relation "(\<lambda>(nodes, stop, todo, seen). card ({..<length nodes} - seen)) <*mlex*>
    measure (\<lambda>(nodes, stop, todo, seen). length todo)")
  show "wf ((\<lambda>(nodes, stop, todo, seen). card ({..<length nodes} - seen)) <*mlex*>
    measure (\<lambda>(nodes :: ir_node list, stop :: nat set, todo :: nat list, seen). length todo))"
    by (intro wf_mlex) simp
next
  fix nodes :: "ir_node list" and stop nid todo and seen :: "nat set"
  assume "nid \<notin> seen" "nid < length nodes"
  then have "{..<length nodes} - insert nid seen \<subset> {..<length nodes} - seen" by auto
  then have "card ({..<length nodes} - insert nid seen) < card ({..<length nodes} - seen)"
    by (intro psubset_card_mono) auto
  then show "((nodes, stop, rev (nd_inputs (nodes ! nid)) @ todo, insert nid seen), (nodes, stop, nid # todo, seen))
      \<in> (\<lambda>(nodes, stop, todo, seen). card ({..<length nodes} - seen)) <*mlex*> measure (\<lambda>(nodes, stop, todo, seen). length todo)"
    by (simp add: mlex_less)
next
  fix nodes :: "ir_node list" and stop nid todo and seen :: "nat set"
  have "card ({..<length nodes} - insert nid seen) \<le> card ({..<length nodes} - seen)"
    by (rule card_mono) auto
  then show "((nodes, stop, todo, insert nid seen), (nodes, stop, nid # todo, seen))
      \<in> (\<lambda>(nodes, stop, todo, seen). card ({..<length nodes} - seen)) <*mlex*> measure (\<lambda>(nodes, stop, todo, seen). length todo)"
    by (simp add: mlex_leq)
qed (simp_all add: mlex_leq)

definition ir_cone :: "ir_node list \<Rightarrow> nat list \<Rightarrow> nat set \<Rightarrow> nat set result" where
  "ir_cone nodes roots stop = cone_walk nodes stop (rev roots) {}"

section \<open>Evaluating a graph\<close>

definition evaluate_node :: "'v evaluation \<Rightarrow> nat \<Rightarrow> ir_node \<Rightarrow> 'v option list \<Rightarrow> 'v option result" where
  "evaluate_node ev nid nd ins =
     (case nd_body nd of
        SourceNode name \<Rightarrow>
          (case ev_sources ev name of None \<Rightarrow> Inl (unbound_source name) | Some r \<Rightarrow> result_bind r (\<lambda>v. Inr (Some v)))
      | OpNode name params \<Rightarrow>
          result_bind (dispatch (ev_on_failure ev) (row_wise ev name ins params) name ins (nid, None)) (\<lambda>v. Inr (Some v))
      | ReductionNode name params \<Rightarrow>
          result_bind (dispatch (ev_on_failure ev) (ab_eval (ev_backend ev) name ins params) name ins (nid, None)) (\<lambda>v. Inr (Some v))
      | ExchangeNode params \<Rightarrow>
          result_bind (dispatch (ev_on_failure ev) (ab_eval (ev_backend ev) ''exchange'' ins params) ''exchange'' ins (nid, None)) (\<lambda>v. Inr (Some v))
      | JoinNode params \<Rightarrow>
          result_bind (dispatch (ev_on_failure ev) (ab_eval (ev_backend ev) ''join'' ins params) ''join'' ins (nid, None)) (\<lambda>v. Inr (Some v))
      | StageNode members \<Rightarrow> evaluate_stage ev nid members ins
      | ExternalNode chash kind params \<Rightarrow>
          result_bind (evaluate_external ev nid chash kind params ins) (\<lambda>v. Inr (Some v)))"

fun run_nodes ::
  "'v evaluation \<Rightarrow> nat set \<Rightarrow> (nat \<rightharpoonup> 'v) \<Rightarrow> (nat \<times> nat list) list \<Rightarrow> nat \<Rightarrow> ir_node list \<Rightarrow> 'v option list \<Rightarrow> 'v option list result" where
  "run_nodes ev skipped given table nid [] vals = Inr vals"
| "run_nodes ev skipped given table nid (nd # nds) vals =
     (if nid \<in> skipped then run_nodes ev skipped given table (Suc nid) nds (vals @ [given nid])
      else result_bind (traverse (slot vals) (nd_inputs nd)) (\<lambda>ins.
           result_bind (evaluate_node ev nid nd ins) (\<lambda>v.
             run_nodes ev skipped given table (Suc nid) nds (release (freed_by table nid) (vals @ [v])))))"

definition evaluate_ir ::
  "'v evaluation \<Rightarrow> ir_node list \<Rightarrow> nat list \<Rightarrow> nat list option \<Rightarrow> (nat \<times> 'v) list option \<Rightarrow> 'v option list result" where
  "evaluate_ir ev nodes marked outputs given =
     (let wanted = (case outputs of None \<Rightarrow> marked | Some os \<Rightarrow> os);
          known = (case given of None \<Rightarrow> [] | Some g \<Rightarrow> g);
          stop = set (map fst known)
      in result_bind (if outputs = None \<and> given = None then Inr {}
                      else result_bind (ir_cone nodes wanted stop) (\<lambda>cone. Inr (set [0..<length nodes] - cone \<union> stop))) (\<lambda>skipped.
         let table = last_consumers (map (\<lambda>(nid, nd). if nid \<in> skipped then [] else nd_inputs nd) (enumerate 0 nodes)) wanted
         in result_bind (run_nodes ev skipped (map_of known) table 0 nodes []) (\<lambda>vals. traverse (slot vals) wanted)))"

section \<open>Refusing chunk partials\<close>

datatype refused_outputs = AllOutputs | NoOutputs | TheseOutputs "nat list"

definition is_source :: "ir_node \<Rightarrow> bool" where
  "is_source nd = (node_kind (nd_body nd) = ''source'')"

fun keyed_join :: "node_body \<Rightarrow> bool" where
  "keyed_join (JoinNode params) = (map_of params ''how'' \<noteq> Some (JStr ''positional''))"
| "keyed_join _ = False"

fun chunk_partial_check :: "bool \<Rightarrow> nat set \<Rightarrow> nat set \<Rightarrow> nat \<Rightarrow> ir_node list \<Rightarrow> unit result" where
  "chunk_partial_check one_source consumed refused nid [] = Inr ()"
| "chunk_partial_check one_source consumed refused nid (nd # nds) =
     (if one_source \<and> keyed_join (nd_body nd)
      then Inl (GraphedError (''a partitioned run cannot join one source by key: each chunk sees only its own matches. '' @
             ''Read the other side as its own source, or use graphed.materialize''))
      else case nd_body nd of
        ReductionNode name _ \<Rightarrow>
          if nid \<in> consumed
          then Inl (GraphedError (py_repr name @ '' reduces the partitioned axis and feeds another node: a partitioned run '' @
             ''evaluates it per chunk, so what follows would see a per-chunk partial, not the dataset-wide value. '' @
             ''Make the reduction the plan's output and fold it in `combine`''))
          else if nid \<in> refused
          then Inl (GraphedError (py_repr name @ '' reduces the partitioned axis: a partitioned write has no combine step, '' @
             ''so each part would hold a per-chunk partial. Write a row-aligned array and reduce it afterwards, or peek with `graphed.awkward.head`''))
          else chunk_partial_check one_source consumed refused (Suc nid) nds
      | _ \<Rightarrow> chunk_partial_check one_source consumed refused (Suc nid) nds)"

definition refuse_chunk_partials :: "ir_node list \<Rightarrow> nat list \<Rightarrow> refused_outputs \<Rightarrow> unit result" where
  "refuse_chunk_partials nodes marked as_outputs =
     (let consumed = (\<Union>nd \<in> set nodes. set (nd_inputs nd));
          refused = (case as_outputs of AllOutputs \<Rightarrow> set marked | NoOutputs \<Rightarrow> {} | TheseOutputs os \<Rightarrow> set os)
      in chunk_partial_check (length (List.filter is_source nodes) < 2) consumed refused 0 nodes)"

section \<open>Released values are never read again\<close>

text \<open>The values an evaluation at consumer \<open>n\<close> can still read, or return.\<close>

definition live :: "nat list list \<Rightarrow> nat list \<Rightarrow> nat \<Rightarrow> nat set" where
  "live inputs keep n = set keep \<union> (\<Union>c \<in> {n..<length inputs}. set (inputs ! c))"

definition agree :: "nat set \<Rightarrow> 'a list \<Rightarrow> 'a list \<Rightarrow> bool" where
  "agree alive xs ys \<longleftrightarrow> length xs = length ys \<and> (\<forall>i < length xs. i \<in> alive \<longrightarrow> xs ! i = ys ! i)"

lemma agreeD: "agree alive xs ys \<Longrightarrow> length xs = length ys" "agree alive xs ys \<Longrightarrow> i < length xs \<Longrightarrow> i \<in> alive \<Longrightarrow> xs ! i = ys ! i"
  by (auto simp: agree_def)

lemma agree_mono: "agree alive xs ys \<Longrightarrow> alive' \<subseteq> alive \<Longrightarrow> agree alive' xs ys"
  by (auto simp: agree_def)

lemma agree_refl [simp]: "agree alive xs xs"
  by (simp add: agree_def)

lemma agree_snoc: "agree alive xs ys \<Longrightarrow> agree alive (xs @ [x]) (ys @ [x])"
  by (auto simp: agree_def nth_append)

lemma live_Suc: "live inputs keep (Suc n) \<subseteq> live inputs keep n"
  by (auto simp: live_def)

lemma live_nth: "n < length inputs \<Longrightarrow> set (inputs ! n) \<subseteq> live inputs keep n"
  by (auto simp: live_def)

lemma live_keep: "set keep \<subseteq> live inputs keep n"
  by (auto simp: live_def)

lemma length_release [simp]: "length (release freed vals) = length vals"
  by (induction freed arbitrary: vals) (simp_all add: release_def)

lemma nth_release: "i \<notin> set freed \<Longrightarrow> release freed vals ! i = vals ! i"
  by (induction freed arbitrary: vals) (auto simp: release_def)

lemma release_Nil [simp]: "release [] vals = vals"
  by (simp add: release_def)

lemma freed_by_Nil [simp]: "freed_by [] n = []"
  by (simp add: freed_by_def)

lemma map_of_reads:
  "map_of (foldl (\<lambda>d i. AList.update i c d) d used) = (\<lambda>i. if i \<in> set used then Some c else map_of d i)"
  by (induction used arbitrary: d) (auto simp: update_conv')

lemma distinct_reads: "distinct (map fst d) \<Longrightarrow> distinct (map fst (foldl (\<lambda>d i. AList.update i c d) d used))"
  by (induction used arbitrary: d) (auto simp: distinct_update)

lemma last_reads_snoc:
  "last_reads (xs @ [x]) = foldl (\<lambda>d i. AList.update i (length xs) d) (last_reads xs) x"
  by (simp add: last_reads_def enumerate_append_eq)

lemma distinct_last_reads: "distinct (map fst (last_reads inputs))"
  by (induction inputs rule: rev_induct) (simp_all add: last_reads_snoc distinct_reads, simp add: last_reads_def)

lemma last_reads_latest:
  "map_of (last_reads inputs) i = Some c \<Longrightarrow> c' < length inputs \<Longrightarrow> i \<in> set (inputs ! c') \<Longrightarrow> c' \<le> c"
proof (induction inputs arbitrary: c c' rule: rev_induct)
  case (snoc x xs)
  show ?case
  proof (cases "i \<in> set x")
    case True
    with snoc.prems show ?thesis by (simp add: last_reads_snoc map_of_reads less_Suc_eq_le)
  next
    case False
    with snoc.prems(2,3) have "c' < length xs" by (auto simp: nth_append less_Suc_eq split: if_splits)
    with False snoc show ?thesis by (simp add: last_reads_snoc map_of_reads nth_append)
  qed
qed (simp add: last_reads_def)

lemma freed_by_default:
  "freed_by (AList.map_default c [i] (\<lambda>freed. freed @ [i]) out) n = (if n = c then freed_by out c @ [i] else freed_by out n)"
  by (simp add: freed_by_def map_of_map_default split: option.split)

lemma freed_by_foldl:
  "i \<in> set (freed_by (foldl (\<lambda>out (i, consumer). if i \<in> set keep then out
            else AList.map_default consumer [i] (\<lambda>freed. freed @ [i]) out) out reads) n) \<Longrightarrow>
     i \<in> set (freed_by out n) \<or> (i, n) \<in> set reads \<and> i \<notin> set keep"
proof (induction reads arbitrary: out)
  case (Cons r reads)
  obtain j c where r: "r = (j, c)" by (cases r)
  let ?out = "if j \<in> set keep then out else AList.map_default c [j] (\<lambda>freed. freed @ [j]) out"
  from Cons.IH [of ?out] Cons.prems r have "i \<in> set (freed_by ?out n) \<or> (i, n) \<in> set reads \<and> i \<notin> set keep" by simp
  then show ?case by (auto simp: r freed_by_default split: if_splits)
qed simp

lemma freed_dead:
  assumes "i \<in> set (freed_by (last_consumers inputs keep) n)"
  shows "i \<notin> live inputs keep (Suc n)"
proof -
  from freed_by_foldl [of i keep "[]" "last_reads inputs" n] assms
  have r: "(i, n) \<in> set (last_reads inputs)" "i \<notin> set keep"
    by (auto simp: last_consumers_def)
  from r(1) have "map_of (last_reads inputs) i = Some n" by (simp add: distinct_last_reads)
  from last_reads_latest [OF this] have "c < length inputs \<Longrightarrow> i \<in> set (inputs ! c) \<Longrightarrow> c \<le> n" for c .
  with r(2) show ?thesis by (fastforce simp: live_def)
qed

lemma agree_release:
  "agree (live inputs keep n) vals vals' \<Longrightarrow>
     agree (live inputs keep (Suc n)) (release (freed_by (last_consumers inputs keep) n) vals) vals'"
proof -
  assume a: "agree (live inputs keep n) vals vals'"
  let ?freed = "freed_by (last_consumers inputs keep) n"
  have "release ?freed vals ! i = vals' ! i" if "i < length vals" "i \<in> live inputs keep (Suc n)" for i
  proof -
    from that(2) freed_dead have "i \<notin> set ?freed" by blast
    then show ?thesis using agreeD(2) [OF a that(1)] that(2) live_Suc by (auto simp: nth_release)
  qed
  then show ?thesis using agreeD(1) [OF a] by (simp add: agree_def)
qed

lemma slot_agree: "agree alive vals vals' \<Longrightarrow> i \<in> alive \<Longrightarrow> slot vals i = slot vals' i"
  by (auto simp: slot_def agree_def)

lemma traverse_cong [fundef_cong]: "xs = ys \<Longrightarrow> (\<And>x. x \<in> set ys \<Longrightarrow> f x = g x) \<Longrightarrow> traverse f xs = traverse g ys"
  by (induction ys arbitrary: xs) auto

lemma traverse_slot_agree:
  assumes "agree alive vals vals'" "set is \<subseteq> alive"
  shows "traverse (slot vals) is = traverse (slot vals') is"
  using assms by (intro traverse_cong) (auto intro: slot_agree)

definition same_run :: "nat set \<Rightarrow> 'v option list result \<Rightarrow> 'v option list result \<Rightarrow> bool" where
  "same_run alive r r' \<longleftrightarrow> (case (r, r') of (Inr vs, Inr vs') \<Rightarrow> agree alive vs vs' | (Inl e, Inl e') \<Rightarrow> e = e' | _ \<Rightarrow> False)"

lemma same_run_Inl [simp]: "same_run alive (Inl e) (Inl e)"
  by (simp add: same_run_def)

lemma member_readsI: "StageMember i \<in> set (sm_inputs m) \<Longrightarrow> i \<in> set (member_reads m)"
  by (force simp: member_reads_def List.map_filter_def)

lemma run_members_release:
  assumes "agree (live (map member_reads ms) keep index) vals vals'" "table = last_consumers (map member_reads ms) keep"
  shows "same_run (set keep) (run_members ev nid table ins index (drop index ms) vals) (run_members ev nid [] ins index (drop index ms) vals')"
  using assms(1)
proof (induction "drop index ms" arbitrary: index vals vals')
  case Nil
  then show ?case using agree_mono [OF Nil.prems live_keep] by (simp add: same_run_def Nil.hyps [symmetric])
next
  case (Cons m rest)
  then have i: "index < length ms" "ms ! index = m" "drop (Suc index) ms = rest"
    by (metis drop_eq_Nil leI list.distinct(1), metis nth_via_drop, metis drop_Suc list.sel(3) tl_drop)
  then have "set (member_reads m) \<subseteq> live (map member_reads ms) keep index"
    using live_nth [of index "map member_reads ms" keep] by simp
  then have ins: "member_ins ins vals m = member_ins ins vals' m"
    unfolding member_ins_def
    by (intro traverse_cong refl) (auto split: stage_ref.split dest: member_readsI intro: slot_agree [OF Cons.prems])
  show ?case
  proof (cases "member_ins ins vals' m")
    case (Inr mins)
    show ?thesis
    proof (cases "dispatch (ev_on_failure ev) (row_wise ev (sm_name m) mins (sm_params m)) (sm_name m) mins (nid, Some index)")
      case (Inr v)
      from Cons.hyps(1) [OF i(3) [symmetric], OF agree_release [OF agree_snoc [OF Cons.prems, of "Some v"]]] ins Inr \<open>member_ins ins vals' m = Inr mins\<close>
      show ?thesis by (simp add: Cons.hyps(2) [symmetric] i(3) assms(2))
    qed (simp add: Cons.hyps(2) [symmetric] ins Inr)
  qed (simp add: Cons.hyps(2) [symmetric] ins)
qed

definition plain_stage :: "'v evaluation \<Rightarrow> nat \<Rightarrow> stage_member list \<Rightarrow> 'v option list \<Rightarrow> 'v option result" where
  "plain_stage ev nid members ins =
     result_bind (run_members ev nid [] ins 0 members []) (\<lambda>mvals.
       if mvals = [] then Inl (IndexError ''list index out of range'') else Inr (last mvals))"

lemma length_run_members: "run_members ev nid table ins index ms vals = Inr vs \<Longrightarrow> length vs = length vals + length ms"
proof (induction ms arbitrary: index vals)
  case (Cons m ms)
  then show ?case by (force simp: result_bind_Inr_iff)
qed simp

lemma evaluate_stage_plain: "evaluate_stage ev nid members ins = plain_stage ev nid members ins"
proof -
  let ?keep = "[length members - 1]"
  let ?a = "run_members ev nid (last_consumers (map member_reads members) ?keep) ins 0 members []"
    and ?b = "run_members ev nid [] ins 0 members []"
  have s: "same_run (set ?keep) ?a ?b"
    using run_members_release [where index = 0 and ms = members and keep = "?keep" and vals = "[]" and vals' = "[]" and ins = ins and nid = nid and ev = ev, OF agree_refl refl]
    by (simp only: drop_0)
  show ?thesis
  proof (cases ?a)
    case (Inl e)
    with s show ?thesis by (cases ?b) (simp_all add: same_run_def evaluate_stage_def plain_stage_def)
  next
    case (Inr vs)
    then obtain vs' where vs': "?b = Inr vs'" "agree (set ?keep) vs vs'"
      using s by (cases ?b) (simp_all add: same_run_def)
    have l: "length vs = length members" using length_run_members [OF Inr] by simp
    have e: "vs = [] \<longleftrightarrow> vs' = []" using agreeD(1) [OF vs'(2)] by auto
    have "last vs = last vs'" if "vs \<noteq> []"
    proof -
      from that have "vs ! (length vs - 1) = vs' ! (length vs - 1)" by (intro agreeD(2) [OF vs'(2)]) (simp, simp add: l)
      then show ?thesis using that e agreeD(1) [OF vs'(2)] by (simp add: last_conv_nth)
    qed
    moreover note e
    ultimately show ?thesis unfolding evaluate_stage_def plain_stage_def Inr vs'(1) by auto
  qed
qed

text \<open>The reads of the nodes that are evaluated, as \<open>evaluate_ir\<close> gives them to the release table.\<close>

definition node_reads :: "nat set \<Rightarrow> ir_node list \<Rightarrow> nat list list" where
  "node_reads skipped nodes = map (\<lambda>(nid, nd). if nid \<in> skipped then [] else nd_inputs nd) (enumerate 0 nodes)"

lemma length_node_reads [simp]: "length (node_reads skipped nodes) = length nodes"
  by (simp add: node_reads_def)

lemma nth_node_reads: "n < length nodes \<Longrightarrow> n \<notin> skipped \<Longrightarrow> node_reads skipped nodes ! n = nd_inputs (nodes ! n)"
  by (simp add: node_reads_def nth_enumerate_eq)

lemma run_nodes_release:
  assumes "agree (live (node_reads skipped nodes) keep n) vals vals'" "table = last_consumers (node_reads skipped nodes) keep"
  shows "same_run (set keep) (run_nodes ev skipped known table n (drop n nodes) vals) (run_nodes ev skipped known [] n (drop n nodes) vals')"
  using assms(1)
proof (induction "drop n nodes" arbitrary: n vals vals')
  case Nil
  then show ?case using agree_mono [OF Nil.prems live_keep] by (simp add: same_run_def Nil.hyps [symmetric])
next
  case (Cons nd rest)
  then have i: "n < length nodes" "nodes ! n = nd" "drop (Suc n) nodes = rest"
    by (metis drop_eq_Nil leI list.distinct(1), metis nth_via_drop, metis drop_Suc list.sel(3) tl_drop)
  note step = Cons.hyps(1) [OF i(3) [symmetric]]
  show ?case
  proof (cases "n \<in> skipped")
    case True
    from step [OF agree_mono [OF agree_snoc [OF Cons.prems] live_Suc]] True
    show ?thesis by (simp add: Cons.hyps(2) [symmetric] i(3))
  next
    case False
    then have "set (nd_inputs nd) \<subseteq> live (node_reads skipped nodes) keep n"
      using live_nth [of n "node_reads skipped nodes" keep] i(1,2) by (simp add: nth_node_reads)
    then have ins: "traverse (slot vals) (nd_inputs nd) = traverse (slot vals') (nd_inputs nd)"
      by (rule traverse_slot_agree [OF Cons.prems])
    show ?thesis
    proof (cases "traverse (slot vals') (nd_inputs nd)")
      case (Inr xs)
      show ?thesis
      proof (cases "evaluate_node ev n nd xs")
        case (Inr v)
        from step [OF agree_release [OF agree_snoc [OF Cons.prems, of v]]] False ins Inr \<open>traverse (slot vals') (nd_inputs nd) = Inr xs\<close>
        show ?thesis by (simp add: Cons.hyps(2) [symmetric] i(3) assms(2))
      qed (simp add: Cons.hyps(2) [symmetric] ins Inr False)
    qed (simp add: Cons.hyps(2) [symmetric] ins False)
  qed
qed

section \<open>The reference\<close>

definition plain_node :: "'v evaluation \<Rightarrow> nat \<Rightarrow> ir_node \<Rightarrow> 'v option list \<Rightarrow> 'v option result" where
  "plain_node ev nid nd ins =
     (case nd_body nd of StageNode members \<Rightarrow> plain_stage ev nid members ins | _ \<Rightarrow> evaluate_node ev nid nd ins)"

lemma evaluate_node_plain: "evaluate_node ev nid nd ins = plain_node ev nid nd ins"
  by (cases "nd_body nd") (simp_all add: plain_node_def evaluate_node_def evaluate_stage_plain)

text \<open>The value of a node: a known one, else the node applied to the values of its inputs.\<close>

function node_value :: "'v evaluation \<Rightarrow> ir_node list \<Rightarrow> (nat \<rightharpoonup> 'v) \<Rightarrow> nat \<Rightarrow> 'v option result" where
  "node_value ev nodes known nid =
     (case known nid of
        Some v \<Rightarrow> Inr (Some v)
      | None \<Rightarrow>
          if nid < length nodes \<and> (\<forall>i \<in> set (nd_inputs (nodes ! nid)). i < nid)
          then result_bind (traverse (node_value ev nodes known) (nd_inputs (nodes ! nid))) (plain_node ev nid (nodes ! nid))
          else Inl (IndexError ''list index out of range''))"
  by pat_completeness auto

termination by (relation "measure (\<lambda>(ev, nodes, known, nid). nid)") auto

declare node_value.simps [simp del]

text \<open>The compiled store lists a node after its inputs.\<close>

definition ordered :: "ir_node list \<Rightarrow> bool" where
  "ordered nodes \<longleftrightarrow> (\<forall>n < length nodes. \<forall>i \<in> set (nd_inputs (nodes ! n)). i < n)"

lemma node_value_known: "known n = Some v \<Longrightarrow> node_value ev nodes known n = Inr (Some v)"
  by (simp add: node_value.simps)

lemma node_value_step:
  "ordered nodes \<Longrightarrow> n < length nodes \<Longrightarrow> known n = None \<Longrightarrow>
     node_value ev nodes known n = result_bind (traverse (node_value ev nodes known) (nd_inputs (nodes ! n))) (plain_node ev n (nodes ! n))"
  by (simp add: node_value.simps [of ev nodes known n] ordered_def)

text \<open>The nodes an evaluation reaches from its roots, not looking behind the nodes in \<open>stop\<close>.\<close>

inductive in_cone :: "ir_node list \<Rightarrow> nat set \<Rightarrow> nat set \<Rightarrow> nat \<Rightarrow> bool" for nodes stop roots where
  root: "n \<in> roots \<Longrightarrow> in_cone nodes stop roots n"
| step: "in_cone nodes stop roots n \<Longrightarrow> n \<notin> stop \<Longrightarrow> n < length nodes \<Longrightarrow> i \<in> set (nd_inputs (nodes ! n)) \<Longrightarrow> in_cone nodes stop roots i"

inductive_cases in_coneE: "in_cone nodes stop roots n"

lemma in_cone_mono: "in_cone nodes stop roots n \<Longrightarrow> roots \<subseteq> roots' \<Longrightarrow> stop' \<subseteq> stop \<Longrightarrow> in_cone nodes stop' roots' n"
  by (induction rule: in_cone.induct) (auto intro: in_cone.intros)

lemma in_cone_ordered:
  "in_cone nodes stop roots n \<Longrightarrow> ordered nodes \<Longrightarrow> (\<And>r. r \<in> roots \<Longrightarrow> r < length nodes) \<Longrightarrow> n < length nodes"
  by (induction rule: in_cone.induct) (auto simp: ordered_def dest!: spec intro: less_trans)

definition closed_walk :: "ir_node list \<Rightarrow> nat set \<Rightarrow> nat list \<Rightarrow> nat set \<Rightarrow> bool" where
  "closed_walk nodes stop todo seen \<longleftrightarrow>
     (\<forall>n \<in> seen. n \<notin> stop \<longrightarrow> n < length nodes \<longrightarrow> set (nd_inputs (nodes ! n)) \<subseteq> seen \<union> set todo)"

lemma cone_walk_spec:
  assumes "ordered nodes" "\<forall>n \<in> set todo. n < length nodes" "closed_walk nodes stop todo seen"
  shows "\<exists>cone. cone_walk nodes stop todo seen = Inr cone \<and> seen \<union> set todo \<subseteq> cone \<and> closed_walk nodes stop [] cone
    \<and> (\<forall>n \<in> cone. n \<in> seen \<or> in_cone nodes stop (set todo) n)"
  using assms
proof (induction nodes stop todo seen rule: cone_walk.induct)
  case (1 nodes stop seen)
  then show ?case by auto
next
  case (2 nodes stop nid todo seen)
  from "2.prems" have r: "nid < length nodes" "\<forall>n \<in> set todo. n < length nodes" by auto
  consider (seen) "nid \<in> seen" | (stop) "nid \<notin> seen" "nid \<in> stop" | (new) "nid \<notin> seen" "nid \<notin> stop" by blast
  then show ?case
  proof cases
    case seen
    have "closed_walk nodes stop todo seen" using "2.prems"(3) seen unfolding closed_walk_def by auto
    from "2.IH"(1) [OF seen "2.prems"(1) r(2) this] obtain cone where
      c: "cone_walk nodes stop todo seen = Inr cone" "seen \<union> set todo \<subseteq> cone" "closed_walk nodes stop [] cone"
         "\<forall>n \<in> cone. n \<in> seen \<or> in_cone nodes stop (set todo) n" by blast
    have "\<forall>n \<in> cone. n \<in> seen \<or> in_cone nodes stop (set (nid # todo)) n"
      using c(4) in_cone_mono [of nodes stop "set todo" _ "set (nid # todo)" stop] by auto
    with c seen show ?thesis by auto
  next
    case stop
    have "closed_walk nodes stop todo (insert nid seen)" using "2.prems"(3) stop unfolding closed_walk_def by auto
    from "2.IH"(2) [OF stop "2.prems"(1) r(2) this] obtain cone where
      c: "cone_walk nodes stop todo (insert nid seen) = Inr cone" "insert nid seen \<union> set todo \<subseteq> cone" "closed_walk nodes stop [] cone"
         "\<forall>n \<in> cone. n \<in> insert nid seen \<or> in_cone nodes stop (set todo) n" by blast
    have "\<forall>n \<in> cone. n \<in> seen \<or> in_cone nodes stop (set (nid # todo)) n"
      using c(4) in_cone_mono [of nodes stop "set todo" _ "set (nid # todo)" stop] by (auto intro: in_cone.root)
    with c stop show ?thesis by auto
  next
    case new
    let ?ins = "nd_inputs (nodes ! nid)"
    have cl: "closed_walk nodes stop (rev ?ins @ todo) (insert nid seen)"
      using "2.prems"(3) new unfolding closed_walk_def by auto
    have inr: "\<forall>n \<in> set (rev ?ins @ todo). n < length nodes"
      using "2.prems"(1) r by (auto simp: ordered_def dest!: spec [of _ nid] intro: less_trans)
    from "2.IH"(3) [OF new r(1) "2.prems"(1) inr cl] obtain cone where
      c: "cone_walk nodes stop (rev ?ins @ todo) (insert nid seen) = Inr cone" "insert nid seen \<union> set (rev ?ins @ todo) \<subseteq> cone"
         "closed_walk nodes stop [] cone" "\<forall>n \<in> cone. n \<in> insert nid seen \<or> in_cone nodes stop (set (rev ?ins @ todo)) n" by blast
    have sub: "in_cone nodes stop (set (nid # todo)) n" if "in_cone nodes stop (set (rev ?ins @ todo)) n" for n
      using that
    proof induction
      case (root n)
      then show ?case using in_cone.step [OF in_cone.root new(2) r(1), of "set (nid # todo)"] in_cone.root by auto
    qed (rule in_cone.step)
    then have "\<forall>n \<in> cone. n \<in> seen \<or> in_cone nodes stop (set (nid # todo)) n"
      using c(4) by (auto intro: in_cone.root)
    with c new r(1) show ?thesis by auto
  qed
qed

lemma ir_cone_eq:
  assumes "ordered nodes" "\<forall>n \<in> set roots. n < length nodes"
  shows "ir_cone nodes roots stop = Inr {n. in_cone nodes stop (set roots) n}"
proof -
  have "closed_walk nodes stop (rev roots) {}" by (simp add: closed_walk_def)
  from cone_walk_spec [OF assms(1) _ this] assms(2) obtain cone where
    c: "cone_walk nodes stop (rev roots) {} = Inr cone" "set roots \<subseteq> cone" "closed_walk nodes stop [] cone"
       "\<forall>n \<in> cone. in_cone nodes stop (set roots) n" by auto
  have "n \<in> cone" if "in_cone nodes stop (set roots) n" for n
    using that by induction (use c(2,3) in \<open>auto simp: closed_walk_def\<close>)
  with c(4) have "cone = {n. in_cone nodes stop (set roots) n}" by auto
  with c(1) show ?thesis by (simp add: ir_cone_def)
qed

section \<open>The evaluator meets the reference\<close>

definition computed :: "'v evaluation \<Rightarrow> ir_node list \<Rightarrow> (nat \<rightharpoonup> 'v) \<Rightarrow> nat set \<Rightarrow> 'v option list \<Rightarrow> bool" where
  "computed ev nodes known skipped vals \<longleftrightarrow>
     (\<forall>i < length vals. i \<notin> skipped \<or> i \<in> dom known \<longrightarrow> node_value ev nodes known i = Inr (vals ! i))"

lemma computedD: "computed ev nodes known skipped vals \<Longrightarrow> i < length vals \<Longrightarrow> i \<notin> skipped \<or> i \<in> dom known \<Longrightarrow>
    node_value ev nodes known i = Inr (vals ! i)"
  by (auto simp: computed_def)

lemma computed_snoc:
  "computed ev nodes known skipped vals \<Longrightarrow>
     (length vals \<notin> skipped \<or> length vals \<in> dom known \<Longrightarrow> node_value ev nodes known (length vals) = Inr v) \<Longrightarrow>
     computed ev nodes known skipped (vals @ [v])"
  by (auto simp: computed_def nth_append less_Suc_eq)

definition first_failure :: "'v evaluation \<Rightarrow> ir_node list \<Rightarrow> (nat \<rightharpoonup> 'v) \<Rightarrow> (nat \<Rightarrow> bool) \<Rightarrow> exn \<Rightarrow> bool" where
  "first_failure ev nodes known needed e \<longleftrightarrow>
     (\<exists>n. needed n \<and> node_value ev nodes known n = Inl e \<and> (\<forall>m < n. needed m \<longrightarrow> \<not> isl (node_value ev nodes known m)))"

text \<open>What is evaluated reads only what is evaluated or known, and the known nodes are skipped.\<close>

definition skips :: "ir_node list \<Rightarrow> (nat \<rightharpoonup> 'v) \<Rightarrow> nat set \<Rightarrow> bool" where
  "skips nodes known skipped \<longleftrightarrow> dom known \<subseteq> skipped \<and>
     (\<forall>n < length nodes. n \<notin> skipped \<longrightarrow> (\<forall>i \<in> set (nd_inputs (nodes ! n)). i \<notin> skipped \<or> i \<in> dom known))"

lemma run_nodes_plain:
  assumes "ordered nodes" "skips nodes known skipped" "n = length vals" "n \<le> length nodes" "computed ev nodes known skipped vals"
  shows "case run_nodes ev skipped known [] n (drop n nodes) vals of
      Inr vs \<Rightarrow> length vs = length nodes \<and> computed ev nodes known skipped vs
    | Inl e \<Rightarrow> first_failure ev nodes known (\<lambda>m. m < length nodes \<and> m \<notin> skipped) e"
  using assms(3-5)
proof (induction "drop n nodes" arbitrary: n vals)
  case Nil
  then show ?case by (simp add: Nil.hyps [symmetric])
next
  case (Cons nd rest)
  then have i: "n < length nodes" "nodes ! n = nd" "drop (Suc n) nodes = rest"
    by (metis drop_eq_Nil leI list.distinct(1), metis nth_via_drop, metis drop_Suc list.sel(3) tl_drop)
  note run = Cons.hyps(2) [symmetric] i(3)
  note step = Cons.hyps(1) [OF i(3) [symmetric]]
  show ?case
  proof (cases "n \<in> skipped")
    case True
    have "computed ev nodes known skipped (vals @ [known n])"
      using True Cons.prems by (intro computed_snoc) (auto simp: node_value_known)
    from step [OF _ _ this] True i(1) Cons.prems(1) [symmetric] show ?thesis by (simp add: run)
  next
    case False
    then have k: "known n = None" using assms(2) by (auto simp: skips_def)
    have ins: "i < length vals \<and> node_value ev nodes known i = Inr (vals ! i)" if "i \<in> set (nd_inputs nd)" for i
      using that assms(1,2) i(1,2) False Cons.prems(1) computedD [OF Cons.prems(3)]
      by (simp add: ordered_def skips_def)
    then have t: "traverse (slot vals) (nd_inputs nd) = Inr (map (nth vals) (nd_inputs nd))"
      "traverse (node_value ev nodes known) (nd_inputs nd) = Inr (map (nth vals) (nd_inputs nd))"
      by (auto simp: slot_def intro!: traverse_Inr_map)
    have v: "node_value ev nodes known n = evaluate_node ev n nd (map (nth vals) (nd_inputs nd))"
      unfolding node_value_step [OF assms(1) i(1), of known, OF k] by (simp add: i(2) t(2) evaluate_node_plain)
    show ?thesis
    proof (cases "evaluate_node ev n nd (map (nth vals) (nd_inputs nd))")
      case (Inr w)
      have "computed ev nodes known skipped (vals @ [w])"
        using Cons.prems(1,3) v Inr by (intro computed_snoc) simp_all
      from step [OF _ _ this] i(1) Cons.prems(1) [symmetric] Inr False t(1) show ?thesis by (simp add: run)
    next
      case (Inl e)
      have "\<not> isl (node_value ev nodes known m)" if "m < n" "m \<notin> skipped" for m
        using computedD [OF Cons.prems(3)] that Cons.prems(1) by simp
      then have "first_failure ev nodes known (\<lambda>m. m < length nodes \<and> m \<notin> skipped) e"
        using i(1) False v Inl by (auto simp: first_failure_def intro!: exI [of _ n])
      then show ?thesis by (simp add: run False t(1) Inl)
    qed
  qed
qed

text \<open>The outputs and the known values of a call, and the nodes it evaluates.\<close>

definition the_outputs :: "nat list \<Rightarrow> nat list option \<Rightarrow> nat list" where
  "the_outputs marked outputs = (case outputs of None \<Rightarrow> marked | Some os \<Rightarrow> os)"

definition the_known :: "(nat \<times> 'v) list option \<Rightarrow> nat \<rightharpoonup> 'v" where
  "the_known given = (case given of None \<Rightarrow> Map.empty | Some g \<Rightarrow> map_of g)"

lemma the_known_simps [simp]: "the_known None = Map.empty" "the_known (Some g) = map_of g"
  by (simp_all add: the_known_def)

lemma the_outputs_simps [simp]: "the_outputs marked None = marked" "the_outputs marked (Some os) = os"
  by (simp_all add: the_outputs_def)

definition needed :: "ir_node list \<Rightarrow> nat list \<Rightarrow> nat list option \<Rightarrow> (nat \<times> 'v) list option \<Rightarrow> nat \<Rightarrow> bool" where
  "needed nodes marked outputs given n \<longleftrightarrow> n < length nodes \<and>
     (outputs = None \<and> given = None \<or> in_cone nodes (dom (the_known given)) (set (the_outputs marked outputs)) n)"

lemma evaluate_ir_cases:
  assumes "ordered nodes" "\<forall>n \<in> set (the_outputs marked outputs). n < length nodes"
  shows "case evaluate_ir ev nodes marked outputs given of
      Inr vs \<Rightarrow> (\<forall>n. needed nodes marked outputs given n \<longrightarrow> \<not> isl (node_value ev nodes (the_known given) n)) \<and>
        traverse (node_value ev nodes (the_known given)) (the_outputs marked outputs) = Inr vs
    | Inl e \<Rightarrow> first_failure ev nodes (the_known given) (needed nodes marked outputs given) e"
proof -
  let ?wanted = "the_outputs marked outputs" and ?known = "the_known given" and ?need = "needed nodes marked outputs given"
  define skipped where "skipped = (if outputs = None \<and> given = None then {}
     else {..<length nodes} - {n. in_cone nodes (dom ?known) (set ?wanted) n} \<union> dom ?known)"
  let ?run = "run_nodes ev skipped ?known (last_consumers (node_reads skipped nodes) ?wanted) 0 nodes []"
  have ev: "evaluate_ir ev nodes marked outputs given = result_bind ?run (\<lambda>vals. traverse (slot vals) ?wanted)"
  proof -
    have "evaluate_ir ev nodes marked outputs given =
      result_bind (if outputs = None \<and> given = None then Inr {}
                   else result_bind (ir_cone nodes ?wanted (dom ?known)) (\<lambda>cone. Inr ({..<length nodes} - cone \<union> dom ?known))) (\<lambda>skipped.
        result_bind (run_nodes ev skipped ?known (last_consumers (node_reads skipped nodes) ?wanted) 0 nodes []) (\<lambda>vals. traverse (slot vals) ?wanted))"
      unfolding evaluate_ir_def the_outputs_def node_reads_def Let_def
      by (cases given) (simp_all add: atLeast_upt [symmetric] dom_map_of_conv_image_fst lessThan_atLeast0 del: atLeast_upt)
    then show ?thesis by (simp add: skipped_def ir_cone_eq [OF assms])
  qed
  have sk: "n \<notin> skipped \<or> n \<in> dom ?known \<longleftrightarrow> ?need n \<or> n \<in> dom ?known" if "n < length nodes" for n
    using that by (auto simp: skipped_def needed_def)
  have sk': "?need n \<Longrightarrow> n \<notin> dom ?known \<Longrightarrow> n \<notin> skipped" for n
    by (auto simp: skipped_def needed_def)
  have "skips nodes ?known skipped"
    unfolding skips_def
  proof (intro conjI allI impI ballI)
    show "dom ?known \<subseteq> skipped" by (auto simp: skipped_def)
    fix n i
    assume n: "n < length nodes" "n \<notin> skipped" "i \<in> set (nd_inputs (nodes ! n))"
    then have il: "i < length nodes" using assms(1) less_trans by (fastforce simp: ordered_def)
    show "i \<notin> skipped \<or> i \<in> dom ?known"
    proof (cases "outputs = None \<and> given = None")
      case False
      with n have "in_cone nodes (dom ?known) (set ?wanted) n" "n \<notin> dom ?known" by (auto simp: skipped_def)
      from in_cone.step [OF this n(1,3)] il show ?thesis by (auto simp: skipped_def)
    qed (simp add: skipped_def)
  qed
  from run_nodes_plain [OF assms(1) this, of 0 "[]" ev]
  have plain: "case run_nodes ev skipped ?known [] 0 nodes [] of
      Inr vs \<Rightarrow> length vs = length nodes \<and> computed ev nodes ?known skipped vs
    | Inl e \<Rightarrow> first_failure ev nodes ?known (\<lambda>m. m < length nodes \<and> m \<notin> skipped) e"
    by (simp add: computed_def)
  have same: "same_run (set ?wanted) ?run (run_nodes ev skipped ?known [] 0 nodes [])"
    using run_nodes_release [where n = 0 and nodes = nodes and skipped = skipped and keep = "?wanted" and vals = "[]" and vals' = "[]"
        and ev = ev and known = "?known", OF agree_refl refl] by (simp only: drop_0)
  show ?thesis
  proof (cases "run_nodes ev skipped ?known [] 0 nodes []")
    case (Inl e)
    with same have r: "?run = Inl e" by (cases ?run) (simp_all add: same_run_def)
    from plain Inl obtain n where n: "n < length nodes" "n \<notin> skipped" "node_value ev nodes ?known n = Inl e"
        "\<forall>m < n. m < length nodes \<and> m \<notin> skipped \<longrightarrow> \<not> isl (node_value ev nodes ?known m)"
      by (auto simp: first_failure_def)
    from sk [OF n(1)] n(2,3) have "?need n" by (auto simp: node_value_known)
    moreover have "\<not> isl (node_value ev nodes ?known m)" if "m < n" "?need m" for m
      using that n(1,4) sk' [of m] by (cases "m \<in> dom ?known") (auto simp: node_value_known)
    ultimately have "first_failure ev nodes ?known ?need e" using n(3) by (auto simp: first_failure_def)
    then show ?thesis by (simp add: ev r)
  next
    case (Inr vs')
    with same obtain vs where vs: "?run = Inr vs" "agree (set ?wanted) vs vs'" by (cases ?run) (simp_all add: same_run_def)
    from plain Inr have c: "length vs' = length nodes" "computed ev nodes ?known skipped vs'" by auto
    have ok: "node_value ev nodes ?known n = Inr (vs' ! n)" if "?need n" for n
      using that computedD [OF c(2), of n] c(1) sk [of n] by (auto simp: needed_def)
    have w: "?need n \<and> slot vs n = Inr (vs' ! n)" if "n \<in> set ?wanted" for n
      using that assms(2) vs(2) c(1) by (auto simp: needed_def slot_def agree_def intro: in_cone.root)
    have "traverse (slot vs) ?wanted = Inr (map (nth vs') ?wanted)" "traverse (node_value ev nodes ?known) ?wanted = Inr (map (nth vs') ?wanted)"
      using w ok by (auto intro!: traverse_Inr_map)
    then show ?thesis using ok by (auto simp: ev vs(1))
  qed
qed

lemma first_failure_unique:
  "first_failure ev nodes known need e1 \<Longrightarrow> first_failure ev nodes known need e2 \<Longrightarrow> e1 = e2"
  unfolding first_failure_def by (metis isl_def linorder_neqE_nat sum.inject(1))

lemma first_failure_fails: "first_failure ev nodes known need e \<Longrightarrow> \<exists>n. need n \<and> isl (node_value ev nodes known n)"
  by (auto simp: first_failure_def)

lemma evaluate_ir_raises:
  assumes "ordered nodes" "\<forall>n \<in> set (the_outputs marked outputs). n < length nodes"
    and "first_failure ev nodes (the_known given) (needed nodes marked outputs given) e"
  shows "evaluate_ir ev nodes marked outputs given = Inl e"
proof (cases "evaluate_ir ev nodes marked outputs given")
  case (Inl e')
  with evaluate_ir_cases [OF assms(1,2), of ev given] have "first_failure ev nodes (the_known given) (needed nodes marked outputs given) e'"
    by simp
  from first_failure_unique [OF this assms(3)] Inl show ?thesis by simp
next
  case (Inr vs)
  with evaluate_ir_cases [OF assms(1,2), of ev given] first_failure_fails [OF assms(3)] show ?thesis by auto
qed

text \<open>
  C28. The evaluator, with its value list, its skipped nodes and its released values, computes the reference:
  it returns the reference values of its outputs when no node it evaluates fails, and else raises what the
  first of them to fail raises.
\<close>
theorem evaluate_ir_spec:
  assumes "ordered nodes" "\<forall>n \<in> set (the_outputs marked outputs). n < length nodes"
  shows "let f = node_value ev nodes (the_known given); ran = needed nodes marked outputs given in
    (evaluate_ir ev nodes marked outputs given = Inr vs \<longleftrightarrow>
       (\<forall>n. ran n \<longrightarrow> \<not> isl (f n)) \<and> traverse f (the_outputs marked outputs) = Inr vs) \<and>
    (evaluate_ir ev nodes marked outputs given = Inl e \<longleftrightarrow>
       (\<exists>n. ran n \<and> f n = Inl e \<and> (\<forall>m < n. ran m \<longrightarrow> \<not> isl (f m))))"
  using evaluate_ir_cases [OF assms, of ev given] evaluate_ir_raises [OF assms, of ev given e]
  unfolding Let_def first_failure_def [symmetric]
  by (cases "evaluate_ir ev nodes marked outputs given") (auto dest: first_failure_fails)

lemma traverse_Inr_iff: "traverse f xs = Inr ys \<longleftrightarrow> list_all2 (\<lambda>x y. f x = Inr y) xs ys"
  by (induction xs arbitrary: ys) (auto simp: result_bind_Inr_iff list_all2_Cons1)

lemma node_value_inputs:
  assumes "ordered nodes" "node_value ev nodes known n = Inr v" "known n = None" "n < length nodes" "i \<in> set (nd_inputs (nodes ! n))"
  shows "\<exists>w. node_value ev nodes known i = Inr w"
proof -
  from assms(2) node_value_step [OF assms(1,4), of known ev, OF assms(3)] obtain ws where
    "traverse (node_value ev nodes known) (nd_inputs (nodes ! n)) = Inr ws" by (auto simp: result_bind_Inr_iff)
  with assms(5) show ?thesis by (force simp: traverse_Inr_iff list_all2_conv_all_nth in_set_conv_nth)
qed

lemma in_cone_value:
  assumes "in_cone nodes (dom known) roots n" "ordered nodes" "\<And>r. r \<in> roots \<Longrightarrow> \<exists>v. node_value ev nodes known r = Inr v"
  shows "\<exists>v. node_value ev nodes known n = Inr v"
  using assms(1)
proof induction
  case (step n i)
  then show ?case using node_value_inputs [OF assms(2)] by blast
qed (rule assms(3))

lemma evaluate_outputs:
  assumes "ordered nodes" "\<forall>n \<in> set wanted. n < length nodes"
  shows "evaluate_ir ev nodes marked (Some wanted) given = Inr vs \<longleftrightarrow> traverse (node_value ev nodes (the_known given)) wanted = Inr vs"
    (is "?L \<longleftrightarrow> ?R")
proof -
  have c: "case evaluate_ir ev nodes marked (Some wanted) given of
      Inr vs \<Rightarrow> (\<forall>n. needed nodes marked (Some wanted) given n \<longrightarrow> \<not> isl (node_value ev nodes (the_known given) n)) \<and>
        traverse (node_value ev nodes (the_known given)) wanted = Inr vs
    | Inl e \<Rightarrow> first_failure ev nodes (the_known given) (needed nodes marked (Some wanted) given) e"
    using evaluate_ir_cases [OF assms(1), of marked "Some wanted" ev given] assms(2) unfolding the_outputs_simps by blast
  show ?thesis
  proof (cases "evaluate_ir ev nodes marked (Some wanted) given")
    case (Inr ws)
    with c show ?thesis by auto
  next
    case (Inl e)
    with c obtain n where n: "needed nodes marked (Some wanted) given n" "node_value ev nodes (the_known given) n = Inl e"
      by (auto simp: first_failure_def)
    have "\<not> ?R"
    proof
      assume ?R
      then have "\<exists>v. node_value ev nodes (the_known given) r = Inr v" if "r \<in> set wanted" for r
        using that by (force simp: traverse_Inr_iff list_all2_conv_all_nth in_set_conv_nth)
      from in_cone_value [OF _ assms(1) this, where n = n] n show False by (auto simp: needed_def)
    qed
    with Inl show ?thesis by simp
  qed
qed

section \<open>Evaluating a graph in two parts\<close>

text \<open>Two evaluations that agree on a node: the attribution of failures may differ.\<close>

definition alike :: "'v evaluation \<Rightarrow> 'v evaluation \<Rightarrow> ir_node \<Rightarrow> bool" where
  "alike ev ev' nd \<longleftrightarrow> ev_backend ev' = ev_backend ev \<and> ev_chunked ev' = ev_chunked ev \<and>
     (case nd_body nd of
        SourceNode name \<Rightarrow> ev_sources ev' name = ev_sources ev name
      | ExternalNode chash kind params \<Rightarrow> find_external ev' chash params = find_external ev chash params
      | _ \<Rightarrow> True)"

lemma dispatch_Inr [simp]: "dispatch hook r name ins key = Inr v \<longleftrightarrow> r = Inr v"
  by (auto simp: dispatch_def split: sum.split option.split)

lemma run_members_alike:
  assumes "ev_backend ev' = ev_backend ev" "ev_chunked ev' = ev_chunked ev"
  shows "run_members ev' nid table ins index ms vals = Inr vs \<longleftrightarrow> run_members ev nid table ins index ms vals = Inr vs"
proof (induction ms arbitrary: index vals)
  case (Cons m ms)
  have "row_wise ev' = row_wise ev" using assms by (simp add: row_wise_def)
  with Cons show ?case by (simp add: result_bind_Inr_iff)
qed simp

lemma plain_node_alike:
  assumes "alike ev ev' nd"
  shows "plain_node ev' n nd ins = Inr v \<longleftrightarrow> plain_node ev n nd ins = Inr v"
proof -
  have r: "row_wise ev' = row_wise ev" "ev_backend ev' = ev_backend ev" using assms by (simp_all add: row_wise_def alike_def)
  show ?thesis
  proof (cases "nd_body nd")
    case (StageNode ms)
    then show ?thesis using assms run_members_alike [of ev' ev n "[]" ins 0 ms "[]"]
      by (auto simp: plain_node_def plain_stage_def alike_def result_bind_Inr_iff)
  next
    case (ExternalNode chash kind params)
    then show ?thesis using assms
      by (simp add: plain_node_def evaluate_node_def evaluate_external_def alike_def result_bind_Inr_iff split: option.split)
  qed (use assms r in \<open>simp_all add: plain_node_def evaluate_node_def alike_def result_bind_Inr_iff\<close>)
qed

lemma node_value_cut:
  assumes "ordered nodes" "in_cone nodes (dom known) roots n" "\<forall>r \<in> roots. r < length nodes"
    and "\<And>m v. known m = Some v \<Longrightarrow> node_value ev nodes Map.empty m = Inr (Some v)"
    and "\<And>m. in_cone nodes (dom known) roots m \<Longrightarrow> m \<notin> dom known \<Longrightarrow> alike ev ev' (nodes ! m)"
  shows "node_value ev' nodes known n = Inr w \<longleftrightarrow> node_value ev nodes Map.empty n = Inr w"
  using assms(2)
proof (induction n arbitrary: w rule: less_induct)
  case (less n)
  show ?case
  proof (cases "known n")
    case (Some v)
    then show ?thesis by (auto simp: node_value_known assms(4))
  next
    case None
    then have nd: "n \<notin> dom known" by auto
    have n: "n < length nodes" using in_cone_ordered [OF less.prems assms(1)] assms(3) by blast
    let ?ins = "nd_inputs (nodes ! n)"
    have ih: "node_value ev' nodes known i = Inr x \<longleftrightarrow> node_value ev nodes Map.empty i = Inr x" if "i \<in> set ?ins" for i x
      using that assms(1) n nd by (intro less.IH in_cone.step [OF less.prems]) (auto simp: ordered_def)
    have t: "traverse (node_value ev' nodes known) ?ins = Inr xs \<longleftrightarrow> traverse (node_value ev nodes Map.empty) ?ins = Inr xs" for xs
      unfolding traverse_Inr_iff by (intro list.rel_cong refl ih) (auto simp: ih)
    show ?thesis
      unfolding node_value_step [OF assms(1) n, of known, OF None] node_value_step [OF assms(1) n, of Map.empty, OF refl]
      by (simp add: result_bind_Inr_iff t plain_node_alike [OF assms(5) [OF less.prems nd]])
  qed
qed

text \<open>
  C29. A graph can be evaluated in two parts. When the values of some nodes have been computed by one
  evaluation, a second one that is given them returns exactly what evaluating the whole graph returns,
  and needs the sources and the evaluators of the nodes past the cut only.
\<close>
theorem cut_evaluation:
  assumes "ordered nodes" "\<forall>n \<in> set wanted \<union> set targets. n < length nodes"
    and "evaluate_ir ev nodes marked (Some targets) None = Inr (map Some vs)"
    and "ir_cone nodes wanted (set targets) = Inr cone" "\<forall>n \<in> cone - set targets. alike ev ev' (nodes ! n)"
  shows "evaluate_ir ev' nodes marked (Some wanted) (Some (zip targets vs)) = Inr ws \<longleftrightarrow>
    evaluate_ir ev nodes marked (Some wanted) None = Inr ws"
proof -
  let ?known = "map_of (zip targets vs)"
  have t: "list_all2 (\<lambda>t v. node_value ev nodes Map.empty t = Inr (Some v)) targets vs"
    using assms(1-3) by (simp add: evaluate_outputs traverse_Inr_iff list_all2_map2)
  then have d: "dom ?known = set targets" by (simp add: list_all2_lengthD dom_map_of_zip)
  have k: "node_value ev nodes Map.empty m = Inr (Some v)" if "?known m = Some v" for m v
    using t that by (auto simp: list_all2_iff dest: map_of_SomeD)
  from assms(4) ir_cone_eq [OF assms(1), of wanted] assms(2) have c: "cone = {n. in_cone nodes (set targets) (set wanted) n}" by auto
  have "node_value ev' nodes ?known n = Inr w \<longleftrightarrow> node_value ev nodes Map.empty n = Inr w" if "n \<in> set wanted" for n w
    by (rule node_value_cut [OF assms(1) in_cone.root [OF that]]) (use assms(2,5) k c d in auto)
  then have "list_all2 (\<lambda>x y. node_value ev' nodes ?known x = Inr y) wanted ws = list_all2 (\<lambda>x y. node_value ev nodes Map.empty x = Inr y) wanted ws"
    by (intro list.rel_cong) auto
  then show ?thesis using assms(1,2) by (simp add: evaluate_outputs traverse_Inr_iff)
qed


definition sample_arrays :: "int array_backend" where
  "sample_arrays = \<lparr>ab_eval = (\<lambda>op ins params. case (op, ins) of
       (''inc'', [Some x]) \<Rightarrow> Inr (x + 1) | (''exchange'', [Some x]) \<Rightarrow> Inr x | (''add'', [Some x, Some y]) \<Rightarrow> Inr (x + y)
     | _ \<Rightarrow> Inl (TypeError op)), ab_unaligned = [], ab_rows = (\<lambda>x. Some 1)\<rparr>"

definition sample_evaluation :: "int evaluation" where
  "sample_evaluation = \<lparr>ev_backend = sample_arrays, ev_sources = [''x'' \<mapsto> Inr 5], ev_externals = None, ev_on_failure = None, ev_chunked = True\<rparr>"

definition sample_graph :: "ir_node list" where
  "sample_graph = [\<lparr>nd_body = SourceNode ''x'', nd_inputs = []\<rparr>, \<lparr>nd_body = OpNode ''inc'' [], nd_inputs = [0]\<rparr>,
     \<lparr>nd_body = ExchangeNode [], nd_inputs = [1]\<rparr>,
     \<lparr>nd_body = StageNode [\<lparr>sm_name = ''inc'', sm_inputs = [StageInput 0], sm_params = []\<rparr>,
        \<lparr>sm_name = ''add'', sm_inputs = [StageInput 0, StageMember 0], sm_params = []\<rparr>], nd_inputs = [2]\<rparr>]"

lemma ordered_sample: "ordered sample_graph"
proof -
  have "ordered sample_graph \<longleftrightarrow> list_all (\<lambda>n. list_all (\<lambda>i. i < n) (nd_inputs (sample_graph ! n))) [0..<length sample_graph]"
    by (auto simp: ordered_def list_all_iff)
  moreover have "list_all (\<lambda>n. list_all (\<lambda>i. i < n) (nd_inputs (sample_graph ! n))) [0..<length sample_graph]" by code_simp
  ultimately show ?thesis by simp
qed

lemma length_sample [simp]: "length sample_graph = 4"
  by (simp add: sample_graph_def)

theorem evaluate_ir_spec_witness: "evaluate_ir sample_evaluation sample_graph [3] None None = Inr [Some 13] \<and>
    traverse (node_value sample_evaluation sample_graph Map.empty) [3] = Inr [Some 13]"
proof -
  have "evaluate_ir sample_evaluation sample_graph [3] None None = Inr [Some 13]" by code_simp
  with evaluate_ir_spec [of sample_graph "[3]" None sample_evaluation None "[Some 13]" "IndexError []", unfolded Let_def, OF ordered_sample]
  show ?thesis by simp
qed

theorem cut_evaluation_witness:
  "evaluate_ir (sample_evaluation\<lparr>ev_sources := Map.empty\<rparr>) sample_graph [3] (Some [3]) (Some [(1, 6)]) = Inr [Some 13]"
proof -
  let ?ev = "sample_evaluation\<lparr>ev_sources := Map.empty\<rparr>"
  have w: "evaluate_ir sample_evaluation sample_graph [3] (Some [3]) None = Inr [Some 13]"
    "evaluate_ir sample_evaluation sample_graph [3] (Some [1]) None = Inr (map Some [6])"
    "ir_cone sample_graph [3] (set [1]) = Inr {1, 2, 3}" by code_simp+
  have a: "\<forall>n \<in> {1, 2, 3} - set [1]. alike sample_evaluation ?ev (sample_graph ! n)"
    by (simp add: alike_def sample_evaluation_def sample_graph_def numeral_2_eq_2 numeral_3_eq_3)
  from cut_evaluation [OF ordered_sample _ w(2,3) a, of "[Some 13]"] w(1) show ?thesis by simp
qed

end
