(* ===== verification/Attribution.thy ===== *)
theory Attribution
  imports Evaluate Execution "HOL-Library.Product_Lexorder"
begin

text \<open>
  Attribution of failures: the frames of a compiled graph (\<open>execute.py\<close>, \<open>_frames_by_key\<close>), the
  hook that turns a failing dispatch into a \<open>StageError\<close> (\<open>aggregate.py\<close>, \<open>attribute_failures\<close> and
  \<open>read_label\<close>) and the texts of that error (\<open>errors.py\<close>).

  What the interpreter knows about an exception or a value (its traceback, the type text an array library
  prints) is an argument. A \<open>UserError\<close> is taken for an exception outside the \<open>GraphedError\<close> hierarchy.
\<close>

section \<open>Source frames\<close>

record provenance =
  pv_filename :: string
  pv_lineno :: int
  pv_function :: string
  pv_source :: string

record source_frame =
  sf_filename :: string
  sf_lineno :: int
  sf_function :: string
  sf_source :: string
  sf_also :: "provenance list"

definition provenance_str :: "provenance \<Rightarrow> string" where
  "provenance_str p = pv_filename p @ '':'' @ dec (pv_lineno p)"

definition frame_str :: "source_frame \<Rightarrow> string" where
  "frame_str f = sf_filename f @ '':'' @ dec (sf_lineno f)"

definition no_source_line :: source_frame where
  "no_source_line = \<lparr>sf_filename = ''<no source line: the failure was outside any recorded op>'', sf_lineno = 0,
     sf_function = [], sf_source = [], sf_also = []\<rparr>"

definition frame_of_sites :: "provenance list \<Rightarrow> source_frame result" where
  "frame_of_sites sites =
     (case sites of
        [] \<Rightarrow> Inl (ValueError ''not enough values to unpack (expected at least 1, got 0)'')
      | p # rest \<Rightarrow> Inr \<lparr>sf_filename = pv_filename p, sf_lineno = pv_lineno p, sf_function = pv_function p,
          sf_source = pv_source p, sf_also = rest\<rparr>)"

text \<open>\<open>chosen\<close> is the dictionary of the loop; the record ids come sorted.\<close>

fun choose_frames ::
  "(nat \<rightharpoonup> provenance list) \<Rightarrow> (nat \<times> node_key) list \<Rightarrow> (node_key \<times> source_frame) list \<Rightarrow> (node_key \<times> source_frame) list result" where
  "choose_frames prov [] chosen = Inr chosen"
| "choose_frames prov ((nid, key) # rest) chosen =
     (if map_of chosen key \<noteq> None then choose_frames prov rest chosen
      else case prov nid of
        None \<Rightarrow> Inl (KeyError (dec (int nid)))
      | Some sites \<Rightarrow> result_bind (frame_of_sites sites) (\<lambda>f. choose_frames prov rest (chosen @ [(key, f)])))"

definition key_rank :: "node_key \<Rightarrow> nat \<times> int" where
  "key_rank key = (fst key, case snd key of None \<Rightarrow> -1 | Some m \<Rightarrow> int m)"

definition frames_by_key ::
  "(nat \<rightharpoonup> provenance list) \<Rightarrow> (nat \<times> node_key) list \<Rightarrow> (node_key \<times> source_frame) list result" where
  "frames_by_key prov node_map =
     result_bind (choose_frames prov (sort_key fst node_map) []) (\<lambda>chosen. Inr (sort_key (\<lambda>e. key_rank (fst e)) chosen))"

section \<open>Stage errors\<close>

record stage_error =
  sg_class :: string
  sg_worker :: string
  sg_op :: string
  sg_frames :: "source_frame list"
  sg_input_forms :: "string list"
  sg_partition :: string
  sg_cause_type :: string
  sg_cause_message :: string
  sg_opt_level :: int
  sg_variation :: string
  sg_raised_at :: "source_frame option"

definition user_frame_of :: "stage_error \<Rightarrow> source_frame" where
  "user_frame_of e = (case sg_frames e of [] \<Rightarrow> no_source_line | f # _ \<Rightarrow> f)"

definition stage_summary :: "stage_error \<Rightarrow> string" where
  "stage_summary e =
     (if sg_class e = ''WorkerLostError'' then ''worker '' @ sg_worker e @ '' died running '' @ sg_partition e
      else ''StageError in op '' @ py_repr (sg_op e) @ '' at '' @ frame_str (user_frame_of e) @ '' (partition '' @ sg_partition e @
        (if sg_variation e = [] then [] else '', variation='' @ sg_variation e) @ '', opt_level='' @ dec (sg_opt_level e) @ ''): '' @
        sg_cause_type e @ '': '' @ sg_cause_message e)"

definition frame_lines :: "nat \<Rightarrow> nat \<Rightarrow> source_frame \<Rightarrow> string list" where
  "frame_lines n i fr =
     [(if i + 1 = n then ''  --> '' else ''      '') @ ''File '' @ [CHR 0x22] @ sf_filename fr @ [CHR 0x22] @ '', line '' @
        dec (sf_lineno fr) @ '', in '' @ (if sf_function fr = [] then ''<module>'' else sf_function fr)] @
     (if sf_source fr = [] then [] else [''          '' @ sf_source fr]) @
     map (\<lambda>other. ''      (same expression also written at '' @ provenance_str other @
        (if pv_source other = [] then [] else '':  '' @ pv_source other) @ '')'') (sf_also fr)"

definition stage_view :: "stage_error \<Rightarrow> string" where
  "stage_view e =
     (let n = length (sg_frames e)
      in str_join [CHR 0x0A] (
        concat (map (\<lambda>(i, fr). frame_lines n i fr) (enumerate 0 (rev (sg_frames e)))) @
        (if sg_frames e = [] then [''  --> '' @ sf_filename no_source_line] else []) @
        (case sg_raised_at e of None \<Rightarrow> []
         | Some r \<Rightarrow> [''      raised in '' @ sf_function r @ ''(), '' @ sf_filename r @ '' line '' @ dec (sf_lineno r) @
             (if sf_source r = [] then [] else '':  '' @ sf_source r)]) @
        [sg_cause_type e @ '': '' @ sg_cause_message e @ ''  [stage op '' @ py_repr (sg_op e) @ '', partition '' @ sg_partition e @
           '', opt_level='' @ dec (sg_opt_level e) @ '']''] @
        (if sg_input_forms e = [] then [] else [''  input forms: '' @ str_join '', '' (sg_input_forms e)])))"

definition worker_lost_error :: "string \<Rightarrow> string \<Rightarrow> stage_error" where
  "worker_lost_error label worker =
     \<lparr>sg_class = ''WorkerLostError'', sg_worker = worker, sg_op = ''run'', sg_frames = [], sg_input_forms = [], sg_partition = label,
      sg_cause_type = ''KilledWorker'',
      sg_cause_message = ''worker '' @ worker @ '' died (segfault, OOM kill or preemption suspected; blame can be unfair under co-located tasks)'',
      sg_opt_level = 0, sg_variation = [], sg_raised_at = None\<rparr>"

text \<open>The exception, as the execution core reads it by its attributes.\<close>

definition stage_exn :: "stage_error \<Rightarrow> exn" where
  "stage_exn e = UserError (sg_class e) (stage_summary e)
     (Some \<lparr>si_op = sg_op e, si_cause_type = sg_cause_type e, si_cause_message = sg_cause_message e,
        si_frames = map (\<lambda>f. \<lparr>uf_filename = sf_filename f, uf_lineno = sf_lineno f, uf_source = sf_source f\<rparr>) (sg_frames e)\<rparr>)
     (sg_partition e)"

section \<open>The hook\<close>

fun is_graphed :: "exn \<Rightarrow> bool" where
  "is_graphed (GraphedError _) = True"
| "is_graphed (UnboundServiceError _) = True"
| "is_graphed _ = False"

fun is_pack_key_overflow :: "exn \<Rightarrow> bool" where
  "is_pack_key_overflow (PackKeyOverflowError _) = True"
| "is_pack_key_overflow _ = False"

definition clip_text :: "string \<Rightarrow> string" where
  "clip_text text = (if length text \<le> 200 then text else take 200 text @ ''...'')"

record 'v introspection =
  is_typestr :: "'v option \<Rightarrow> string"
  is_raised_at :: "exn \<Rightarrow> source_frame option"

text \<open>
  A partition's label is made when a task fails; an attempt to make it that raises replaces the failure.
\<close>

definition attribute_one ::
  "'v introspection \<Rightarrow> (node_key \<rightharpoonup> source_frame) \<Rightarrow> (node_key \<rightharpoonup> string list \<times> source_frame) \<Rightarrow> string result \<Rightarrow> int \<Rightarrow> 'v failure_hook" where
  "attribute_one env by_key entries label opt_level key op ins exc =
     (if is_graphed exc then None
      else case (case entries key of Some e \<Rightarrow> Some e | None \<Rightarrow> map_option (\<lambda>f. ([], f)) (by_key key)) of
        None \<Rightarrow> None
      | Some (labels, frame) \<Rightarrow>
          (case label of Inl e \<Rightarrow> Some e
           | Inr l \<Rightarrow> Some (stage_exn
              \<lparr>sg_class = (if is_pack_key_overflow exc then ''PackKeyError'' else ''StageError''), sg_worker = [], sg_op = op, sg_frames = [frame],
               sg_input_forms = map (\<lambda>v. clip_text (is_typestr env v)) ins, sg_partition = l,
               sg_cause_type = exn_type exc, sg_cause_message = exn_text exc, sg_opt_level = opt_level,
               sg_variation = str_join '','' (sort labels), sg_raised_at = is_raised_at env exc\<rparr>)))"

definition attribute_failures ::
  "'v introspection \<Rightarrow> (node_key \<times> source_frame) list \<Rightarrow> string result \<Rightarrow> (node_key \<times> string list \<times> source_frame) list \<Rightarrow> int \<Rightarrow> 'v failure_hook option" where
  "attribute_failures env frames label variation_labels opt_level =
     (if variation_labels = [] \<and> frames = [] then None
      else Some (attribute_one env (map_of (rev frames)) (map_of (rev variation_labels)) label opt_level))"

text \<open>\<open>read_label\<close>: what the reader or the chunk cannot tell is left out.\<close>

definition read_label :: "(partition \<Rightarrow> int result) \<Rightarrow> (unit \<Rightarrow> int result) \<Rightarrow> partition \<Rightarrow> string result" where
  "read_label num_entries chunk_len p =
     (if is_blind p then
        result_bind (case num_entries p of Inr n \<Rightarrow> Inr (Some n) | Inl e \<Rightarrow> if is_exception e then Inr None else Inl e) (\<lambda>entries.
        result_bind (case chunk_len () of Inr n \<Rightarrow> Inr (Some n) | Inl e \<Rightarrow> if is_exception e then Inr None else Inl e) (\<lambda>rows.
          chunk_label p entries rows))
      else chunk_label p None None)"

section \<open>Which frame a key gets\<close>

lemma map_of_snoc: "map_of d k = None \<Longrightarrow> map_of (d @ [(k, v)]) = (map_of d)(k \<mapsto> v)"
  by (auto simp: map_add_def fun_eq_iff split: option.split)

definition first_frame :: "(nat \<rightharpoonup> provenance list) \<Rightarrow> (nat \<times> node_key) list \<Rightarrow> node_key \<Rightarrow> source_frame option" where
  "first_frame prov xs key =
     (case List.find (\<lambda>x. snd x = key) xs of None \<Rightarrow> None
      | Some x \<Rightarrow> (case frame_of_sites (the (prov (fst x))) of Inr f \<Rightarrow> Some f | Inl _ \<Rightarrow> None))"

lemma first_frame_Cons:
  "first_frame prov ((nid, key) # rest) k =
     (if k = key then (case frame_of_sites (the (prov nid)) of Inr f \<Rightarrow> Some f | Inl _ \<Rightarrow> None) else first_frame prov rest k)"
  by (simp add: first_frame_def)

lemma choose_frames_spec:
  assumes "\<forall>(n, k) \<in> set xs. prov n \<noteq> None \<and> prov n \<noteq> Some []" "distinct (map fst chosen)"
  shows "\<exists>r. choose_frames prov xs chosen = Inr r \<and> distinct (map fst r) \<and>
     (\<forall>key. map_of r key = (case map_of chosen key of Some f \<Rightarrow> Some f
        | None \<Rightarrow> first_frame prov xs key))"
  using assms
proof (induction prov xs chosen rule: choose_frames.induct)
  case (1 prov chosen)
  then show ?case by (auto simp: first_frame_def split: option.split)
next
  case (2 prov nid key rest chosen)
  from "2.prems"(1) obtain p ps where sites: "prov nid = Some (p # ps)" by (auto simp: neq_Nil_conv)
  obtain f where f: "frame_of_sites (p # ps) = Inr f" by (simp add: frame_of_sites_def)
  have rest: "\<forall>(n, k) \<in> set rest. prov n \<noteq> None \<and> prov n \<noteq> Some []" using "2.prems"(1) by auto
  show ?case
  proof (cases "map_of chosen key")
    case None
    let ?c = "chosen @ [(key, f)]"
    from "2.prems"(2) None have d: "distinct (map fst ?c)" by (force simp: map_of_eq_None_iff)
    from "2.IH"(2) [OF _ sites rest d] None obtain r where
      r: "choose_frames prov rest ?c = Inr r" "distinct (map fst r)"
        "\<forall>k. map_of r k = (case map_of ?c k of Some f \<Rightarrow> Some f
          | None \<Rightarrow> first_frame prov rest k)"
      by auto
    have "choose_frames prov ((nid, key) # rest) chosen = Inr r" using None sites f r(1) by simp
    moreover have "\<forall>k. map_of r k = (case map_of chosen k of Some f \<Rightarrow> Some f
        | None \<Rightarrow> first_frame prov ((nid, key) # rest) k)"
      using r(3) None sites f by (auto simp: map_of_snoc first_frame_Cons split: option.split)
    ultimately show ?thesis using r(2) by blast
  next
    case (Some g)
    from "2.IH"(1) [OF _ rest "2.prems"(2)] Some obtain r where
      r: "choose_frames prov rest chosen = Inr r" "distinct (map fst r)"
        "\<forall>k. map_of r k = (case map_of chosen k of Some f \<Rightarrow> Some f
          | None \<Rightarrow> first_frame prov rest k)"
      by auto
    have "choose_frames prov ((nid, key) # rest) chosen = Inr r" using Some r(1) by simp
    moreover have "\<forall>k. map_of r k = (case map_of chosen k of Some f \<Rightarrow> Some f
        | None \<Rightarrow> first_frame prov ((nid, key) # rest) k)"
      using r(3) Some by (auto simp: first_frame_Cons split: option.split)
    ultimately show ?thesis using r(2) by blast
  qed
qed

lemma find_sorted_Min:
  assumes "sorted (map fst xs)" "(n, key) \<in> set xs" "\<forall>m. (m, key) \<in> set xs \<longrightarrow> n \<le> (m :: nat)"
  shows "\<exists>x. List.find (\<lambda>x. snd x = key) xs = Some x \<and> fst x = n"
  using assms
proof (induction xs)
  case (Cons a xs)
  show ?case
  proof (cases "snd a = key")
    case True
    from Cons.prems(3) True have "n \<le> fst a" by (cases a) auto
    moreover from Cons.prems(1,2) have "fst a \<le> n" by (cases a) force
    ultimately show ?thesis using True by simp
  next
    case False
    with Cons show ?thesis by auto
  qed
qed simp

text \<open>
  The frames of a compiled graph: each reduced address that a record landed on has exactly one frame, the
  one of its lowest record id, whatever order the node map is in, and the frames are listed in the order of
  their addresses.
\<close>
theorem frames_by_key_spec:
  assumes "\<forall>(n, k) \<in> set node_map. prov n \<noteq> None \<and> prov n \<noteq> Some []"
  shows "\<exists>frames. frames_by_key prov node_map = Inr frames \<and> sorted (map (\<lambda>e. key_rank (fst e)) frames) \<and>
    (\<forall>key f. (key, f) \<in> set frames \<longleftrightarrow>
       (\<exists>n. (n, key) \<in> set node_map \<and> (\<forall>m. (m, key) \<in> set node_map \<longrightarrow> n \<le> m) \<and> frame_of_sites (the (prov n)) = Inr f))"
proof -
  let ?xs = "sort_key fst node_map"
  from choose_frames_spec [of ?xs prov "[]"] assms obtain r where
    r: "choose_frames prov ?xs [] = Inr r" "distinct (map fst r)"
      "\<And>key. map_of r key = first_frame prov ?xs key"
    by auto
  let ?frames = "sort_key (\<lambda>e. key_rank (fst e)) r"
  have "(key, f) \<in> set ?frames \<longleftrightarrow>
       (\<exists>n. (n, key) \<in> set node_map \<and> (\<forall>m. (m, key) \<in> set node_map \<longrightarrow> n \<le> m) \<and> frame_of_sites (the (prov n)) = Inr f)" for key f
  proof -
    have m: "(key, f) \<in> set ?frames \<longleftrightarrow> map_of r key = Some f" using r(2) by simp
    show ?thesis
    proof (cases "\<exists>n. (n, key) \<in> set node_map")
      case False
      then have "List.find (\<lambda>x. snd x = key) ?xs = None" by (auto simp: find_None_iff)
      then have "first_frame prov ?xs key = None" by (simp add: first_frame_def)
      with False show ?thesis unfolding m r(3) by simp
    next
      case True
      define n where "n = (LEAST n. (n, key) \<in> set node_map)"
      from True have n: "(n, key) \<in> set node_map" unfolding n_def by (rule LeastI_ex)
      have least: "\<forall>m. (m, key) \<in> set node_map \<longrightarrow> n \<le> m" unfolding n_def by (simp add: Least_le)
      have "(n, key) \<in> set ?xs" "\<forall>m. (m, key) \<in> set ?xs \<longrightarrow> n \<le> m" using n least by simp_all
      from find_sorted_Min [OF sorted_sort_key this] obtain x where
        "List.find (\<lambda>x. snd x = key) ?xs = Some x" "fst x = n" by blast
      then have "map_of r key = (case frame_of_sites (the (prov n)) of Inr f \<Rightarrow> Some f | Inl _ \<Rightarrow> None)"
        unfolding r(3) by (simp add: first_frame_def)
      then have "map_of r key = Some f \<longleftrightarrow> frame_of_sites (the (prov n)) = Inr f" by (simp split: sum.split)
      moreover have "n' = n" if "(n', key) \<in> set node_map" "\<forall>m. (m, key) \<in> set node_map \<longrightarrow> n' \<le> m" for n'
        using that n least by (simp add: le_antisym)
      ultimately show ?thesis unfolding m using n least by blast
    qed
  qed
  moreover have "sorted (map (\<lambda>e. key_rank (fst e)) ?frames)" by (rule sorted_sort_key)
  moreover have "frames_by_key prov node_map = Inr ?frames" by (simp add: frames_by_key_def r(1))
  ultimately show ?thesis by blast
qed

theorem frames_by_key_spec_witness:
  "let p = (\<lambda>l. \<lparr>pv_filename = ''a.py'', pv_lineno = l, pv_function = [], pv_source = []\<rparr>); k = (0, None) :: node_key;
     prov = (\<lambda>n. Some [p (int n + 10)])
   in \<exists>frames. frames_by_key prov [(3, k), (1, k), (2, (0, Some 0))] = Inr frames \<and> sf_lineno (the (map_of frames k)) = 11"
proof -
  let ?p = "\<lambda>l. \<lparr>pv_filename = ''a.py'', pv_lineno = l, pv_function = [], pv_source = []\<rparr>"
  let ?k = "(0, None) :: node_key" and ?prov = "\<lambda>n. Some [?p (int n + 10)]"
  let ?map = "[(3, ?k), (1, ?k), (2, (0, Some 0))]"
  have "\<forall>(n, k) \<in> set ?map. ?prov n \<noteq> None \<and> ?prov n \<noteq> Some []" by simp
  from frames_by_key_spec [OF this] obtain frames where f: "frames_by_key ?prov ?map = Inr frames"
    "\<forall>key f. (key, f) \<in> set frames \<longleftrightarrow> (\<exists>n. (n, key) \<in> set ?map \<and> (\<forall>m. (m, key) \<in> set ?map \<longrightarrow> n \<le> m) \<and> frame_of_sites (the (?prov n)) = Inr f)"
    by blast
  let ?fr = "\<lparr>sf_filename = ''a.py'', sf_lineno = 11, sf_function = [], sf_source = [], sf_also = []\<rparr>"
  have mem: "(?k, f) \<in> set frames \<longleftrightarrow> f = ?fr" for f
    unfolding f(2) [rule_format] by (auto simp: frame_of_sites_def)
  then have "(?k, ?fr) \<in> set frames" by blast
  then obtain f where "map_of frames ?k = Some f" using weak_map_of_SomeI by fastforce
  moreover from this have "f = ?fr" unfolding mem [symmetric] by (rule map_of_SomeD)
  ultimately have "map_of frames ?k = Some ?fr" by (simp only:)
  with f(1) show ?thesis by (simp add: Let_def)
qed

section \<open>A failing operation names the user's line\<close>

text \<open>The members of a fused stage that have run: each on the stage's inputs and the values before its own.\<close>

definition members_ran :: "'v evaluation \<Rightarrow> 'v option list \<Rightarrow> stage_member list \<Rightarrow> 'v option list \<Rightarrow> bool" where
  "members_ran ev ins members mvals \<longleftrightarrow> length mvals \<le> length members \<and>
     (\<forall>j < length mvals. \<exists>xs v. member_ins ins (take j mvals) (members ! j) = Inr xs \<and>
        row_wise ev (sm_name (members ! j)) xs (sm_params (members ! j)) = Inr v \<and> mvals ! j = Some v)"

text \<open>
  \<open>op_fails ev n body ins key op xs e\<close>: of a node \<open>n\<close> whose inputs have the values \<open>ins\<close>, the operation that the
  compiled graph addresses by \<open>key\<close> and names \<open>op\<close> raises \<open>e\<close> on the values \<open>xs\<close>. An operation fused into a
  stage is addressed by its place among the members.
\<close>

inductive op_fails :: "'v evaluation \<Rightarrow> nat \<Rightarrow> node_body \<Rightarrow> 'v option list \<Rightarrow> node_key \<Rightarrow> string \<Rightarrow> 'v option list \<Rightarrow> exn \<Rightarrow> bool"
  for ev n where
  an_op: "row_wise ev op ins params = Inl e \<Longrightarrow> op_fails ev n (OpNode op params) ins (n, None) op ins e"
| a_reduction: "ab_eval (ev_backend ev) op ins params = Inl e \<Longrightarrow> op_fails ev n (ReductionNode op params) ins (n, None) op ins e"
| an_exchange: "ab_eval (ev_backend ev) ''exchange'' ins params = Inl e \<Longrightarrow> op_fails ev n (ExchangeNode params) ins (n, None) ''exchange'' ins e"
| a_join: "ab_eval (ev_backend ev) ''join'' ins params = Inl e \<Longrightarrow> op_fails ev n (JoinNode params) ins (n, None) ''join'' ins e"
| an_external: "find_external ev chash params = Some g \<Longrightarrow> g ins = Inl e \<Longrightarrow>
    op_fails ev n (ExternalNode chash kind params) ins (n, None) (external_op kind params) ins e"
| a_member: "members_ran ev ins members mvals \<Longrightarrow> length mvals < length members \<Longrightarrow> members ! length mvals = m \<Longrightarrow>
    member_ins ins mvals m = Inr xs \<Longrightarrow> row_wise ev (sm_name m) xs (sm_params m) = Inl e \<Longrightarrow>
    op_fails ev n (StageNode members) ins (n, Some (length mvals)) (sm_name m) xs e"

lemma members_ran_take: "members_ran ev ins members (mvals @ [x]) \<Longrightarrow> members_ran ev ins members mvals"
  unfolding members_ran_def
proof (elim conjE, intro conjI allI impI)
  fix j
  assume all: "\<forall>j < length (mvals @ [x]). \<exists>xs v. member_ins ins (take j (mvals @ [x])) (members ! j) = Inr xs \<and>
      row_wise ev (sm_name (members ! j)) xs (sm_params (members ! j)) = Inr v \<and> (mvals @ [x]) ! j = Some v" and j: "j < length mvals"
  from all [rule_format, of j] j show "\<exists>xs v. member_ins ins (take j mvals) (members ! j) = Inr xs \<and>
      row_wise ev (sm_name (members ! j)) xs (sm_params (members ! j)) = Inr v \<and> mvals ! j = Some v"
    by (simp add: nth_append)
qed simp

lemma run_members_ran:
  "members_ran ev ins members mvals \<Longrightarrow>
     run_members ev n [] ins 0 members [] = run_members ev n [] ins (length mvals) (drop (length mvals) members) mvals"
proof (induction mvals rule: rev_induct)
  case (snoc x mvals)
  from snoc.prems have l: "length mvals < length members" by (simp add: members_ran_def)
  from snoc.prems obtain xs v where "member_ins ins mvals (members ! length mvals) = Inr xs"
    "row_wise ev (sm_name (members ! length mvals)) xs (sm_params (members ! length mvals)) = Inr v" "x = Some v"
    by (auto simp: members_ran_def dest!: spec [of _ "length mvals"])
  then show ?case using snoc.IH [OF members_ran_take [OF snoc.prems]]
    by (simp add: Cons_nth_drop_Suc [OF l, symmetric] dispatch_def)
qed simp

lemma op_fails_dispatched:
  assumes "op_fails ev n (nd_body nd) ins key op xs e"
  shows "plain_node ev n nd ins = result_bind (dispatch (ev_on_failure ev) (Inl e) op xs key) (\<lambda>v. Inr (Some v))"
  using assms
proof cases
  case (a_member members mvals m)
  then show ?thesis using run_members_ran [OF a_member(4), of n]
    by (simp add: plain_node_def plain_stage_def Cons_nth_drop_Suc [symmetric] dispatch_def split: sum.split option.split)
qed (simp_all add: plain_node_def evaluate_node_def evaluate_external_def)

text \<open>Of the operations an evaluation performs, the one that \<open>key\<close> addresses is the first to fail.\<close>

definition fails_first ::
  "'v evaluation \<Rightarrow> ir_node list \<Rightarrow> nat list \<Rightarrow> nat list option \<Rightarrow> (nat \<times> 'v) list option \<Rightarrow> node_key \<Rightarrow> string \<Rightarrow> 'v option list \<Rightarrow> exn \<Rightarrow> bool" where
  "fails_first ev nodes marked outputs given key op xs e \<longleftrightarrow>
     (let n = fst key; f = node_value ev nodes (the_known given) in
       needed nodes marked outputs given n \<and> the_known given n = None \<and>
       (\<forall>m < n. needed nodes marked outputs given m \<longrightarrow> \<not> isl (f m)) \<and>
       (\<exists>ins. traverse f (nd_inputs (nodes ! n)) = Inr ins \<and> op_fails ev n (nd_body (nodes ! n)) ins key op xs e))"

lemma op_fails_node: "op_fails ev n body ins key op xs e \<Longrightarrow> fst key = n"
  by (cases rule: op_fails.cases) auto

lemma fails_first_raises:
  assumes "ordered nodes" "\<forall>n \<in> set (the_outputs marked outputs). n < length nodes"
    and "fails_first ev nodes marked outputs given key op xs exc" "dispatch (ev_on_failure ev) (Inl exc) op xs key = Inl e"
  shows "evaluate_ir ev nodes marked outputs given = Inl e"
proof -
  let ?n = "fst key" and ?f = "node_value ev nodes (the_known given)"
  from assms(3) obtain ins where n: "needed nodes marked outputs given ?n" "the_known given ?n = None"
    "\<forall>m < ?n. needed nodes marked outputs given m \<longrightarrow> \<not> isl (?f m)"
    "traverse ?f (nd_inputs (nodes ! ?n)) = Inr ins" "op_fails ev ?n (nd_body (nodes ! ?n)) ins key op xs exc"
    by (auto simp: fails_first_def Let_def)
  from n(1) have l: "?n < length nodes" by (simp add: needed_def)
  have "?f ?n = Inl e"
    unfolding node_value_step [OF assms(1) l, of "the_known given", OF n(2)] n(4)
    using op_fails_dispatched [OF n(5)] assms(4) by simp
  with n(1,3) have "first_failure ev nodes (the_known given) (needed nodes marked outputs given) e"
    unfolding first_failure_def by blast
  then show ?thesis by (rule evaluate_ir_raises [OF assms(1,2)])
qed

text \<open>The site of the lowest record that landed on an address: its first line, and the others of the expression.\<close>

definition recorded_at :: "(nat \<rightharpoonup> provenance list) \<Rightarrow> (nat \<times> node_key) list \<Rightarrow> node_key \<Rightarrow> source_frame \<Rightarrow> bool" where
  "recorded_at prov node_map key f \<longleftrightarrow>
     (\<exists>r p rest. (r, key) \<in> set node_map \<and> (\<forall>m. (m, key) \<in> set node_map \<longrightarrow> r \<le> m) \<and> prov r = Some (p # rest) \<and>
        f = \<lparr>sf_filename = pv_filename p, sf_lineno = pv_lineno p, sf_function = pv_function p, sf_source = pv_source p, sf_also = rest\<rparr>)"

lemma recorded_frame:
  assumes "\<forall>(n, k) \<in> set node_map. prov n \<noteq> None \<and> prov n \<noteq> Some []" "frames_by_key prov node_map = Inr frames"
    and "recorded_at prov node_map key f"
  shows "map_of (rev frames) key = Some f"
proof -
  from frames_by_key_spec [OF assms(1)] obtain fs where fs: "frames_by_key prov node_map = Inr fs"
    "\<forall>key f. (key, f) \<in> set fs \<longleftrightarrow>
       (\<exists>n. (n, key) \<in> set node_map \<and> (\<forall>m. (m, key) \<in> set node_map \<longrightarrow> n \<le> m) \<and> frame_of_sites (the (prov n)) = Inr f)" by blast
  from fs(1) assms(2) have "fs = frames" by simp
  from spec [OF fs(2), of key, unfolded this]
  have mem: "\<forall>f. (key, f) \<in> set frames \<longleftrightarrow>
       (\<exists>n. (n, key) \<in> set node_map \<and> (\<forall>m. (m, key) \<in> set node_map \<longrightarrow> n \<le> m) \<and> frame_of_sites (the (prov n)) = Inr f)" .
  from assms(3) obtain r where r: "(r, key) \<in> set node_map" "\<forall>m. (m, key) \<in> set node_map \<longrightarrow> r \<le> m"
    "frame_of_sites (the (prov r)) = Inr f" by (auto simp: recorded_at_def frame_of_sites_def)
  then have one: "g = f" if "(key, g) \<in> set frames" for g
    using that mem by (metis le_antisym sum.inject(2))
  from mem r have "(key, f) \<in> set (rev frames)" by auto
  then obtain g where "map_of (rev frames) key = Some g" using weak_map_of_SomeI by fastforce
  moreover from map_of_SomeD [OF this] one have "g = f" by simp
  ultimately show ?thesis by simp
qed


text \<open>The second member of a fused stage fails; the first was recorded on another line, and the second twice.\<close>

definition bad_graph :: "ir_node list" where
  "bad_graph = [\<lparr>nd_body = SourceNode ''x'', nd_inputs = []\<rparr>,
     \<lparr>nd_body = StageNode [\<lparr>sm_name = ''inc'', sm_inputs = [StageInput 0], sm_params = []\<rparr>,
        \<lparr>sm_name = ''bad'', sm_inputs = [StageMember 0], sm_params = []\<rparr>], nd_inputs = [0]\<rparr>]"

definition bad_site :: "nat \<Rightarrow> provenance" where
  "bad_site n = \<lparr>pv_filename = ''ana.py'', pv_lineno = 10 + int n, pv_function = [], pv_source = ''bad(inc(x))''\<rparr>"

definition bad_map :: "(nat \<times> node_key) list" where
  "bad_map = [(1, (0, None)), (4, (1, Some 1)), (2, (1, Some 0)), (3, (1, Some 1))]"

definition bad_frames :: "(node_key \<times> source_frame) list" where
  "bad_frames = (case frames_by_key (\<lambda>n. Some [bad_site n]) bad_map of Inr fs \<Rightarrow> fs | Inl _ \<Rightarrow> [])"

definition bad_evaluation :: "int evaluation" where
  "bad_evaluation = sample_evaluation\<lparr>ev_on_failure :=
     attribute_failures \<lparr>is_typestr = (\<lambda>v. ''int''), is_raised_at = (\<lambda>e. None)\<rparr> bad_frames (Inr ''chunk'') [] 1\<rparr>"


end
