(* ===== verification/Staged_Run.thy ===== *)
theory Staged_Run
  imports Shuffle_Resume Runner Services
begin

text \<open>
  \<open>SequentialRunner\<close> on a staged plan (\<open>core/execution.py\<close>, \<open>_run_stages\<close>, \<open>run\<close> and \<open>submit\<close>), and what both it
  and \<open>run_shuffle_resumable\<close> compute: the payloads of \<open>staged_from\<close>, stage by stage. The resumed run is
  proved once for every store that keeps the contract \<open>checkpoint_store\<close>, then for the local store.
\<close>

section \<open>The runner\<close>

text \<open>What the plan's callables do: a stage process in the worker, a part's hook, \<open>pickle.loads\<close>, \<open>finalize\<close>.\<close>

record ('f, 'h, 'v) staged_runtime =
  sx_env :: "'f interpreter"
  sx_process :: "'f \<Rightarrow> task \<Rightarrow> string list \<Rightarrow> (string, 'h resources) action"
  sx_hooks :: "('f, 'v) hooks"
  sx_unpickle :: "string \<Rightarrow> 'v result"
  sx_finalize :: "'f \<Rightarrow> 'v run_value \<Rightarrow> 'v run_value result"

text \<open>\<open>ran[bool(stage.inputs)] += 1\<close>\<close>

definition count_task :: "int list \<Rightarrow> int \<times> int \<Rightarrow> int \<times> int" where
  "count_task inputs counts = (case counts of (a, b) \<Rightarrow> if inputs = [] then (a + 1, b) else (a, b + 1))"

definition staged_result :: "'v run_value option \<Rightarrow> int \<times> int \<Rightarrow> stop_reason option \<Rightarrow> 'v run_value option exec_result" where
  "staged_result v counts stopped =
     \<lparr>er_value = Bare v, er_n_partitions = fst counts, er_n_combines = snd counts, er_stopped = stopped, er_failed = []\<rparr>"

fun tasks_of_stage ::
  "('f, 'h, 'v) staged_runtime \<Rightarrow> 'f \<Rightarrow> 'f stage_spec \<Rightarrow> string list \<Rightarrow> task list \<Rightarrow> string list \<Rightarrow> int \<times> int \<Rightarrow>
   (string list \<times> int \<times> int, ('m, 'h) world) action" where
  "tasks_of_stage rt f s upstream [] out counts = act_return (out, counts)"
| "tasks_of_stage rt f s upstream (t # ts) out counts =
     act_bind (in_resources (sx_process rt f t upstream)) (\<lambda>p.
       tasks_of_stage rt f s upstream ts (out @ [p]) (count_task (ss_inputs s) counts))"

definition last_value :: "('f, 'h, 'v) staged_runtime \<Rightarrow> 'f durable_plan_v2 \<Rightarrow> string list list \<Rightarrow> 'v run_value result" where
  "last_value rt plan payloads =
     (if payloads = [] then Inl (IndexError ''list index out of range'')
      else v2_value (sx_unpickle rt) plan (last payloads))"

fun stages_loop ::
  "('f, 'h, 'v) staged_runtime \<Rightarrow> 'f durable_plan_v2 \<Rightarrow> control_view option \<Rightarrow> 'f stage_spec list \<Rightarrow> nat \<Rightarrow> string list list \<Rightarrow>
   int \<times> int \<Rightarrow> ('v run_value option exec_result, ('m, 'h) world) action" where
  "stages_loop rt plan ctl [] n payloads counts =
     act_bind (act_lift (last_value rt plan payloads)) (\<lambda>v. act_return (staged_result (Some v) counts None))"
| "stages_loop rt plan ctl (s # ss) n payloads counts =
     (if (case ctl of None \<Rightarrow> False | Some c \<Rightarrow> cv_waits c n = CANCELLED)
      then act_return (staged_result None counts (Some STOP_CANCELLED))
      else act_bind (act_lift (op_resolve (sx_env rt) (ss_process s))) (\<lambda>f.
           act_bind (act_lift (traverse (py_index payloads) (ss_inputs s))) (\<lambda>xss.
           act_bind (tasks_of_stage rt f s (concat xss) (ss_tasks s) [] counts) (\<lambda>(out, counts).
             stages_loop rt plan ctl ss (Suc n) (payloads @ [out]) counts))))"

definition run_staged_tasks ::
  "('f, 'h, 'v) staged_runtime \<Rightarrow> 'f durable_plan_v2 \<Rightarrow> control_view option \<Rightarrow> ('v run_value option exec_result, ('m, 'h) world) action" where
  "run_staged_tasks rt plan ctl w =
     act_finally (stages_loop rt plan ctl (v2_stages plan) 0 [] (0, 0)) end_resources (start_resources w)"

text \<open>\<open>skipping\<close> and \<open>finalize_result\<close> on a staged plan.\<close>

definition skipping_staged :: "int \<Rightarrow> unit result" where
  "skipping_staged skip_failed =
     (if skip_failed \<noteq> 0 then Inl (TypeError ''skip_failed needs a Plan; a DurablePlanV2 has no chunk to leave out'') else Inr ())"

definition finalize_staged ::
  "('f, 'h, 'v) staged_runtime \<Rightarrow> 'f durable_plan_v2 \<Rightarrow> 'v run_value option exec_result \<Rightarrow> 'v run_value option exec_result result" where
  "finalize_staged rt plan res =
     (case v2_finalize plan of
        None \<Rightarrow> Inr res
      | Some op \<Rightarrow>
          if er_stopped res = Some STOP_CANCELLED then Inr res
          else result_bind (op_resolve (sx_env rt) op) (\<lambda>f.
               case er_value res of
                 Bare (Some v) \<Rightarrow> result_bind (sx_finalize rt f v) (\<lambda>v. Inr (res\<lparr>er_value := Bare (Some v)\<rparr>))
               | _ \<Rightarrow> Inr res))"

text \<open>\<open>None\<close>: the check for services does not end.\<close>

definition run_staged ::
  "('f, 'h, 'v) staged_runtime \<Rightarrow> 'f durable_plan_v2 \<Rightarrow> int \<Rightarrow> 'm monitor option \<Rightarrow> control_view option \<Rightarrow> ('m, 'h) world \<Rightarrow>
   ('v run_value option exec_result result \<times> ('m, 'h) world) option" where
  "run_staged rt plan skip_failed mon ctl w =
     (case require_staged_bound (sx_env rt) (sx_hooks rt) plan of
        None \<Rightarrow> None
      | Some (Inl e) \<Rightarrow> Some (Inl e, w)
      | Some (Inr _) \<Rightarrow>
          (case skipping_staged skip_failed of
             Inl e \<Rightarrow> Some (Inl e, w)
           | Inr _ \<Rightarrow> (case observed_run mon 0 (run_staged_tasks rt plan ctl) w of
               (Inl e, w') \<Rightarrow> Some (Inl e, w')
             | (Inr res, w') \<Rightarrow> Some (finalize_staged rt plan res, w'))))"

text \<open>\<open>submit\<close>: a finished future of what \<open>run\<close> returned or raised; an \<open>Interrupt\<close> goes to the caller.\<close>

datatype 'a future = Finished 'a | Failed exn

definition submit :: "'a result \<Rightarrow> 'a future result" where
  "submit outcome = (case outcome of
       Inr x \<Rightarrow> Inr (Finished x)
     | Inl e \<Rightarrow> if is_exception e then Inr (Failed e) else Inl e)"

section \<open>What a staged run computes\<close>

text \<open>The payloads of every stage, from those of the stages before: what a task makes is a function of its inputs.\<close>

fun staged_from ::
  "'f interpreter \<Rightarrow> ('f \<Rightarrow> task \<Rightarrow> string list \<Rightarrow> string result) \<Rightarrow> 'f stage_spec list \<Rightarrow> string list list \<Rightarrow> string list list result" where
  "staged_from env g [] acc = Inr acc"
| "staged_from env g (s # ss) acc =
     result_bind (op_resolve env (ss_process s)) (\<lambda>f.
     result_bind (traverse (py_index acc) (ss_inputs s)) (\<lambda>xss.
     result_bind (traverse (\<lambda>t. g f t (concat xss)) (ss_tasks s)) (\<lambda>ps. staged_from env g ss (acc @ [ps]))))"

definition ran_counts :: "'f stage_spec list \<Rightarrow> int \<times> int" where
  "ran_counts ss = (int (sum_list (map (\<lambda>s. if ss_inputs s = [] then length (ss_tasks s) else 0) ss)),
                    int (sum_list (map (\<lambda>s. if ss_inputs s = [] then 0 else length (ss_tasks s)) ss)))"

text \<open>The stage before which the switch is first read as cancelled.\<close>

definition stages_run :: "control_view option \<Rightarrow> nat \<Rightarrow> nat \<Rightarrow> nat" where
  "stages_run ctl n k = (case ctl of None \<Rightarrow> k | Some c \<Rightarrow> length (takeWhile (\<lambda>i. cv_waits c i \<noteq> CANCELLED) [n..<n + k]))"

definition add_counts :: "int \<times> int \<Rightarrow> int \<times> int \<Rightarrow> int \<times> int" where
  "add_counts a b = (fst a + fst b, snd a + snd b)"

lemma counts_simps [simp]:
  "ran_counts [] = (0, 0)" "add_counts c (0, 0) = c" "add_counts (0, 0) c = c"
  "add_counts (add_counts a b) c = add_counts a (add_counts b c)"
  "add_counts (ran_counts [s]) (ran_counts ss) = ran_counts (s # ss)"
  by (simp_all add: ran_counts_def add_counts_def)

lemma stages_run_simps [simp]:
  "stages_run ctl n 0 = 0"
  "stages_run None n k = k"
  "cv_waits c n = CANCELLED \<Longrightarrow> stages_run (Some c) n (Suc k) = 0"
  "cv_waits c n \<noteq> CANCELLED \<Longrightarrow> stages_run (Some c) n (Suc k) = Suc (stages_run (Some c) (Suc n) k)"
  by (simp_all add: stages_run_def upt_conv_Cons del: upt_Suc split: option.split)

text \<open>The processes of a run have definite results, whatever files are open.\<close>

definition computes :: "('f, 'h, 'v) staged_runtime \<Rightarrow> 'f stage_spec list \<Rightarrow> ('f \<Rightarrow> task \<Rightarrow> string list \<Rightarrow> string result) \<Rightarrow> bool" where
  "computes rt ss g \<longleftrightarrow> (\<forall>s \<in> set ss. \<forall>f. op_resolve (sx_env rt) (ss_process s) = Inr f \<longrightarrow>
     (\<forall>t \<in> set (ss_tasks s). \<forall>xs r. fst (sx_process rt f t xs r) = g f t xs))"

lemma tasks_of_stage_ok:
  assumes "\<forall>t \<in> set ts. \<forall>xs r. fst (sx_process rt f t xs r) = g f t xs"
  shows "fst (tasks_of_stage rt f s xs ts out counts w) =
     result_bind (traverse (\<lambda>t. g f t xs) ts) (\<lambda>ps. Inr (out @ ps, add_counts counts (ran_counts [s\<lparr>ss_tasks := ts\<rparr>])))"
  using assms
proof (induction ts arbitrary: out counts w)
  case Nil
  then show ?case by (simp add: act_eval ran_counts_def)
next
  case (Cons t ts)
  obtain r w' where r: "in_resources (sx_process rt f t xs) w = (r, w')" by fastforce
  moreover have "fst (sx_process rt f t xs (w_resources w)) = g f t xs" using Cons.prems by simp
  ultimately have "r = g f t xs" by (simp add: in_resources_def split: prod.splits)
  note r = r this
  have c: "add_counts (count_task (ss_inputs s) counts) (ran_counts [s\<lparr>ss_tasks := ts\<rparr>]) = add_counts counts (ran_counts [s\<lparr>ss_tasks := t # ts\<rparr>])"
    by (simp add: count_task_def add_counts_def ran_counts_def split: prod.split)
  show ?case
    using Cons.IH [of _ "count_task (ss_inputs s) counts" w'] Cons.prems r
    by (cases "g f t xs"; cases "traverse (\<lambda>t. g f t xs) ts") (simp_all add: act_eval c)
qed

lemma stages_loop_ok:
  assumes "computes rt ss g"
  shows "fst (stages_loop rt plan ctl ss n payloads counts w) =
     (let k = stages_run ctl n (length ss); counts = add_counts counts (ran_counts (take k ss))
      in result_bind (staged_from (sx_env rt) g (take k ss) payloads) (\<lambda>pss.
         if k < length ss then Inr (staged_result None counts (Some STOP_CANCELLED))
         else result_bind (last_value rt plan pss) (\<lambda>v. Inr (staged_result (Some v) counts None))))"
  using assms
proof (induction ss arbitrary: n payloads counts w)
  case Nil
  then show ?case by (cases "last_value rt plan payloads") (simp_all add: act_eval)
next
  case (Cons s ss)
  show ?case
  proof (cases "case ctl of None \<Rightarrow> False | Some c \<Rightarrow> cv_waits c n = CANCELLED")
    case True
    then show ?thesis by (cases ctl) (simp_all add: act_eval)
  next
    case False
    then have k: "stages_run ctl n (length (s # ss)) = Suc (stages_run ctl (Suc n) (length ss))" by (cases ctl) simp_all
    show ?thesis
    proof (cases "op_resolve (sx_env rt) (ss_process s)")
      case (Inl e)
      with False k show ?thesis by (simp add: act_eval)
    next
      case f: (Inr f)
      show ?thesis
      proof (cases "traverse (py_index payloads) (ss_inputs s)")
        case (Inl e)
        with False k f show ?thesis by (simp add: act_eval)
      next
        case xss: (Inr xss)
        obtain r w' where r: "tasks_of_stage rt f s (concat xss) (ss_tasks s) [] counts w = (r, w')" by fastforce
        moreover have "\<forall>t \<in> set (ss_tasks s). \<forall>xs r. fst (sx_process rt f t xs r) = g f t xs"
          using Cons.prems f by (simp add: computes_def)
        note tasks_of_stage_ok [where g = g, OF this, of s "concat xss" "[]" counts w]
        ultimately
        have "r = result_bind (traverse (\<lambda>t. g f t (concat xss)) (ss_tasks s)) (\<lambda>ps. Inr (ps, add_counts counts (ran_counts [s])))" by simp
        moreover have "computes rt ss g" using Cons.prems by (simp add: computes_def)
        note ih = Cons.IH [OF this, of "Suc n"]
        ultimately show ?thesis
          using False k f xss ih r
          by (cases "traverse (\<lambda>t. g f t (concat xss)) (ss_tasks s)") (simp_all add: act_eval Let_def cong: if_cong)
      qed
    qed
  qed
qed

text \<open>
  C6. A staged run on \<open>SequentialRunner\<close>, whatever its switch reads: the stages before the first cancel
  compute exactly the reference's payloads, or the run raises the reference's first error; an uncancelled
  run returns the finalized value of the last stage's payloads; a cancelled one has no value and is not
  finalized; the counts are those of the tasks that ran, and every file is closed however it ended.
\<close>
theorem staged_run_spec:
  assumes "computes rt (v2_stages plan) g" "v2_services plan = []"
  shows "\<exists>w'. run_staged rt plan 0 None ctl w = Some
    (let ss = v2_stages plan; k = stages_run ctl 0 (length ss); counts = ran_counts (take k ss)
     in result_bind (staged_from (sx_env rt) g (take k ss) []) (\<lambda>pss.
        if k < length ss then Inr (staged_result None counts (Some STOP_CANCELLED))
        else result_bind (last_value rt plan pss) (\<lambda>v. finalize_staged rt plan (staged_result (Some v) counts None))), w') \<and>
    lr_handles (w_resources w') = []"
proof -
  obtain r w' where run: "run_staged_tasks rt plan ctl w = (r, w')" by fastforce
  then have closed: "lr_handles (w_resources w') = []"
    by (auto simp: run_staged_tasks_def act_eval end_resources_def close_resources_def)
  have cancelled: "finalize_staged rt plan (staged_result None counts (Some STOP_CANCELLED)) =
      Inr (staged_result None counts (Some STOP_CANCELLED))" for counts
    by (simp add: finalize_staged_def staged_result_def split: option.split)
  have all: "run_staged rt plan 0 None ctl w = Some (result_bind r (finalize_staged rt plan), w')"
    using assms(2) run
    by (cases r) (simp_all add: run_staged_def require_staged_bound_def skipping_staged_def observed_run_def call_hook_def act_eval)
  have "r = fst (stages_loop rt plan ctl (v2_stages plan) 0 [] (0, 0) (start_resources w))"
    using run by (auto simp: run_staged_tasks_def act_eval)
  with all closed show ?thesis
    unfolding stages_loop_ok [OF assms(1)] Let_def
    by (simp add: result_bind_def cancelled split: sum.split cong: if_cong)
qed

text \<open>Two map tasks that write what they read, and a fold that puts their payloads together.\<close>

definition relay :: "nat \<Rightarrow> task \<Rightarrow> string list \<Rightarrow> string result" where
  "relay f t xs = Inr (if f = 0 then dec (n_entries (task_partition t)) else concat xs)"

definition relay_env :: "nat interpreter" where
  "relay_env = \<lparr>in_import = \<lambda>_. Inr 0, in_getattr = \<lambda>_ _. Inr 0, in_loads = \<lambda>_. Inr 0, in_dumps = \<lambda>_. [],
     in_module = \<lambda>_. None, in_qualname = \<lambda>_. None\<rparr>"

definition relay_op :: "nat \<Rightarrow> nat op_spec" where
  "relay_op f = \<lparr>os_kind = ''ref'', os_ref = ''m:f'', os_blob_b64 = [], os_live = Some f\<rparr>"

definition relay_plan :: "nat durable_plan_v2" where
  "relay_plan = \<lparr>v2_ir = ''ir'', v2_stages =
      [\<lparr>ss_kind = ''map_write'', ss_inputs = [], ss_process = relay_op 0, ss_routing = [],
        ss_tasks = [\<lparr>task_key = 0, task_partition = mk_partition ''a'' [] 0 3\<rparr>, \<lparr>task_key = 1, task_partition = mk_partition ''a'' [] 3 10\<rparr>]\<rparr>,
       \<lparr>ss_kind = ''reduce'', ss_inputs = [0], ss_process = relay_op 1, ss_routing = [],
        ss_tasks = [\<lparr>task_key = 0, task_partition = mk_partition [] [] 0 0\<rparr>]\<rparr>],
     v2_format_version = format_version_v2, v2_services = [], v2_finalize = None\<rparr>"

definition relay_runtime :: "(nat, unit, string) staged_runtime" where
  "relay_runtime = \<lparr>sx_env = relay_env, sx_process = \<lambda>f t xs r. (relay f t xs, r),
     sx_hooks = \<lparr>hk_bind = \<lambda>_. None, hk_resolve = \<lambda>_. None\<rparr>, sx_unpickle = Inr, sx_finalize = \<lambda>_. Inr\<rparr>"

lemma dec_samples: "dec 3 = ''3''" "dec 7 = ''7''" by code_simp+

lemma relay_stages:
  "staged_from relay_env relay (v2_stages relay_plan) [] = Inr [[''3'', ''7''], [''37'']]"
  "staged_from relay_env relay (take 1 (v2_stages relay_plan)) [] = Inr [[''3'', ''7'']]"
  by (simp_all add: relay_plan_def op_resolve_def relay_op_def relay_def py_index_def n_entries_def dec_samples)

theorem staged_run_spec_witness:
  "let w = \<lparr>w_monitor = (), w_resources = new_resources 8\<rparr> :: (unit, unit) world;
       run = (\<lambda>ctl. map_option fst (run_staged relay_runtime relay_plan 0 (None :: unit monitor option) ctl w))
   in run None = Some (Inr (staged_result (Some (One ''37'')) (2, 1) None)) \<and>
      run (Some \<lparr>cv_entry = RUNNING, cv_waits = (\<lambda>i. if i = 0 then RUNNING else CANCELLED)\<rparr>) =
        Some (Inr (staged_result None (2, 0) (Some STOP_CANCELLED)))"
proof -
  have c: "computes relay_runtime (v2_stages relay_plan) relay" by (simp add: computes_def relay_runtime_def)
  have p: "v2_services relay_plan = []" "length (v2_stages relay_plan) = 2" "v2_finalize relay_plan = None"
    "ran_counts (v2_stages relay_plan) = (2, 1)" "ran_counts (take 1 (v2_stages relay_plan)) = (2, 0)"
    "sx_env relay_runtime = relay_env"
    by (simp_all add: relay_plan_def ran_counts_def relay_runtime_def)
  have v: "last_value relay_runtime relay_plan [[''3'', ''7''], [''37'']] = Inr (One ''37'')"
    by (simp add: last_value_def v2_value_def relay_runtime_def relay_plan_def)
  have k: "stages_run (Some \<lparr>cv_entry = RUNNING, cv_waits = (\<lambda>i. if i = 0 then RUNNING else CANCELLED)\<rparr>) 0 2 = 1"
    by (simp add: stages_run_def upt_rec)
  note s = staged_run_spec [OF c p(1), of _ "\<lparr>w_monitor = (), w_resources = new_resources 8\<rparr>"]
  from s [of None] s [of "Some \<lparr>cv_entry = RUNNING, cv_waits = (\<lambda>i. if i = 0 then RUNNING else CANCELLED)\<rparr>"]
  show ?thesis using relay_stages p v k by (auto simp: Let_def finalize_staged_def)
qed

section \<open>The staged run against a store\<close>

text \<open>The payload of one task of stage \<open>si\<close>, from the reference.\<close>

definition block_of ::
  "'f interpreter \<Rightarrow> ('f \<Rightarrow> task \<Rightarrow> string list \<Rightarrow> string result) \<Rightarrow> 'f stage_spec list \<Rightarrow> nat \<Rightarrow> task \<Rightarrow> string result" where
  "block_of env g ss si t =
     result_bind (staged_from env g (take si ss) []) (\<lambda>acc.
     result_bind (op_resolve env (ss_process (ss ! si))) (\<lambda>f.
     result_bind (traverse (py_index acc) (ss_inputs (ss ! si))) (\<lambda>xss. g f t (concat xss))))"

text \<open>
  What is assumed of the work: a task's payload is a function of its inputs, whatever the outside world; a stage
  reads earlier stages and is not called like an environment record; tasks have ids.
\<close>

definition staged_definite ::
  "(string \<Rightarrow> string) \<Rightarrow> ('f, 'r, 'w) stage_callables \<Rightarrow> 'r \<Rightarrow> 'f durable_plan_v2 \<Rightarrow> ('f \<Rightarrow> task \<Rightarrow> string list \<Rightarrow> string result) \<Rightarrow> bool" where
  "staged_definite sha sc res plan g \<longleftrightarrow>
     (\<forall>f t xs w. fst (sc_process sc f t xs res w) = g f t xs) \<and>
     (\<forall>si < length (v2_stages plan). ss_kind (v2_stages plan ! si) \<noteq> ''environment'' \<and>
        (\<forall>d \<in> set (ss_inputs (v2_stages plan ! si)). 0 \<le> d \<and> d < int si) \<and>
        (\<forall>t \<in> set (ss_tasks (v2_stages plan ! si)). \<exists>tid. v2_task_id sha plan (int si) t = Inr tid))"

text \<open>
  What is assumed of plans that use one store: tasks that have one id are the same task of the same stage, which reads
  the same stages. The id itself does not say so: it covers neither a stage's inputs nor the stages before it.
\<close>

definition ids_agree :: "(string \<Rightarrow> string) \<Rightarrow> 'f interpreter \<Rightarrow> 'f durable_plan_v2 \<Rightarrow> 'f durable_plan_v2 \<Rightarrow> bool" where
  "ids_agree sha env P Q \<longleftrightarrow>
     (\<forall>si < length (v2_stages P). \<forall>t \<in> set (ss_tasks (v2_stages P ! si)).
      \<forall>sj < length (v2_stages Q). \<forall>u \<in> set (ss_tasks (v2_stages Q ! sj)). \<forall>tid.
        v2_task_id sha P (int si) t = Inr tid \<longrightarrow> v2_task_id sha Q (int sj) u = Inr tid \<longrightarrow>
        sj = si \<and> u = t \<and> take si (v2_stages P) = take si (v2_stages Q) \<and> ss_inputs (v2_stages P ! si) = ss_inputs (v2_stages Q ! si) \<and>
        op_resolve env (ss_process (v2_stages P ! si)) = op_resolve env (ss_process (v2_stages Q ! si)))"

definition sharing ::
  "(string \<Rightarrow> string) \<Rightarrow> ('f, 'r, 'w) stage_callables \<Rightarrow> 'r \<Rightarrow> 'f durable_plan_v2 set \<Rightarrow> ('f \<Rightarrow> task \<Rightarrow> string list \<Rightarrow> string result) \<Rightarrow> bool" where
  "sharing sha sc res plans g \<longleftrightarrow> (\<forall>P \<in> plans. staged_definite sha sc res P g) \<and> (\<forall>P \<in> plans. \<forall>Q \<in> plans. ids_agree sha (sc_env sc) P Q)"

definition block_sound ::
  "(string \<Rightarrow> string) \<Rightarrow> 'f interpreter \<Rightarrow> 'f durable_plan_v2 set \<Rightarrow> ('f \<Rightarrow> task \<Rightarrow> string list \<Rightarrow> string result) \<Rightarrow> journal_entry \<Rightarrow> bool" where
  "block_sound sha env plans g e \<longleftrightarrow>
     (if je_stage e = ''environment''
      then starts_with (env_prefix sha []) (je_task_id e) \<longrightarrow> (\<exists>n b. 0 \<le> n \<and> je_task_id e = env_record_id (env_prefix sha []) n b)
      else \<forall>plan \<in> plans. \<forall>si < length (v2_stages plan). \<forall>t \<in> set (ss_tasks (v2_stages plan ! si)).
        v2_task_id sha plan (int si) t = Inr (je_task_id e) \<longrightarrow>
          (\<exists>p. block_of env g (v2_stages plan) si t = Inr p \<and> je_blob e = sha p))"

lemma staged_definiteD:
  assumes "staged_definite sha sc res plan g"
  shows "fst (sc_process sc f t xs res w) = g f t xs"
    and "si < length (v2_stages plan) \<Longrightarrow> ss_kind (v2_stages plan ! si) \<noteq> ''environment''"
    and "si < length (v2_stages plan) \<Longrightarrow> d \<in> set (ss_inputs (v2_stages plan ! si)) \<Longrightarrow> 0 \<le> d \<and> d < int si"
    and "si < length (v2_stages plan) \<Longrightarrow> t \<in> set (ss_tasks (v2_stages plan ! si)) \<Longrightarrow> \<exists>tid. v2_task_id sha plan (int si) t = Inr tid"
  using assms unfolding staged_definite_def by blast+

lemma sharing_definite: "sharing sha sc res plans g \<Longrightarrow> plan \<in> plans \<Longrightarrow> staged_definite sha sc res plan g"
  by (simp add: sharing_def)

lemma agreed_block:
  assumes "ids_agree sha env P Q" "si < length (v2_stages P)" "t \<in> set (ss_tasks (v2_stages P ! si))"
    and "sj < length (v2_stages Q)" "u \<in> set (ss_tasks (v2_stages Q ! sj))"
    and "v2_task_id sha P (int si) t = Inr tid" "v2_task_id sha Q (int sj) u = Inr tid"
  shows "block_of env g (v2_stages Q) sj u = block_of env g (v2_stages P) si t"
proof -
  from assms have "sj = si \<and> u = t \<and> take si (v2_stages P) = take si (v2_stages Q) \<and> ss_inputs (v2_stages P ! si) = ss_inputs (v2_stages Q ! si) \<and>
      op_resolve env (ss_process (v2_stages P ! si)) = op_resolve env (ss_process (v2_stages Q ! si))"
    unfolding ids_agree_def by blast
  then show ?thesis by (simp add: block_of_def)
qed

lemma block_sound_done:
  assumes "sharing sha sc res plans g" "plan \<in> plans" "si < length (v2_stages plan)" "t \<in> set (ss_tasks (v2_stages plan ! si))"
    and "v2_task_id sha plan (int si) t = Inr (je_task_id e)" "je_stage e \<noteq> ''environment''"
    and "block_of (sc_env sc) g (v2_stages plan) si t = Inr p" "je_blob e = sha p"
  shows "block_sound sha (sc_env sc) plans g e"
proof -
  have "block_of (sc_env sc) g (v2_stages Q) sj u = Inr p"
    if "Q \<in> plans" "sj < length (v2_stages Q)" "u \<in> set (ss_tasks (v2_stages Q ! sj))" "v2_task_id sha Q (int sj) u = Inr (je_task_id e)" for Q sj u
  proof -
    have "ids_agree sha (sc_env sc) plan Q" using assms(1,2) that(1) by (simp add: sharing_def)
    from agreed_block [OF this assms(3,4) that(2,3) assms(5) that(4)] assms(7) show ?thesis by simp
  qed
  with assms(6,8) show ?thesis by (simp add: block_sound_def)
qed

lemma block_soundD:
  assumes "block_sound sha env plans g e" "je_stage e \<noteq> ''environment''" "plan \<in> plans" "si < length (v2_stages plan)"
    and "t \<in> set (ss_tasks (v2_stages plan ! si))" "v2_task_id sha plan (int si) t = Inr (je_task_id e)"
  obtains p where "block_of env g (v2_stages plan) si t = Inr p" "je_blob e = sha p"
  using assms(1) [unfolded block_sound_def if_not_P [OF assms(2)]] assms(3-6) that by blast

lemma staged_from_append: "staged_from env g (xs @ ys) acc = result_bind (staged_from env g xs acc) (staged_from env g ys)"
  by (induction xs arbitrary: acc) (simp_all add: result_bind_def split: sum.split)

lemma staged_from_length: "staged_from env g ss acc = Inr pss \<Longrightarrow> length pss = length acc + length ss"
  by (induction ss arbitrary: acc) (force simp: result_bind_Inr_iff)+

text \<open>The dictionaries of finished stages hold the reference's payloads and their hashes.\<close>

definition holds_blocks :: "(string \<Rightarrow> string) \<Rightarrow> shuffle_blocks \<Rightarrow> string list list \<Rightarrow> bool" where
  "holds_blocks sha blocks acc \<longleftrightarrow>
     (\<forall>d. map_of (sb_payloads blocks) d = (if 0 \<le> d \<and> d < int (length acc) then Some (acc ! nat d) else None)) \<and>
     (\<forall>d. map_of (sb_hashes blocks) d = (if 0 \<le> d \<and> d < int (length acc) then Some (map sha (acc ! nat d)) else None))"

lemma upstream_ok:
  assumes "holds_blocks sha blocks acc" "\<forall>d \<in> set inputs. 0 \<le> d \<and> d < int (length acc)"
  shows "\<exists>xss. traverse (py_index acc) inputs = Inr xss \<and> upstream_of (sb_payloads blocks) inputs = Inr (concat xss) \<and>
    (\<exists>hs. upstream_of (sb_hashes blocks) inputs = Inr hs)"
proof -
  have t: "traverse h inputs = Inr (map k inputs)" if "\<And>d. d \<in> set inputs \<Longrightarrow> h d = Inr (k d)" for h :: "int \<Rightarrow> 'x result" and k
    using that by (induction inputs) auto
  have "traverse (py_index acc) inputs = Inr (map (\<lambda>d. acc ! nat d) inputs)"
    by (rule t) (use assms(2) in \<open>auto simp: py_index_def Let_def\<close>)
  moreover have "traverse (\<lambda>d. case map_of (sb_payloads blocks) d of Some xs \<Rightarrow> Inr xs | None \<Rightarrow> Inl (KeyError (dec d))) inputs =
      (Inr (map (\<lambda>d. acc ! nat d) inputs) :: string list list result)"
    by (rule t) (use assms in \<open>auto simp: holds_blocks_def\<close>)
  moreover have "traverse (\<lambda>d. case map_of (sb_hashes blocks) d of Some xs \<Rightarrow> Inr xs | None \<Rightarrow> Inl (KeyError (dec d))) inputs =
      (Inr (map (\<lambda>d. map sha (acc ! nat d)) inputs) :: string list list result)"
    by (rule t) (use assms in \<open>auto simp: holds_blocks_def\<close>)
  ultimately show ?thesis by (simp add: upstream_of_def)
qed

lemma holds_blocks_update:
  assumes "holds_blocks sha blocks acc"
  shows "holds_blocks sha \<lparr>sb_payloads = AList.update (int (length acc)) ps (sb_payloads blocks),
     sb_hashes = AList.update (int (length acc)) (map sha ps) (sb_hashes blocks)\<rparr> (acc @ [ps])"
proof -
  have "nat d < length acc" if "0 \<le> d" "d < int (length acc)" for d using that by auto
  with assms show ?thesis by (auto simp: holds_blocks_def update_conv nth_append)
qed

definition tasks_done :: "resume_report \<Rightarrow> int" where
  "tasks_done rep = rr_executed rep + rr_skipped rep"

definition total_tasks :: "'f stage_spec list \<Rightarrow> int" where
  "total_tasks ss = int (length (concat (map ss_tasks ss)))"

context checkpoint_store
begin

definition sound :: "'f interpreter \<Rightarrow> 'f durable_plan_v2 set \<Rightarrow> ('f \<Rightarrow> task \<Rightarrow> string list \<Rightarrow> string result) \<Rightarrow> ('s, 'w) session \<Rightarrow> bool" where
  "sound env plans g s \<longleftrightarrow> valid (se_store s) \<and> (\<forall>e \<in> entries (se_store s). block_sound sha env plans g e)"

lemma stored_block_ok:
  assumes "\<not> collision sha" "sound env plans g s" "plan \<in> plans" "si < length (v2_stages plan)" "t \<in> set (ss_tasks (v2_stages plan ! si))"
    and tid: "v2_task_id sha plan (int si) t = Inr tid"
    and entry: "\<And>e. entry = Some e \<Longrightarrow> block_sound sha env plans g e \<and> je_task_id e = tid \<and> je_stage e \<noteq> ''environment''"
  shows "\<exists>x s'. stored_block ops entry s = (Inr x, s') \<and> sound env plans g s' \<and>
    (\<forall>b h. x = Some (b, h) \<longrightarrow> block_of env g (v2_stages plan) si t = Inr b \<and> h = sha b)"
proof (cases entry)
  case None
  with assms(2) show ?thesis by (simp add: stored_block_def act_eval)
next
  case (Some e)
  from entry [OF Some] have e: "block_sound sha env plans g e" "je_task_id e = tid" "je_stage e \<noteq> ''environment''" by simp_all
  from block_soundD [OF e(1,3) assms(3-5)] tid e(2) obtain p where p: "block_of env g (v2_stages plan) si t = Inr p" "je_blob e = sha p"
    by blast
  from get_ok [of "se_store s" "je_blob e"] assms(2) obtain r u where u: "so_get ops (je_blob e) (se_store s) = (Inr r, u)"
      "valid u" "entries u = entries (se_store s)" "\<forall>data. r = Some data \<longrightarrow> sha data = je_blob e" by (auto simp: sound_def)
  then have "r = Some d \<Longrightarrow> d = p" for d using p(2) assms(1) by (auto simp: collision_def)
  moreover have "stored_block ops entry s = (Inr (map_option (\<lambda>b. (b, je_blob e)) r), s\<lparr>se_store := u\<rparr>)"
    using u(1) Some by (simp add: stored_block_def on_store_def act_eval)
  moreover have "sound env plans g (s\<lparr>se_store := u\<rparr>)" using u(2,3) assms(2) by (simp add: sound_def)
  ultimately show ?thesis using p by (cases r) simp_all
qed

lemma commit_block_ok:
  assumes d: "sharing sha sc res plans g" "plan \<in> plans" and s: "sound (sc_env sc) plans g s" and si: "si < length (v2_stages plan)" "v2_stages plan ! si = stage"
    and t: "t \<in> set (ss_tasks stage)" "v2_task_id sha plan (int si) t = Inr tid"
    and p: "block_of (sc_env sc) g (v2_stages plan) si t = Inr p" and cfg: "sf_ops cfg = ops"
  shows "\<exists>x s'. commit_block cfg tid stage t hashes p sg s = (x, s') \<and> sound (sc_env sc) plans g s' \<and>
    ((\<exists>k. sf_kill cfg = Some k \<and> x = Inl (Interrupt interrupt_name)) \<or>
     (\<exists>sg'. x = Inr sg' \<and> sg_payloads sg' = sg_payloads sg @ [p] \<and> sg_hashes sg' = sg_hashes sg @ [sha p] \<and>
        rr_executed (sg_report sg') + rr_skipped (sg_report sg') = rr_executed (sg_report sg) + rr_skipped (sg_report sg) + 1))"
proof -
  from put_ok [of "se_store s" p] s obtain u where u: "so_put ops p (se_store s) = (Inr (sha p), u)" "valid u" "entries u = entries (se_store s)"
    by (auto simp: sound_def)
  let ?deps = "case sg_deps sg of Some deps \<Rightarrow> act_return deps
       | None \<Rightarrow> if hashes = [] then act_return []
           else act_bind (on_store (so_put ops (listing_bytes hashes))) (\<lambda>listing. act_return [listing])"
  from put_ok [OF u(2), of "listing_bytes hashes"] obtain v where
    v: "so_put ops (listing_bytes hashes) u = (Inr (sha (listing_bytes hashes)), v)" "valid v" "entries v = entries u" by blast
  have "\<exists>deps v. ?deps (s\<lparr>se_store := u\<rparr>) = (Inr deps, s\<lparr>se_store := v\<rparr>) \<and> valid v \<and> entries v = entries u"
    using u v by (cases "sg_deps sg") (auto simp: act_eval on_store_def)
  then obtain deps v where v: "?deps (s\<lparr>se_store := u\<rparr>) = (Inr deps, s\<lparr>se_store := v\<rparr>)" "valid v" "entries v = entries u" by blast
  let ?e = "\<lparr>je_task_id = tid, je_partition = partition_tag (task_partition t), je_blob = sha p, je_stage = ss_kind stage, je_deps = deps\<rparr>"
  from record_done_ok [OF v(2), of ?e] obtain w where w: "so_record_done ops ?e v = (Inr (), w)" "valid w" "entries w \<subseteq> insert ?e (entries v)" by blast
  have "ss_kind stage \<noteq> ''environment''" using staged_definiteD(2) [OF sharing_definite [OF d] si(1)] si(2) by simp
  then have "block_sound sha (sc_env sc) plans g ?e"
    using si t p by (intro block_sound_done [OF d]) simp_all
  with w u(3) v(3) s have snd: "sound (sc_env sc) plans g (s\<lparr>se_store := w\<rparr>)" by (auto simp: sound_def)
  define D where "D = ?deps"
  let ?sg = "\<lparr>sg_payloads = sg_payloads sg @ [p], sg_hashes = sg_hashes sg @ [sha p], sg_deps = Some deps,
      sg_report = (sg_report sg)\<lparr>rr_executed := rr_executed (sg_report sg) + 1\<rparr>, sg_committed = sg_committed sg + 1\<rparr>"
  have "commit_block cfg tid stage t hashes p sg s =
      ((case sf_kill cfg of Some k \<Rightarrow> if k \<le> sg_committed sg + 1 then Inl (Interrupt interrupt_name) else Inr ?sg | None \<Rightarrow> Inr ?sg),
       s\<lparr>se_store := w\<rparr>)"
    unfolding commit_block_def cfg D_def [symmetric]
    using u(1) v(1) [folded D_def] w(1) by (cases "sf_kill cfg") (simp_all add: act_eval on_store_def Let_def)
  with snd show ?thesis by (cases "sf_kill cfg") (auto simp: Let_def)
qed

text \<open>One stage: the payloads of the reference and their hashes, its first error, or a kill.\<close>

lemma stage_tasks_ok:
  assumes d: "sharing sha sc res plans g" "plan \<in> plans" "\<not> collision sha"
    and cfg: "cfg = \<lparr>sf_sha = sha, sf_plan = plan, sf_callables = sc, sf_ops = ops, sf_resources = res, sf_kill = kill\<rparr>"
    and c: "\<forall>t e. map_of (co_entries c) t = Some e \<longrightarrow> block_sound sha (sc_env sc) plans g e \<and> je_task_id e = t \<and> je_stage e \<noteq> ''environment''"
    and si: "si < length (v2_stages plan)" "v2_stages plan ! si = stage"
    and b: "\<forall>t. block_of (sc_env sc) g (v2_stages plan) si t = g f t inputs"
  shows "set ts \<subseteq> set (ss_tasks stage) \<Longrightarrow> sound (sc_env sc) plans g s \<Longrightarrow>
    \<exists>x s'. stage_tasks cfg c (int si) stage f inputs hashes ts sg s = (x, s') \<and> sound (sc_env sc) plans g s' \<and>
      ((\<exists>k. kill = Some k \<and> x = Inl (Interrupt interrupt_name)) \<or>
       (case traverse (\<lambda>t. g f t inputs) ts of
          Inl e \<Rightarrow> x = Inl e
        | Inr ps \<Rightarrow> \<exists>sg'. x = Inr sg' \<and> sg_payloads sg' = sg_payloads sg @ ps \<and> sg_hashes sg' = sg_hashes sg @ map sha ps \<and>
            tasks_done (sg_report sg') = tasks_done (sg_report sg) + int (length ts)))"
proof (induction ts arbitrary: sg s)
  case Nil
  then show ?case by (simp add: act_eval)
next
  case (Cons t ts)
  have t: "t \<in> set (ss_tasks (v2_stages plan ! si))" and ts: "set ts \<subseteq> set (ss_tasks stage)" using Cons.prems(1) si(2) by auto
  from staged_definiteD(4) [OF sharing_definite [OF d(1,2)] si(1) t] obtain tid where tid: "v2_task_id sha plan (int si) t = Inr tid" by blast
  from stored_block_ok [OF d(3) Cons.prems(2) d(2) si(1) t tid, of "map_of (co_entries c) tid"] c obtain x s1 where
    s1: "stored_block ops (map_of (co_entries c) tid) s = (Inr x, s1)" "sound (sc_env sc) plans g s1"
      "\<forall>b h. x = Some (b, h) \<longrightarrow> g f t inputs = Inr b \<and> h = sha b" using b by auto
  show ?case
  proof (cases x)
    case (Some bh)
    obtain bl h where bh: "bh = (bl, h)" by (cases bh)
    let ?sg = "sg\<lparr>sg_payloads := sg_payloads sg @ [bl], sg_hashes := sg_hashes sg @ [h],
               sg_report := (sg_report sg)\<lparr>rr_skipped := rr_skipped (sg_report sg) + 1\<rparr>\<rparr>"
    have run: "stage_tasks cfg c (int si) stage f inputs hashes (t # ts) sg s = stage_tasks cfg c (int si) stage f inputs hashes ts ?sg s1"
      using tid s1(1) Some bh by (simp add: cfg act_eval)
    from s1(3) Some bh have "g f t inputs = Inr bl" "h = sha bl" by simp_all
    with run Cons.IH [OF ts s1(2), of ?sg] show ?thesis
      by (cases "traverse (\<lambda>t. g f t inputs) ts") (simp_all add: tasks_done_def algebra_simps)
  next
    case None
    obtain r w where w: "sc_process sc f t inputs res (se_world s1) = (r, w)" by fastforce
    with staged_definiteD(1) [OF sharing_definite [OF d(1,2)], of f t inputs "se_world s1"] have r: "r = g f t inputs" by simp
    let ?s2 = "s1\<lparr>se_world := w\<rparr>"
    have s2: "sound (sc_env sc) plans g ?s2" using s1(2) by (simp add: sound_def)
    show ?thesis
    proof (cases "g f t inputs")
      case (Inl e)
      with w r tid s1(1) None s2 show ?thesis by (simp add: cfg act_eval on_world_def)
    next
      case (Inr p)
      have bp: "block_of (sc_env sc) g (v2_stages plan) si t = Inr p" using b Inr by simp
      have cf: "sf_ops cfg = ops" "sf_kill cfg = kill" by (simp_all add: cfg)
      from commit_block_ok [OF d(1,2) s2 si _ tid bp cf(1), of hashes sg] t si(2) cf(2) obtain y s3 where
        s3: "commit_block cfg tid stage t hashes p sg ?s2 = (y, s3)" "sound (sc_env sc) plans g s3"
          "(\<exists>k. kill = Some k \<and> y = Inl (Interrupt interrupt_name)) \<or>
           (\<exists>sg'. y = Inr sg' \<and> sg_payloads sg' = sg_payloads sg @ [p] \<and> sg_hashes sg' = sg_hashes sg @ [sha p] \<and>
              tasks_done (sg_report sg') = tasks_done (sg_report sg) + 1)" by (auto simp: tasks_done_def)
      have run: "stage_tasks cfg c (int si) stage f inputs hashes (t # ts) sg s =
          (case y of Inl e \<Rightarrow> (Inl e, s3) | Inr sg' \<Rightarrow> stage_tasks cfg c (int si) stage f inputs hashes ts sg' s3)"
        using w r tid s1(1) None Inr s3(1) by (simp add: cfg act_eval on_world_def split: sum.split)
      from s3(3) show ?thesis
      proof
        assume "\<exists>k. kill = Some k \<and> y = Inl (Interrupt interrupt_name)"
        with run s3(2) show ?thesis by auto
      next
        assume "\<exists>sg'. y = Inr sg' \<and> sg_payloads sg' = sg_payloads sg @ [p] \<and> sg_hashes sg' = sg_hashes sg @ [sha p] \<and>
              tasks_done (sg_report sg') = tasks_done (sg_report sg) + 1"
        then obtain sg' where "y = Inr sg'" "sg_payloads sg' = sg_payloads sg @ [p]" "sg_hashes sg' = sg_hashes sg @ [sha p]"
              "tasks_done (sg_report sg') = tasks_done (sg_report sg) + 1" by blast
        with run Cons.IH [OF ts s3(2), of sg'] Inr show ?thesis
          by (cases "traverse (\<lambda>t. g f t inputs) ts") (simp_all add: algebra_simps)
      qed
    qed
  qed
qed

lemma run_stages_ok:
  assumes d: "sharing sha sc res plans g" "plan \<in> plans" "\<not> collision sha"
    and cfg: "cfg = \<lparr>sf_sha = sha, sf_plan = plan, sf_callables = sc, sf_ops = ops, sf_resources = res, sf_kill = kill\<rparr>"
    and c: "\<forall>t e. map_of (co_entries c) t = Some e \<longrightarrow> block_sound sha (sc_env sc) plans g e \<and> je_task_id e = t \<and> je_stage e \<noteq> ''environment''"
  shows "v2_stages plan = pre @ rest \<Longrightarrow> staged_from (sc_env sc) g pre [] = Inr acc \<Longrightarrow> holds_blocks sha blocks acc \<Longrightarrow>
    sound (sc_env sc) plans g s \<Longrightarrow>
    \<exists>x s'. run_stages cfg c (int (length pre)) rest blocks rep committed s = (x, s') \<and> sound (sc_env sc) plans g s' \<and>
      ((\<exists>k. kill = Some k \<and> x = Inl (Interrupt interrupt_name)) \<or>
       (case staged_from (sc_env sc) g rest acc of
          Inl e \<Rightarrow> x = Inl e
        | Inr pss \<Rightarrow> \<exists>blocks' rep'. x = Inr (blocks', rep') \<and> holds_blocks sha blocks' pss \<and> tasks_done rep' = tasks_done rep + total_tasks rest))"
proof (induction rest arbitrary: pre acc blocks rep committed s)
  case Nil
  then show ?case by (simp add: act_eval total_tasks_def)
next
  case (Cons stage rest)
  let ?env = "sc_env sc"
  have si: "length pre < length (v2_stages plan)" "v2_stages plan ! length pre = stage" using Cons.prems(1) by simp_all
  have len: "length acc = length pre" using staged_from_length [OF Cons.prems(2)] by simp
  show ?case
  proof (cases "op_resolve ?env (ss_process stage)")
    case (Inl e)
    with Cons.prems(4) show ?thesis by (simp add: cfg act_eval)
  next
    case f: (Inr f)
    from staged_definiteD(3) [OF sharing_definite [OF d(1,2)] si(1)] si(2) len have "\<forall>d \<in> set (ss_inputs stage). 0 \<le> d \<and> d < int (length acc)" by auto
    from upstream_ok [OF Cons.prems(3) this] obtain xss hs where up: "traverse (py_index acc) (ss_inputs stage) = Inr xss"
      "upstream_of (sb_payloads blocks) (ss_inputs stage) = Inr (concat xss)" "upstream_of (sb_hashes blocks) (ss_inputs stage) = Inr hs" by blast
    have b: "\<forall>t. block_of ?env g (v2_stages plan) (length pre) t = g f t (concat xss)"
      using Cons.prems(1,2) si(2) f up(1) by (simp add: block_of_def)
    let ?sg = "\<lparr>sg_payloads = [], sg_hashes = [], sg_deps = None, sg_report = rep, sg_committed = committed\<rparr>"
    from stage_tasks_ok [OF d cfg c si b subset_refl Cons.prems(4), of hs ?sg, unfolded stage_state.select_convs append_Nil]
    obtain x s1 where
      s1: "stage_tasks cfg c (int (length pre)) stage f (concat xss) hs (ss_tasks stage) ?sg s = (x, s1)" "sound ?env plans g s1"
      "(\<exists>k. kill = Some k \<and> x = Inl (Interrupt interrupt_name)) \<or>
       (case traverse (\<lambda>t. g f t (concat xss)) (ss_tasks stage) of
          Inl e \<Rightarrow> x = Inl e
        | Inr ps \<Rightarrow> \<exists>sg'. x = Inr sg' \<and> sg_payloads sg' = ps \<and> sg_hashes sg' = map sha ps \<and>
            tasks_done (sg_report sg') = tasks_done rep + int (length (ss_tasks stage)))" by blast
    have run: "run_stages cfg c (int (length pre)) (stage # rest) blocks rep committed s =
        (case x of Inl e \<Rightarrow> (Inl e, s1) | Inr sg \<Rightarrow>
           run_stages cfg c (int (length pre) + 1) rest
             \<lparr>sb_payloads = AList.update (int (length pre)) (sg_payloads sg) (sb_payloads blocks),
              sb_hashes = AList.update (int (length pre)) (sg_hashes sg) (sb_hashes blocks)\<rparr> (sg_report sg) (sg_committed sg) s1)"
      using f up(2,3) s1(1) by (simp add: cfg act_eval split: sum.split)
    from s1(3) show ?thesis
    proof
      assume "\<exists>k. kill = Some k \<and> x = Inl (Interrupt interrupt_name)"
      with run s1(2) show ?thesis by auto
    next
      assume r: "case traverse (\<lambda>t. g f t (concat xss)) (ss_tasks stage) of
          Inl e \<Rightarrow> x = Inl e
        | Inr ps \<Rightarrow> \<exists>sg'. x = Inr sg' \<and> sg_payloads sg' = ps \<and> sg_hashes sg' = map sha ps \<and>
            tasks_done (sg_report sg') = tasks_done rep + int (length (ss_tasks stage))"
      show ?thesis
      proof (cases "traverse (\<lambda>t. g f t (concat xss)) (ss_tasks stage)")
        case (Inl e)
        with r run s1(2) f up(1) show ?thesis by simp
      next
        case (Inr ps)
        with r obtain sg where sg: "x = Inr sg" "sg_payloads sg = ps" "sg_hashes sg = map sha ps"
            "tasks_done (sg_report sg) = tasks_done rep + int (length (ss_tasks stage))" by auto
        have p1: "v2_stages plan = (pre @ [stage]) @ rest" using Cons.prems(1) by simp
        have p2: "staged_from ?env g (pre @ [stage]) [] = Inr (acc @ [ps])"
          using Cons.prems(2) f up(1) Inr by (simp add: staged_from_append)
        let ?blocks = "\<lparr>sb_payloads = AList.update (int (length pre)) ps (sb_payloads blocks),
              sb_hashes = AList.update (int (length pre)) (map sha ps) (sb_hashes blocks)\<rparr>"
        have p3: "holds_blocks sha ?blocks (acc @ [ps])" using holds_blocks_update [OF Cons.prems(3), of ps] by (simp add: len)
        have reference: "staged_from ?env g (stage # rest) acc = staged_from ?env g rest (acc @ [ps])"
          using f up(1) Inr by simp
        have eq: "run_stages cfg c (int (length pre)) (stage # rest) blocks rep committed s =
            run_stages cfg c (int (length (pre @ [stage]))) rest ?blocks (sg_report sg) (sg_committed sg) s1"
          using run sg(1-3) by (simp add: add.commute)
        have tot: "tasks_done (sg_report sg) + total_tasks rest = tasks_done rep + total_tasks (stage # rest)"
          using sg(4) by (simp add: total_tasks_def)
        show ?thesis unfolding eq reference by (rule Cons.IH [OF p1 p2 p3 s1(2), of "sg_report sg" "sg_committed sg", unfolded tot])
      qed
    qed
  qed
qed

lemma run_shuffle_ok:
  assumes d: "sharing sha sc res plans g" "plan \<in> plans" "\<not> collision sha" and s: "sound (sc_env sc) plans g s"
  shows "\<exists>x s'. run_shuffle_resumable sha inst sc plan bound ops place res accept kill s = (x, s') \<and> sound (sc_env sc) plans g s' \<and>
    (accept \<longrightarrow> kill = None \<longrightarrow> bound = Inr () \<longrightarrow> result_bind x (\<lambda>r. Inr (sr_value r, tasks_done (sr_report r))) =
       result_bind (staged_from (sc_env sc) g (v2_stages plan) []) (\<lambda>pss.
         if pss = [] then Inl (KeyError (dec (- 1))) else Inr (map sha (last pss), total_tasks (v2_stages plan))))"
proof (cases bound)
  case (Inl e)
  with s show ?thesis by (simp add: run_shuffle_resumable_def act_eval)
next
  case (Inr y)
  let ?ss = "v2_stages plan" and ?env = "sc_env sc"
  from completed_ok [of "se_store s"] s obtain c t where c: "so_completed ops (se_store s) = (Inr c, t)" "valid t" "entries t = entries (se_store s)"
    "\<forall>k e. map_of (co_entries c) k = Some e \<longrightarrow> e \<in> entries (se_store s) \<and> je_task_id e = k \<and> je_stage e \<noteq> ''environment''"
    "\<forall>e \<in> set (co_environments c). e \<in> entries (se_store s) \<and> je_stage e = ''environment''"
    by (auto simp: sound_def)
  have es: "\<forall>e \<in> entries (se_store s). block_sound sha ?env plans g e" using s by (simp add: sound_def)
  have "\<forall>e \<in> set (co_environments c). env_sound (env_prefix sha []) e"
  proof
    fix e assume "e \<in> set (co_environments c)"
    with c(5) es have "je_stage e = ''environment''" "block_sound sha ?env plans g e" by simp_all
    then show "env_sound (env_prefix sha []) e" unfolding env_sound_def by (simp add: block_sound_def)
  qed
  from check_environment_ok [OF c(2) this, of inst accept] obtain x2 u n b where u: "check_environment sha inst ops c [] accept t = (x2, u)" "valid u"
    "accept \<longrightarrow> x2 = Inr ()" "0 \<le> n" "entries u \<subseteq> insert (environment_entry (env_record_id (env_prefix sha []) n b) b) (entries t)" by blast
  have "block_sound sha ?env plans g (environment_entry (env_record_id (env_prefix sha []) n b) b)"
    using u(4) by (auto simp: block_sound_def environment_entry_def)
  then have u6: "\<forall>e \<in> entries u. block_sound sha ?env plans g e" using es u(5) c(3) by blast
  let ?s1 = "s\<lparr>se_store := u\<rparr>"
  let ?ids = "all_task_ids sha plan"
  let ?cfg = "\<lparr>sf_sha = sha, sf_plan = plan, sf_callables = sc, sf_ops = ops, sf_resources = res, sf_kill = kill\<rparr>"
  let ?last = "int (length ?ss) - 1"
  have ids: "list_all (\<lambda>i. \<exists>t. i = Inr t) ?ids"
    using staged_definiteD(4) [OF sharing_definite [OF d(1,2)]] by (force simp: all_task_ids_def py_enumerate_def list_all_iff in_set_zip)
  from warn_unreused_ok [OF ids, of place c "length (concat (map ss_tasks ?ss))" "read_partitions plan" ?s1] obtain s2 where
    s2: "warn_unreused place c (length (concat (map ss_tasks ?ss))) (read_partitions plan) ?ids ?s1 = (Inr (), s2)" "se_store s2 = u" by auto
  then have g2: "sound ?env plans g s2" using u(2) u6 by (simp add: sound_def)
  have start: "run_shuffle_resumable sha inst sc plan bound ops place res accept kill s =
     (case x2 of Inl e \<Rightarrow> (Inl e, ?s1) | Inr _ \<Rightarrow>
       act_bind (run_stages ?cfg c 0 ?ss \<lparr>sb_payloads = [], sb_hashes = []\<rparr> new_report 0) (\<lambda>(blocks, rep).
          act_bind (act_lift (case map_of (sb_hashes blocks) ?last of Some hs \<Rightarrow> Inr hs | None \<Rightarrow> Inl (KeyError (dec ?last)))) (\<lambda>hs.
            act_return \<lparr>sr_value = hs, sr_report = rep\<rparr>)) s2)"
    using Inr c(1) u(1) s2(1) by (simp add: run_shuffle_resumable_def act_eval on_store_def Let_def split: sum.split)
  show ?thesis
  proof (cases x2)
    case (Inl e)
    with u start u6 show ?thesis by (auto simp: sound_def)
  next
    case x2: (Inr z)
    have centry: "\<forall>t e. map_of (co_entries c) t = Some e \<longrightarrow> block_sound sha ?env plans g e \<and> je_task_id e = t \<and> je_stage e \<noteq> ''environment''"
      using c(4) es by blast
    have h0: "holds_blocks sha \<lparr>sb_payloads = [], sb_hashes = []\<rparr> []" by (simp add: holds_blocks_def)
    have t0: "tasks_done new_report = 0" by (simp add: tasks_done_def new_report_def)
    have p0: "?ss = [] @ ?ss" "staged_from ?env g [] [] = Inr []" by simp_all
    from run_stages_ok [OF d refl centry p0 h0 g2, of kill new_report 0, unfolded t0 add_0 list.size of_nat_0]
    obtain x s3 where s3: "run_stages ?cfg c 0 ?ss \<lparr>sb_payloads = [], sb_hashes = []\<rparr> new_report 0 s2 = (x, s3)" "sound ?env plans g s3"
      "(\<exists>k. kill = Some k \<and> x = Inl (Interrupt interrupt_name)) \<or>
       (case staged_from ?env g ?ss [] of
          Inl e \<Rightarrow> x = Inl e
        | Inr pss \<Rightarrow> \<exists>blocks' rep'. x = Inr (blocks', rep') \<and> holds_blocks sha blocks' pss \<and> tasks_done rep' = total_tasks ?ss)" by blast
    obtain y where run: "run_shuffle_resumable sha inst sc plan bound ops place res accept kill s = (y, s3)"
      "y = result_bind x (\<lambda>(blocks, rep). result_bind (case map_of (sb_hashes blocks) ?last of Some hs \<Rightarrow> Inr hs | None \<Rightarrow> Inl (KeyError (dec ?last)))
             (\<lambda>hs. Inr \<lparr>sr_value = hs, sr_report = rep\<rparr>))"
      using start x2 s3(1) by (simp add: act_eval result_bind_def split: sum.split prod.split option.split)
    have "result_bind y (\<lambda>r. Inr (sr_value r, tasks_done (sr_report r))) =
       result_bind (staged_from ?env g ?ss []) (\<lambda>pss.
         if pss = [] then Inl (KeyError (dec (- 1))) else Inr (map sha (last pss), total_tasks ?ss))" if "kill = None"
    proof (cases "staged_from ?env g ?ss []")
      case (Inl e)
      with s3(3) that run(2) show ?thesis by simp
    next
      case (Inr pss)
      with s3(3) that obtain bs rep where x: "x = Inr (bs, rep)" "holds_blocks sha bs pss" "tasks_done rep = total_tasks ?ss" by auto
      have "length pss = length ?ss" using staged_from_length [OF Inr] by simp
      moreover have len: "nat ?last = length ?ss - Suc 0" by linarith
      ultimately have "length pss = length ?ss" by simp
      with x(2) have "map_of (sb_hashes bs) ?last = (if pss = [] then None else Some (map sha (last pss)))"
        using len by (auto simp: holds_blocks_def last_conv_nth)
      with x(1,3) run(2) Inr \<open>length pss = length ?ss\<close> show ?thesis by auto
    qed
    with run(1) s3(2) show ?thesis by blast
  qed
qed

end

section \<open>Staged runs after crashes\<close>

text \<open>
  The states a local store can be in that several staged plans use: never used, after any run of any of the plans
  (finished, raised or killed after any block, in any environment, by any node), with appends torn, with blobs
  lost or overwritten by anything, and with entries under ids of none of the plans.
\<close>

inductive staged_history :: "(string \<Rightarrow> string) \<Rightarrow> ('f, 'r, 'w) stage_callables \<Rightarrow> 'f durable_plan_v2 set \<Rightarrow> 'r \<Rightarrow>
    ('f \<Rightarrow> task \<Rightarrow> string list \<Rightarrow> string result) \<Rightarrow> local_store \<Rightarrow> bool"
  for sha sc plans res g where
  new_store: "local_valid t \<Longrightarrow> local_entries t = {} \<Longrightarrow> staged_history sha sc plans res g t"
| staged_ran: "staged_history sha sc plans res g (se_store s) \<Longrightarrow> plan \<in> plans \<Longrightarrow>
    run_shuffle_resumable sha inst sc plan bound (local_ops sha node) place res accept kill s = (x, s') \<Longrightarrow>
    staged_history sha sc plans res g (se_store s')"
| torn_block: "staged_history sha sc plans res g t \<Longrightarrow> plan \<in> plans \<Longrightarrow> si < length (v2_stages plan) \<Longrightarrow> tk \<in> set (ss_tasks (v2_stages plan ! si)) \<Longrightarrow>
    v2_task_id sha plan (int si) tk = Inr (je_task_id e) \<Longrightarrow> je_stage e \<noteq> ''environment'' \<Longrightarrow>
    block_of (sc_env sc) g (v2_stages plan) si tk = Inr p \<Longrightarrow> je_blob e = sha p \<Longrightarrow>
    staged_history sha sc plans res g (cut_append n (journal_name node) (done_record e) t)"
| torn_line: "staged_history sha sc plans res g t \<Longrightarrow> staged_history sha sc plans res g (cut_append n dead_letter_log d t)"
| damaged_blobs: "staged_history sha sc plans res g t \<Longrightarrow> staged_history sha sc plans res g (t\<lparr>ls_blobs := blobs, ls_bad := bad\<rparr>)"
| other_analysis: "staged_history sha sc plans res g t \<Longrightarrow> je_stage e \<noteq> ''environment'' \<Longrightarrow>
    (\<And>plan si tk. plan \<in> plans \<Longrightarrow> si < length (v2_stages plan) \<Longrightarrow> tk \<in> set (ss_tasks (v2_stages plan ! si)) \<Longrightarrow>
       v2_task_id sha plan (int si) tk \<noteq> Inr (je_task_id e)) \<Longrightarrow>
    staged_history sha sc plans res g (cut_append n (journal_name node) (done_record e) t)"

lemma cut_block_sound:
  assumes "local_valid t \<and> (\<forall>e \<in> local_entries t. block_sound sha env plans g e)" "block_sound sha env plans g e"
  shows "local_valid (cut_append n name (done_record e) t) \<and>
    (\<forall>e \<in> local_entries (cut_append n name (done_record e) t). block_sound sha env plans g e)"
  using assms cut_append_journal(1) [of t n name e] cut_append_journal(2) [of t _ n name e] by blast

lemma staged_history_sound:
  assumes d: "sharing sha sc res plans g" "\<not> collision sha" and h: "staged_history sha sc plans res g t"
  shows "local_valid t \<and> (\<forall>e \<in> local_entries t. block_sound sha (sc_env sc) plans g e)"
  using h
proof induction
  case (new_store t)
  then show ?case by simp
next
  case (staged_ran s plan inst bound node place accept kill x s')
  then have "local.sound sha (sc_env sc) plans g s" unfolding local.sound_def by blast
  from local.run_shuffle_ok [OF d(1) staged_ran.hyps(2) d(2) this, of inst bound node place accept kill] staged_ran.hyps(3) show ?case
    unfolding local.sound_def by auto
next
  case (torn_block t plan si tk e p n node)
  from cut_block_sound [OF torn_block.IH block_sound_done [OF d(1) torn_block.hyps(2-8)]] show ?case .
next
  case (torn_line t n l)
  with append_dead show ?case by simp
next
  case (damaged_blobs t blobs bad)
  then show ?case by simp
next
  case (other_analysis t e n node)
  then have "block_sound sha (sc_env sc) plans g e" by (simp add: block_sound_def)
  from cut_block_sound [OF other_analysis.IH this] show ?case .
qed

text \<open>
  C5. Staged resume after crashes, on a store that several staged plans use. The plans must agree on the ids they
  share: a task of one id is the same task of the same stage over the same stages before it. (The id alone does
  not ensure this: it covers no inputs, so a plan over other map partitions must not use the store.) Then,
  after any runs of the plans that were killed after any block or ended by an error, appends torn, blobs lost or
  corrupted and entries added under other ids, a run of any of the plans returns the hashes of exactly the
  last stage's payloads that a run without a store computes, or raises the first error that one raises, and
  accounts for every task once, as executed or as skipped.
\<close>
theorem staged_resume_after_crashes:
  assumes "sharing sha sc res plans g" "\<not> collision sha" "staged_history sha sc plans res g (se_store s)" "plan \<in> plans"
  shows "result_bind (fst (run_shuffle_resumable sha inst sc plan (Inr ()) (local_ops sha node) place res True None s))
      (\<lambda>r. Inr (sr_value r, tasks_done (sr_report r))) =
    result_bind (staged_from (sc_env sc) g (v2_stages plan) []) (\<lambda>pss.
      if pss = [] then Inl (KeyError (dec (- 1))) else Inr (map sha (last pss), total_tasks (v2_stages plan)))"
proof -
  have "local.sound sha (sc_env sc) plans g s"
    unfolding local.sound_def by (rule staged_history_sound [OF assms(1-3)])
  from local.run_shuffle_ok [OF assms(1,4,2) this, of inst "Inr ()" node place True None] show ?thesis by auto
qed

definition relay_calls :: "(nat, unit, unit) stage_callables" where
  "relay_calls = \<lparr>sc_env = relay_env, sc_process = \<lambda>f t xs r w. (relay f t xs, w)\<rparr>"

definition relay_run where
  "relay_run kill = run_shuffle_resumable (\<lambda>b. b) sample_installation relay_calls relay_plan (Inr ()) (local_ops (\<lambda>b. b) None) ''store'' () True kill"

definition relay_task :: "int \<Rightarrow> int \<Rightarrow> int \<Rightarrow> task" where
  "relay_task k a b = \<lparr>task_key = k, task_partition = mk_partition (if a < b then ''a'' else []) [] a b\<rparr>"

text \<open>The same two stages, and a third that reads the second.\<close>

definition relay_long :: "nat durable_plan_v2" where
  "relay_long = relay_plan\<lparr>v2_stages := v2_stages relay_plan @
     [\<lparr>ss_kind = ''reduce'', ss_inputs = [1], ss_process = relay_op 1, ss_routing = [], ss_tasks = [relay_task 0 0 0]\<rparr>]\<rparr>"

definition relay_long_run where
  "relay_long_run kill = run_shuffle_resumable (\<lambda>b. b) sample_installation relay_calls relay_long (Inr ()) (local_ops (\<lambda>b. b) None) ''store'' () True kill"

lemma relay_long_stages:
  "length (v2_stages relay_long) = 3" "v2_stages relay_long ! 0 = v2_stages relay_plan ! 0" "v2_stages relay_long ! 1 = v2_stages relay_plan ! 1"
  "v2_stages relay_long ! 2 = \<lparr>ss_kind = ''reduce'', ss_inputs = [1], ss_process = relay_op 1, ss_routing = [], ss_tasks = [relay_task 0 0 0]\<rparr>"
  "take 1 (v2_stages relay_long) = take 1 (v2_stages relay_plan)" "v2_ir relay_long = v2_ir relay_plan"
  by (simp_all add: relay_long_def relay_plan_def)

lemma relay_plan_stages:
  "length (v2_stages relay_plan) = 2" "ss_tasks (v2_stages relay_plan ! 0) = [relay_task 0 0 3, relay_task 1 3 10]"
  "ss_tasks (v2_stages relay_plan ! 1) = [relay_task 0 0 0]"
  "ss_kind (v2_stages relay_plan ! 0) = ''map_write''" "ss_kind (v2_stages relay_plan ! 1) = ''reduce''"
  "ss_inputs (v2_stages relay_plan ! 0) = []" "ss_inputs (v2_stages relay_plan ! 1) = [0]"
  by (simp_all add: relay_plan_def relay_task_def)

lemma relay_long_same: "si < 2 \<Longrightarrow> v2_task_id sha relay_long (int si) t = v2_task_id sha relay_plan (int si) t"
  by (auto simp: v2_task_id_def v2_task_parts_def py_index_def less_2_cases_iff
    relay_long_stages [unfolded One_nat_def] relay_plan_stages [unfolded One_nat_def])

lemma relay_parts:
  "\<exists>ps. v2_task_parts relay_plan 0 (relay_task 0 0 3) = Inr ps \<and> framable ps \<and> ps ! 2 = dec 0 \<and> ps ! 7 = dec 0"
  "\<exists>ps. v2_task_parts relay_plan 0 (relay_task 1 3 10) = Inr ps \<and> framable ps \<and> ps ! 2 = dec 0 \<and> ps ! 7 = dec 1"
  "\<exists>ps. v2_task_parts relay_plan 1 (relay_task 0 0 0) = Inr ps \<and> framable ps \<and> ps ! 2 = dec 1 \<and> ps ! 7 = dec 0"
  "\<exists>ps. v2_task_parts relay_long 2 (relay_task 0 0 0) = Inr ps \<and> framable ps \<and> ps ! 2 = dec 2 \<and> ps ! 7 = dec 0"
proof -
  have l: "length (partition_bytes (mk_partition ''a'' [] 0 3)) = 52" "length (partition_bytes (mk_partition ''a'' [] 3 10)) = 53"
    "length (partition_bytes (mk_partition [] [] 0 0)) = 51" "length (dumps (dict_json (\<lambda>v. v) [])) = 2"
    "length (dec 0) = 1" "length (dec 1) = 1" "length (dec 2) = 1" by code_simp+
  note defs = v2_task_parts_def relay_plan_def relay_task_def py_index_def op_identity_def relay_op_def framable_def utf8_def utf8_char_def
    task_domain_v2_def
  show "\<exists>ps. v2_task_parts relay_plan 0 (relay_task 0 0 3) = Inr ps \<and> framable ps \<and> ps ! 2 = dec 0 \<and> ps ! 7 = dec 0"
    using l by (simp add: defs)
  show "\<exists>ps. v2_task_parts relay_plan 0 (relay_task 1 3 10) = Inr ps \<and> framable ps \<and> ps ! 2 = dec 0 \<and> ps ! 7 = dec 1"
    using l by (simp add: defs)
  show "\<exists>ps. v2_task_parts relay_plan 1 (relay_task 0 0 0) = Inr ps \<and> framable ps \<and> ps ! 2 = dec 1 \<and> ps ! 7 = dec 0"
    using l by (simp add: defs)
  show "\<exists>ps. v2_task_parts relay_long 2 (relay_task 0 0 0) = Inr ps \<and> framable ps \<and> ps ! 2 = dec 2 \<and> ps ! 7 = dec 0"
    using l by (simp add: defs relay_long_def)
qed

lemma relay_ids:
  obtains x y z u where "v2_task_id (\<lambda>b. b) relay_plan 0 (relay_task 0 0 3) = Inr x" "v2_task_id (\<lambda>b. b) relay_plan 0 (relay_task 1 3 10) = Inr y"
    "v2_task_id (\<lambda>b. b) relay_plan 1 (relay_task 0 0 0) = Inr z" "v2_task_id (\<lambda>b. b) relay_long 2 (relay_task 0 0 0) = Inr u"
    "distinct [x, y, z, u]"
proof -
  from relay_parts obtain ps qs rs us where
    p: "v2_task_parts relay_plan 0 (relay_task 0 0 3) = Inr ps" "framable ps" "ps ! 2 = dec 0" "ps ! 7 = dec 0"
    and q: "v2_task_parts relay_plan 0 (relay_task 1 3 10) = Inr qs" "framable qs" "qs ! 2 = dec 0" "qs ! 7 = dec 1"
    and r: "v2_task_parts relay_plan 1 (relay_task 0 0 0) = Inr rs" "framable rs" "rs ! 2 = dec 1" "rs ! 7 = dec 0"
    and u: "v2_task_parts relay_long 2 (relay_task 0 0 0) = Inr us" "framable us" "us ! 2 = dec 2" "us ! 7 = dec 0" by blast
  have ne: "sha256_hex (\<lambda>b. b) xs \<noteq> sha256_hex (\<lambda>b. b) ys" if "framable xs" "framable ys" "xs ! k \<noteq> ys ! k" for xs ys k
    using sha256_hex_inject [OF that(1,2), of "\<lambda>b. b"] that(3) by (auto simp: collision_def)
  have "ps ! 7 \<noteq> qs ! 7" "ps ! 2 \<noteq> rs ! 2" "qs ! 2 \<noteq> rs ! 2" "ps ! 2 \<noteq> us ! 2" "qs ! 2 \<noteq> us ! 2" "rs ! 2 \<noteq> us ! 2"
    using p q r u by simp_all
  then have "sha256_hex (\<lambda>b. b) ps \<noteq> sha256_hex (\<lambda>b. b) qs" "sha256_hex (\<lambda>b. b) ps \<noteq> sha256_hex (\<lambda>b. b) rs"
    "sha256_hex (\<lambda>b. b) qs \<noteq> sha256_hex (\<lambda>b. b) rs" "sha256_hex (\<lambda>b. b) ps \<noteq> sha256_hex (\<lambda>b. b) us"
    "sha256_hex (\<lambda>b. b) qs \<noteq> sha256_hex (\<lambda>b. b) us" "sha256_hex (\<lambda>b. b) rs \<noteq> sha256_hex (\<lambda>b. b) us"
    using ne p(2) q(2) r(2) u(2) by blast+
  then show ?thesis by (intro that) (simp_all add: v2_task_id_def p(1) q(1) r(1) u(1))
qed

lemma relay_sharing: "sharing (\<lambda>b. b) relay_calls () {relay_plan, relay_long} relay"
proof -
  let ?a = "relay_task 0 0 3" and ?b = "relay_task 1 3 10" and ?c = "relay_task 0 0 0"
  obtain x y z u where ids: "v2_task_id (\<lambda>b. b) relay_plan 0 ?a = Inr x" "v2_task_id (\<lambda>b. b) relay_plan 0 ?b = Inr y"
    "v2_task_id (\<lambda>b. b) relay_plan 1 ?c = Inr z" "v2_task_id (\<lambda>b. b) relay_long 2 ?c = Inr u" "distinct [x, y, z, u]"
    by (rule relay_ids)
  have long: "v2_task_id (\<lambda>b. b) relay_long 0 t = v2_task_id (\<lambda>b. b) relay_plan 0 t"
    "v2_task_id (\<lambda>b. b) relay_long 1 t = v2_task_id (\<lambda>b. b) relay_plan 1 t" for t
    using relay_long_same [of 0] relay_long_same [of 1] by simp_all
  have all2: "(\<forall>i < (2 :: nat). P i) \<longleftrightarrow> P 0 \<and> P 1" and all3: "(\<forall>i < (3 :: nat). P i) \<longleftrightarrow> P 0 \<and> P 1 \<and> P 2" for P
    by (auto simp: less_2_cases_iff less_Suc_eq numeral_3_eq_3 numeral_2_eq_2)
  note st = relay_long_stages [unfolded One_nat_def] relay_plan_stages [unfolded One_nat_def]
  have def: "staged_definite (\<lambda>b. b) relay_calls () relay_plan relay"
    unfolding staged_definite_def relay_plan_stages(1) all2 using ids by (simp add: st relay_calls_def)
  have defl: "staged_definite (\<lambda>b. b) relay_calls () relay_long relay"
    unfolding staged_definite_def relay_long_stages(1) all3 using ids long by (simp add: st relay_calls_def)
  note agree = ids_agree_def relay_plan_stages(1) relay_long_stages(1) all2 all3
  have "ids_agree (\<lambda>b. b) relay_env relay_plan relay_plan" "ids_agree (\<lambda>b. b) relay_env relay_plan relay_long"
    "ids_agree (\<lambda>b. b) relay_env relay_long relay_plan" "ids_agree (\<lambda>b. b) relay_env relay_long relay_long"
    unfolding agree using ids long by (auto simp: st)
  with def defl show ?thesis by (simp add: sharing_def relay_calls_def)
qed

text \<open>The longer plan is killed after two blocks; the shorter one then runs on the same store.\<close>

theorem staged_resume_after_crashes_witness:
  "result_bind (fst (relay_run None (snd (relay_long_run (Some 2) (count_session fresh_store))))) (\<lambda>r. Inr (sr_value r, tasks_done (sr_report r)))
   = Inr ([''37''], 3)"
proof -
  let ?plans = "{relay_plan, relay_long}"
  have "staged_history (\<lambda>b. b) relay_calls ?plans () relay (se_store (count_session fresh_store))"
    by (rule staged_history.new_store) (simp_all add: count_session_def)
  then have h: "staged_history (\<lambda>b. b) relay_calls ?plans () relay (se_store (snd (relay_long_run (Some 2) (count_session fresh_store))))"
    unfolding relay_long_run_def by (rule staged_history.staged_ran) (rule insertI2, rule singletonI, rule prod.collapse [symmetric])
  have t: "total_tasks (v2_stages relay_plan) = 3" "sc_env relay_calls = relay_env"
    by (simp_all add: total_tasks_def relay_plan_def relay_calls_def)
  show ?thesis
    using staged_resume_after_crashes [OF relay_sharing _ h, of relay_plan sample_installation None "''store''"] relay_stages(1) t
    by (simp add: collision_def relay_run_def)
qed

end
