(* ===== verification/Exchange.thy ===== *)
theory Exchange
  imports Encoding "HOL-Library.Multiset"
begin

text \<open>
  The block operations an array backend offers the exchange engine, the join kernel built on them
  (\<open>shuffle.py\<close>, \<open>join_blocks\<close>), and the contract \<open>exchange\<close> under which a hash-partitioned join is the join of the
  whole. The engine is backend-agnostic: it sees blocks only through these operations.
\<close>

section \<open>The operations and the kernel\<close>

record 'b block_ops =
  bo_partition :: "'b \<Rightarrow> string \<Rightarrow> int \<Rightarrow> 'b list result"
  bo_concat :: "'b list \<Rightarrow> 'b result"
  bo_slice :: "'b \<Rightarrow> int \<Rightarrow> int \<Rightarrow> 'b"
  bo_to_wire :: "'b \<Rightarrow> string result"
  bo_from_wire :: "string \<Rightarrow> 'b result"
  bo_match :: "'b \<Rightarrow> 'b \<Rightarrow> string list \<Rightarrow> string \<Rightarrow> (int list \<times> int list) result"
  bo_take :: "'b \<Rightarrow> int list \<Rightarrow> 'b result"
  bo_merge :: "'b \<Rightarrow> 'b \<Rightarrow> string list \<Rightarrow> 'b result"
  bo_len :: "'b \<Rightarrow> nat"

definition join_blocks :: "'b block_ops \<Rightarrow> 'b \<Rightarrow> 'b \<Rightarrow> string list \<Rightarrow> string \<Rightarrow> 'b result" where
  "join_blocks ops left right on how =
     (if how = ''positional'' then
        if bo_len ops left \<noteq> bo_len ops right
        then Inl (ValueError (''how='' @ py_repr ''positional'' @ '' got '' @ dec (int (bo_len ops left)) @ '' rows against '' @
               dec (int (bo_len ops right))))
        else bo_merge ops left right []
      else result_bind (bo_match ops left right on how) (\<lambda>(build_idx, probe_idx).
           result_bind (bo_take ops left build_idx) (\<lambda>l.
           result_bind (bo_take ops right probe_idx) (\<lambda>r. bo_merge ops l r on))))"

section \<open>The relational join\<close>

text \<open>The matching pairs of two key lists, in probe order, then the unmatched rows a side keeps.\<close>

definition keeps_left :: "string \<Rightarrow> bool" where
  "keeps_left how \<longleftrightarrow> how = ''left'' \<or> how = ''outer''"

definition keeps_right :: "string \<Rightarrow> bool" where
  "keeps_right how \<longleftrightarrow> how = ''right'' \<or> how = ''outer''"

definition matches :: "'k list \<Rightarrow> 'k list \<Rightarrow> string \<Rightarrow> (int \<times> int) list" where
  "matches bk pk how =
     concat (map (\<lambda>j. map (\<lambda>i. (int i, int j)) (List.filter (\<lambda>i. bk ! i = pk ! j) [0..<length bk])) [0..<length pk]) @
     (if keeps_left how then map (\<lambda>i. (int i, -1)) (List.filter (\<lambda>i. bk ! i \<notin> set pk) [0..<length bk]) else []) @
     (if keeps_right how then map (\<lambda>j. (-1, int j)) (List.filter (\<lambda>j. pk ! j \<notin> set bk) [0..<length pk]) else [])"

text \<open>The same on rows: \<open>m\<close> merges two rows, \<open>nl\<close> and \<open>nr\<close> stand for a missing one.\<close>

definition join_rows ::
  "('r \<Rightarrow> 'r \<Rightarrow> 'r) \<Rightarrow> 'r \<Rightarrow> 'r \<Rightarrow> ('r \<Rightarrow> 'k) \<Rightarrow> ('r \<Rightarrow> 'k) \<Rightarrow> string \<Rightarrow> 'r list \<Rightarrow> 'r list \<Rightarrow> 'r list" where
  "join_rows m nl nr kl kr how ls rs =
     concat (map (\<lambda>r. map (\<lambda>l. m l r) (List.filter (\<lambda>l. kl l = kr r) ls)) rs) @
     (if keeps_left how then map (\<lambda>l. m l nr) (List.filter (\<lambda>l. kl l \<notin> kr ` set rs) ls) else []) @
     (if keeps_right how then map (m nl) (List.filter (\<lambda>r. kr r \<notin> kl ` set ls) rs) else [])"

lemma filter_nth: "map (\<lambda>i. g (xs ! i)) (List.filter (\<lambda>i. P (xs ! i)) [0..<length xs]) = map g (List.filter P xs)"
proof (induction xs rule: rev_induct)
  case (snoc x xs)
  have "List.filter (\<lambda>i. P ((xs @ [x]) ! i)) [0..<length xs] = List.filter (\<lambda>i. P (xs ! i)) [0..<length xs]"
    by (rule filter_cong) (auto simp: nth_append)
  moreover have "map (\<lambda>i. g ((xs @ [x]) ! i)) (List.filter (\<lambda>i. P (xs ! i)) [0..<length xs]) =
      map (\<lambda>i. g (xs ! i)) (List.filter (\<lambda>i. P (xs ! i)) [0..<length xs])"
    by (auto simp: nth_append)
  ultimately show ?case using snoc by simp
qed simp

lemma map_nth_upt: "map (\<lambda>i. g (xs ! i)) [0..<length xs] = map g xs"
  using filter_nth [of g xs "\<lambda>_. True"] by simp

lemma join_rows_matches:
  "map (\<lambda>(i, j). m (if i < 0 then nl else ls ! nat i) (if j < 0 then nr else rs ! nat j)) (matches (map kl ls) (map kr rs) how) =
     join_rows m nl nr kl kr how ls rs"
proof -
  have inner: "concat (map (\<lambda>j. map (\<lambda>i. m (ls ! i) (rs ! j)) (List.filter (\<lambda>i. map kl ls ! i = map kr rs ! j) [0..<length ls])) [0..<length rs]) =
      concat (map (\<lambda>r. map (\<lambda>l. m l r) (List.filter (\<lambda>l. kl l = kr r) ls)) rs)"
  proof -
    have "map (\<lambda>i. m (ls ! i) r) (List.filter (\<lambda>i. map kl ls ! i = k) [0..<length ls]) = map (\<lambda>l. m l r) (List.filter (\<lambda>l. kl l = k) ls)" for r k
    proof -
      have "List.filter (\<lambda>i. map kl ls ! i = k) [0..<length ls] = List.filter (\<lambda>i. kl (ls ! i) = k) [0..<length ls]"
        by (rule filter_cong) auto
      then show ?thesis using filter_nth [of "\<lambda>l. m l r" ls "\<lambda>l. kl l = k"] by simp
    qed
    then have "map (\<lambda>j. map (\<lambda>i. m (ls ! i) (rs ! j)) (List.filter (\<lambda>i. map kl ls ! i = map kr rs ! j) [0..<length ls])) [0..<length rs] =
        map (\<lambda>j. map (\<lambda>l. m l (rs ! j)) (List.filter (\<lambda>l. kl l = kr (rs ! j)) ls)) [0..<length rs]"
      by (intro map_cong) auto
    then show ?thesis using map_nth_upt [of "\<lambda>r. map (\<lambda>l. m l r) (List.filter (\<lambda>l. kl l = kr r) ls)" rs] by simp
  qed
  have lefts: "map (\<lambda>i. m (ls ! i) nr) (List.filter (\<lambda>i. map kl ls ! i \<notin> kr ` set rs) [0..<length ls]) =
      map (\<lambda>l. m l nr) (List.filter (\<lambda>l. kl l \<notin> kr ` set rs) ls)"
  proof -
    have "List.filter (\<lambda>i. map kl ls ! i \<notin> kr ` set rs) [0..<length ls] = List.filter (\<lambda>i. kl (ls ! i) \<notin> kr ` set rs) [0..<length ls]"
      by (rule filter_cong) auto
    then show ?thesis using filter_nth [of "\<lambda>l. m l nr" ls "\<lambda>l. kl l \<notin> kr ` set rs"] by simp
  qed
  have rights: "map (\<lambda>j. m nl (rs ! j)) (List.filter (\<lambda>j. map kr rs ! j \<notin> kl ` set ls) [0..<length rs]) =
      map (m nl) (List.filter (\<lambda>r. kr r \<notin> kl ` set ls) rs)"
  proof -
    have "List.filter (\<lambda>j. map kr rs ! j \<notin> kl ` set ls) [0..<length rs] = List.filter (\<lambda>j. kr (rs ! j) \<notin> kl ` set ls) [0..<length rs]"
      by (rule filter_cong) auto
    then show ?thesis using filter_nth [of "m nl" rs "\<lambda>r. kr r \<notin> kl ` set ls"] by simp
  qed
  show ?thesis
    using lefts rights by (simp add: matches_def join_rows_def map_concat o_def inner)
qed

section \<open>Joining part by part\<close>

lemma mset_concat_map: "mset (concat (map f xs)) = (\<Sum>x \<in># mset xs. mset (f x))"
  by (induction xs) auto

lemma sum_upt_single: "(\<Sum>d \<in># mset [0..<P]. if d = k then A else {#}) = (if k < P then A else {#})"
  by (induction P) auto

text \<open>Rows sent to exactly one of \<open>P\<close> places are all there, once.\<close>

lemma mset_parts:
  assumes "\<And>r. r \<in> set rs \<Longrightarrow> g r < (P :: nat)"
  shows "mset (concat (map (\<lambda>d. concat (map F (List.filter (\<lambda>r. g r = d) rs))) [0..<P])) = mset (concat (map F rs))"
  using assms
proof (induction rs)
  case (Cons r rs)
  have split: "mset (concat (map F (List.filter (\<lambda>x. g x = d) (r # rs)))) =
      (if d = g r then mset (F r) else {#}) + mset (concat (map F (List.filter (\<lambda>x. g x = d) rs)))" for d
    by simp
  have one: "(\<Sum>d \<in># mset [0..<P]. if d = g r then mset (F r) else {#}) = mset (F r)"
    using Cons.prems [of r] unfolding sum_upt_single by simp
  have "mset (concat (map (\<lambda>d. concat (map F (List.filter (\<lambda>x. g x = d) (r # rs)))) [0..<P])) =
      (\<Sum>d \<in># mset [0..<P]. (if d = g r then mset (F r) else {#}) + mset (concat (map F (List.filter (\<lambda>x. g x = d) rs))))"
    by (simp only: mset_concat_map [of "\<lambda>d. concat (map F (List.filter (\<lambda>x. g x = d) (r # rs)))"] split)
  also have "\<dots> = mset (F r) + (\<Sum>d \<in># mset [0..<P]. mset (concat (map F (List.filter (\<lambda>x. g x = d) rs))))"
    by (simp only: sum_mset.distrib one)
  also have "\<dots> = mset (F r) + mset (concat (map F rs))"
    using Cons.IH Cons.prems by (simp only: mset_concat_map [symmetric] list.set_intros)
  finally show ?case by simp
qed simp

lemma mset_filter_parts:
  "(\<And>r. r \<in> set rs \<Longrightarrow> g r < (P :: nat)) \<Longrightarrow> mset (concat (map (\<lambda>d. List.filter (\<lambda>r. g r = d) rs) [0..<P])) = mset rs"
  using mset_parts [of rs g P "\<lambda>x. [x]"] by simp

lemma mset_concat_append:
  "mset (concat (map (\<lambda>d. f d @ g d) xs)) = mset (concat (map f xs)) + mset (concat (map g xs))"
  by (induction xs) auto

lemma map_filter_parts: "map f (List.filter p xs) = concat (map (\<lambda>x. if p x then [f x] else []) xs)"
  by (induction xs) auto

lemma concat_map_Nil: "concat (map (\<lambda>d. []) xs) = []"
  by (induction xs) auto

text \<open>A join whose key decides the place can be done place by place.\<close>

lemma join_rows_parts:
  fixes gl gr :: "'r \<Rightarrow> nat"
  assumes "\<And>l. l \<in> set ls \<Longrightarrow> gl l < P" "\<And>r. r \<in> set rs \<Longrightarrow> gr r < P"
    and key: "\<And>l r. l \<in> set ls \<Longrightarrow> r \<in> set rs \<Longrightarrow> kl l = kr r \<Longrightarrow> gl l = gr r"
  shows "mset (concat (map (\<lambda>d. join_rows m nl nr kl kr how (List.filter (\<lambda>l. gl l = d) ls) (List.filter (\<lambda>r. gr r = d) rs)) [0..<P])) =
    mset (join_rows m nl nr kl kr how ls rs)"
proof -
  let ?L = "\<lambda>d. List.filter (\<lambda>l. gl l = d) ls" and ?R = "\<lambda>d. List.filter (\<lambda>r. gr r = d) rs"
  have inner: "concat (map (\<lambda>r. map (\<lambda>l. m l r) (List.filter (\<lambda>l. kl l = kr r) (?L d))) (?R d)) =
      concat (map (\<lambda>r. map (\<lambda>l. m l r) (List.filter (\<lambda>l. kl l = kr r) ls)) (?R d))" for d
  proof -
    have "List.filter (\<lambda>l. kl l = kr r) (?L d) = List.filter (\<lambda>l. kl l = kr r) ls" if "r \<in> set (?R d)" for r
      using that key by (auto intro!: filter_cong simp: filter_filter)
    then show ?thesis by (intro arg_cong [of _ _ concat] map_cong) auto
  qed
  have left: "map (\<lambda>l. m l nr) (List.filter (\<lambda>l. kl l \<notin> kr ` set (?R d)) (?L d)) =
      concat (map (\<lambda>l. if kl l \<notin> kr ` set rs then [m l nr] else []) (?L d))" for d
  proof -
    have "List.filter (\<lambda>l. kl l \<notin> kr ` set (?R d)) (?L d) = List.filter (\<lambda>l. kl l \<notin> kr ` set rs) (?L d)"
      using key by (auto intro!: filter_cong)
    then show ?thesis by (simp only: map_filter_parts)
  qed
  have right: "map (m nl) (List.filter (\<lambda>r. kr r \<notin> kl ` set (?L d)) (?R d)) =
      concat (map (\<lambda>r. if kr r \<notin> kl ` set ls then [m nl r] else []) (?R d))" for d
  proof -
    have "List.filter (\<lambda>r. kr r \<notin> kl ` set (?L d)) (?R d) = List.filter (\<lambda>r. kr r \<notin> kl ` set ls) (?R d)"
      using key by (auto intro!: filter_cong)
    then show ?thesis by (simp only: map_filter_parts)
  qed
  have a: "mset (concat (map (\<lambda>d. concat (map (\<lambda>r. map (\<lambda>l. m l r) (List.filter (\<lambda>l. kl l = kr r) ls)) (?R d))) [0..<P])) =
      mset (concat (map (\<lambda>r. map (\<lambda>l. m l r) (List.filter (\<lambda>l. kl l = kr r) ls)) rs))"
    by (rule mset_parts) (rule assms(2))
  have b: "mset (concat (map (\<lambda>d. concat (map (\<lambda>l. if kl l \<notin> kr ` set rs then [m l nr] else []) (?L d))) [0..<P])) =
      mset (concat (map (\<lambda>l. if kl l \<notin> kr ` set rs then [m l nr] else []) ls))"
    by (rule mset_parts) (rule assms(1))
  have c: "mset (concat (map (\<lambda>d. concat (map (\<lambda>r. if kr r \<notin> kl ` set ls then [m nl r] else []) (?R d))) [0..<P])) =
      mset (concat (map (\<lambda>r. if kr r \<notin> kl ` set ls then [m nl r] else []) rs))"
    by (rule mset_parts) (rule assms(2))
  have whole: "map (\<lambda>l. m l nr) (List.filter (\<lambda>l. kl l \<notin> kr ` set rs) ls) = concat (map (\<lambda>l. if kl l \<notin> kr ` set rs then [m l nr] else []) ls)"
    "map (m nl) (List.filter (\<lambda>r. kr r \<notin> kl ` set ls) rs) = concat (map (\<lambda>r. if kr r \<notin> kl ` set ls then [m nl r] else []) rs)"
    by (rule map_filter_parts)+
  show ?thesis
    unfolding join_rows_def inner left right whole
    by (cases "keeps_left how"; cases "keeps_right how") (simp_all only: if_True if_False mset_concat_append append_Nil2 mset_append concat_map_Nil a b c)
qed

section \<open>The contract of a backend\<close>

text \<open>
  \<open>good f b\<close>: \<open>b\<close> is a block of form \<open>f\<close> (its fields); \<open>rows b\<close> are its rows as a reader sees them; \<open>keyed b on\<close>:
  the fields \<open>on\<close> of \<open>b\<close> hide no value; \<open>joinable f g on\<close>: blocks of these forms can be joined on \<open>on\<close>.
\<close>

locale exchange =
  fixes ops :: "'b block_ops"
    and good :: "'f \<Rightarrow> 'b \<Rightarrow> bool" and rows :: "'b \<Rightarrow> 'r list" and keyed :: "'b \<Rightarrow> string list \<Rightarrow> bool"
    and dest :: "'f \<Rightarrow> string \<Rightarrow> int \<Rightarrow> 'r \<Rightarrow> nat" and key :: "'f \<Rightarrow> string list \<Rightarrow> 'r \<Rightarrow> 'k"
    and joinable :: "'f \<Rightarrow> 'f \<Rightarrow> string list \<Rightarrow> bool" and null :: "'f \<Rightarrow> 'r"
    and merge :: "'f \<Rightarrow> 'f \<Rightarrow> string list \<Rightarrow> 'r \<Rightarrow> 'r \<Rightarrow> 'r" and merged :: "'f \<Rightarrow> 'f \<Rightarrow> string list \<Rightarrow> 'f"
  assumes partition_law: "good f b \<Longrightarrow> keyed b [k] \<Longrightarrow> 0 < parts \<Longrightarrow>
      \<exists>bs. bo_partition ops b k parts = Inr bs \<and> length bs = nat parts \<and>
        (\<forall>d < nat parts. good f (bs ! d) \<and> rows (bs ! d) = List.filter (\<lambda>r. dest f k parts r = d) (rows b) \<and>
           (\<forall>on. keyed b on \<longrightarrow> keyed (bs ! d) on))"
    and dest_less: "0 < parts \<Longrightarrow> dest f k parts x < nat parts"
    and concat_law: "bs \<noteq> [] \<Longrightarrow> \<forall>b \<in> set bs. good f b \<Longrightarrow>
      \<exists>c. bo_concat ops bs = Inr c \<and> good f c \<and> rows c = concat (map rows bs) \<and> (\<forall>on. (\<forall>b \<in> set bs. keyed b on) \<longrightarrow> keyed c on)"
    and slice_law: "good f b \<Longrightarrow> good f (bo_slice ops b 0 0) \<and> rows (bo_slice ops b 0 0) = []"
    and wire_law: "good f b \<Longrightarrow> \<exists>w c. bo_to_wire ops b = Inr w \<and> bo_from_wire ops w = Inr c \<and> good f c \<and> rows c = rows b \<and>
        (\<forall>on. keyed b on \<longrightarrow> keyed c on)"
    and match_law: "good f l \<Longrightarrow> good g r \<Longrightarrow> keyed l on \<Longrightarrow> keyed r on \<Longrightarrow> joinable f g on \<Longrightarrow>
      bo_match ops l r on how = Inr (let ps = matches (map (key f on) (rows l)) (map (key g on) (rows r)) how in (map fst ps, map snd ps))"
    and take_law: "good f b \<Longrightarrow> \<forall>i \<in> set idx. i < int (length (rows b)) \<Longrightarrow>
      \<exists>c. bo_take ops b idx = Inr c \<and> good f c \<and> rows c = map (\<lambda>i. if i < 0 then null f else rows b ! nat i) idx"
    and merge_law: "good f l \<Longrightarrow> good g r \<Longrightarrow> joinable f g on \<Longrightarrow> length (rows l) = length (rows r) \<Longrightarrow>
      \<exists>c. bo_merge ops l r on = Inr c \<and> good (merged f g on) c \<and> rows c = map2 (merge f g on) (rows l) (rows r)"
    and key_dest: "joinable f g on \<Longrightarrow> k \<in> set on \<Longrightarrow> key f on x = key g on y \<Longrightarrow> dest f k parts x = dest g k parts y"
begin

lemma matches_bound:
  "(i, j) \<in> set (matches bk pk how) \<Longrightarrow> i < int (length bk) \<and> j < int (length pk)"
  by (auto simp: matches_def split: if_splits)

lemma join_blocks_rows:
  assumes "good f l" "good g r" "keyed l on" "keyed r on" "joinable f g on" "how \<noteq> ''positional''"
  shows "\<exists>c. join_blocks ops l r on how = Inr c \<and> good (merged f g on) c \<and>
    rows c = join_rows (merge f g on) (null f) (null g) (key f on) (key g on) how (rows l) (rows r)"
proof -
  let ?ps = "matches (map (key f on) (rows l)) (map (key g on) (rows r)) how"
  have b: "\<forall>i \<in> set (map fst ?ps). i < int (length (rows l))" "\<forall>j \<in> set (map snd ?ps). j < int (length (rows r))"
    using matches_bound [of _ _ "map (key f on) (rows l)" "map (key g on) (rows r)" how] by fastforce+
  from take_law [OF assms(1) b(1)] obtain lt where
    lt: "bo_take ops l (map fst ?ps) = Inr lt" "good f lt" "rows lt = map (\<lambda>i. if i < 0 then null f else rows l ! nat i) (map fst ?ps)" by blast
  from take_law [OF assms(2) b(2)] obtain rt where
    rt: "bo_take ops r (map snd ?ps) = Inr rt" "good g rt" "rows rt = map (\<lambda>i. if i < 0 then null g else rows r ! nat i) (map snd ?ps)" by blast
  from merge_law [OF lt(2) rt(2) assms(5)] lt(3) rt(3) obtain c where
    c: "bo_merge ops lt rt on = Inr c" "good (merged f g on) c" "rows c = map2 (merge f g on) (rows lt) (rows rt)" by auto
  have "rows c = map (\<lambda>(i, j). merge f g on (if i < 0 then null f else rows l ! nat i) (if j < 0 then null g else rows r ! nat j)) ?ps"
    unfolding c(3) lt(3) rt(3) by (simp add: zip_map1 zip_map2 zip_same_conv_map o_def case_prod_unfold)
  then have "rows c = join_rows (merge f g on) (null f) (null g) (key f on) (key g on) how (rows l) (rows r)"
    by (simp only: join_rows_matches)
  with c(1,2) lt(1) rt(1) match_law [OF assms(1-5), of how] assms(6) show ?thesis by (simp add: join_blocks_def Let_def)
qed

text \<open>Partitioned by a key field, joined place by place, put together: the join of the whole, as a multiset of rows.\<close>

lemma radix_join:
  assumes "good f l" "good g r" "keyed l on" "keyed r on" "keyed l [k]" "keyed r [k]" "joinable f g on" "how \<noteq> ''positional''"
    and "k \<in> set on" "0 < parts"
  shows "\<exists>ls rs js j. bo_partition ops l k parts = Inr ls \<and> bo_partition ops r k parts = Inr rs \<and>
    traverse (\<lambda>(a, b). join_blocks ops a b on how) (zip ls rs) = Inr js \<and> join_blocks ops l r on how = Inr j \<and>
    mset (concat (map rows js)) = mset (rows j)"
proof -
  from partition_law [OF assms(1,5,10)] obtain ls where ls: "bo_partition ops l k parts = Inr ls" "length ls = nat parts"
    "\<forall>d < nat parts. good f (ls ! d) \<and> rows (ls ! d) = List.filter (\<lambda>r. dest f k parts r = d) (rows l) \<and> (\<forall>on. keyed l on \<longrightarrow> keyed (ls ! d) on)"
    by blast
  from partition_law [OF assms(2,6,10)] obtain rs where rs: "bo_partition ops r k parts = Inr rs" "length rs = nat parts"
    "\<forall>d < nat parts. good g (rs ! d) \<and> rows (rs ! d) = List.filter (\<lambda>s. dest g k parts s = d) (rows r) \<and> (\<forall>on. keyed r on \<longrightarrow> keyed (rs ! d) on)"
    by blast
  let ?join = "join_rows (merge f g on) (null f) (null g) (key f on) (key g on) how"
  have one: "\<exists>c. join_blocks ops (ls ! d) (rs ! d) on how = Inr c \<and> rows c = ?join (rows (ls ! d)) (rows (rs ! d))" if "d < nat parts" for d
    using join_blocks_rows [of f "ls ! d" g "rs ! d" on how] that ls(3) rs(3) assms(3,4,7,8) by blast
  define J where "J d = projr (join_blocks ops (ls ! d) (rs ! d) on how)" for d
  let ?js = "map J [0..<nat parts]"
  have js: "join_blocks ops (ls ! d) (rs ! d) on how = Inr (J d) \<and> rows (J d) = ?join (rows (ls ! d)) (rows (rs ! d))" if "d < nat parts" for d
    using one [OF that] by (auto simp: J_def)
  have "traverse (\<lambda>(a, b). join_blocks ops a b on how) (zip ls rs) = traverse (\<lambda>d. join_blocks ops (ls ! d) (rs ! d) on how) [0..<nat parts]"
  proof -
    have "zip ls rs = map (\<lambda>d. (ls ! d, rs ! d)) [0..<nat parts]" using ls(2) rs(2) by (simp add: list_eq_iff_nth_eq)
    moreover have "traverse h (map q xs) = traverse (\<lambda>x. h (q x)) xs" for h :: "'b \<times> 'b \<Rightarrow> 'b result" and q and xs :: "nat list"
      by (induction xs) auto
    ultimately show ?thesis by simp
  qed
  also have "\<dots> = Inr ?js"
  proof -
    have "traverse h [0..<n] = Inr (map q [0..<n])" if "\<And>d. d < n \<Longrightarrow> h d = Inr (q d)" for h :: "nat \<Rightarrow> 'b result" and q n
      using that traverse_map_cong [of "[0..<n]" h "\<lambda>d. d" q] by simp
    then show ?thesis using js by simp
  qed
  finally have t: "traverse (\<lambda>(a, b). join_blocks ops a b on how) (zip ls rs) = Inr ?js" .
  have "map rows ?js = map (\<lambda>d. ?join (List.filter (\<lambda>r. dest f k parts r = d) (rows l)) (List.filter (\<lambda>s. dest g k parts s = d) (rows r))) [0..<nat parts]"
    using js ls(3) rs(3) by (simp add: list_eq_iff_nth_eq)
  moreover have "mset (concat (map (\<lambda>d. ?join (List.filter (\<lambda>r. dest f k parts r = d) (rows l)) (List.filter (\<lambda>s. dest g k parts s = d) (rows r))) [0..<nat parts]))
      = mset (?join (rows l) (rows r))"
    by (rule join_rows_parts) (rule dest_less [OF assms(10)], rule dest_less [OF assms(10)], rule key_dest [OF assms(7,9)])
  ultimately have "mset (concat (map rows ?js)) = mset (?join (rows l) (rows r))" by (simp only:)
  moreover obtain j where j: "join_blocks ops l r on how = Inr j" "rows j = ?join (rows l) (rows r)"
    using join_blocks_rows [OF assms(1-4,7,8)] by blast
  ultimately have "mset (concat (map rows ?js)) = mset (rows j)" by (simp only:)
  with t ls(1) rs(1) j(1) show ?thesis by blast
qed

end

end
