(* ===== verification/Shuffle_Stages.thy ===== *)
theory Shuffle_Stages
  imports Attribution Exchange Services
begin

text \<open>
  The stage processes of a staged plan (\<open>shuffle.py\<close>): \<open>_MapWrite\<close> reads a partition, evaluates the graph
  up to its side of the barrier and routes the rows to every destination; \<open>_Gather\<close> puts a
  destination's blocks together and evaluates the rest of the graph; \<open>_Fold\<close> combines the destinations'
  values; and how each takes service endpoints.

  \<open>'f\<close> are the code objects (factories, evaluators, reductions), \<open>'v\<close> the values of the array backend,
  \<open>'r\<close> a worker's resources, \<open>'w\<close> its world. A value that may be Python's \<open>None\<close> is a \<open>'v option\<close>. What
  \<open>pickle\<close> writes and reads, what the graph store (Rust) lists for its bytes and what a code object does
  when it is called are fields of \<open>worker_env\<close>.
\<close>

section \<open>What a worker runs on\<close>

datatype 'f backend_ref = ImportRef string | FactoryRef 'f

record 'v worker_backend =
  wb_arrays :: "'v array_backend"
  wb_blocks :: "'v block_ops"
  wb_adopt :: "('v option \<Rightarrow> 'v option result) option"
  wb_identity :: string

record ('f, 'v) worker_env =
  en_interpreter :: "'f interpreter"
  en_callable :: "'f \<Rightarrow> bool"
  en_make :: "'f \<Rightarrow> 'f result"
  en_resolved_from :: "'f \<Rightarrow> (string \<Rightarrow> 'f result) option"
  en_backend :: "'f \<Rightarrow> 'v worker_backend"
  en_graph :: "string \<Rightarrow> (ir_node list \<times> nat list) result"
  en_external :: "'f \<Rightarrow> 'v option list \<Rightarrow> 'v result"
  en_reduce :: "'f \<Rightarrow> 'v option list \<Rightarrow> 'v option result"
  en_combine :: "'f \<Rightarrow> 'v option \<Rightarrow> 'v option \<Rightarrow> 'v option result"
  en_empty :: "'f \<Rightarrow> 'v option result"
  en_hooks :: "('f, 'v option) hooks"
  en_sight :: "'v introspection"
  en_dumps :: "'v option \<Rightarrow> string result"
  en_loads :: "string \<Rightarrow> 'v option result"
  en_dumps_blocks :: "(int \<times> string) list \<Rightarrow> string"
  en_loads_blocks :: "string \<Rightarrow> (int \<times> string) list result"

text \<open>\<open>resolve_backend\<close> (\<open>aggregate.py\<close>): an import reference is resolved in the worker.\<close>

definition resolve_backend :: "('f, 'v) worker_env \<Rightarrow> 'f backend_ref \<Rightarrow> 'v worker_backend result" where
  "resolve_backend en ref =
     (case ref of
        FactoryRef f \<Rightarrow> result_bind (en_make en f) (\<lambda>b. Inr (en_backend en b))
      | ImportRef r \<Rightarrow>
          (case str_partition '':'' r of (mod_name, _, name) \<Rightarrow>
             result_bind (in_import (en_interpreter en) mod_name) (\<lambda>m.
             result_bind (in_getattr (en_interpreter en) m name) (\<lambda>obj.
             result_bind (if en_callable en obj then en_make en obj else Inr obj) (\<lambda>b.
               case en_resolved_from en b of
                 None \<Rightarrow> Inr (en_backend en b)
               | Some hook \<Rightarrow> result_bind (hook r) (\<lambda>b'. Inr (en_backend en b')))))))"

text \<open>\<open>_adopted\<close> and \<open>_Adopting\<close> (\<open>aggregate.py\<close>).\<close>

definition adopted :: "'v worker_backend \<Rightarrow> 'v option \<Rightarrow> 'v option result" where
  "adopted backend v = (case wb_adopt backend of None \<Rightarrow> Inr v | Some adopt \<Rightarrow> adopt v)"

definition adopting :: "('f, 'v) worker_env \<Rightarrow> 'f backend_ref option \<Rightarrow> 'v option result \<Rightarrow> 'v option result" where
  "adopting en ref r =
     (case ref of None \<Rightarrow> r
      | Some b \<Rightarrow> result_bind (resolve_backend en b) (\<lambda>backend. result_bind r (adopted backend)))"

record ('v, 'r, 'w) reader =
  rd_read :: "partition \<Rightarrow> string list option \<Rightarrow> 'r \<Rightarrow> ('v, 'w) action"
  rd_partitions :: "int \<Rightarrow> partition list result"
  rd_steps :: "int option"
  rd_columns :: "string list option result"
  rd_num_entries :: "partition \<Rightarrow> int result"
  rd_length :: "'v \<Rightarrow> int result"

text \<open>The truth of a parameter that may be absent.\<close>

fun truthy :: "json option \<Rightarrow> bool" where
  "truthy None = False"
| "truthy (Some JNull) = False"
| "truthy (Some (JBool b)) = b"
| "truthy (Some (JInt i)) = (i \<noteq> 0)"
| "truthy (Some (JStr s)) = (s \<noteq> [])"
| "truthy (Some (JArr xs)) = (xs \<noteq> [])"
| "truthy (Some (JObj kvs)) = (kvs \<noteq> [])"
| "truthy (Some (JFloat t)) = (t \<noteq> ''0.0'' \<and> t \<noteq> ''-0.0'')"

section \<open>Payloads\<close>

definition split_blocks :: "('f, 'v) worker_env \<Rightarrow> string \<Rightarrow> (int \<times> string) list result" where
  "split_blocks en payload = en_loads_blocks en payload"

definition pick :: "('f, 'v) worker_env \<Rightarrow> (int \<times> string) list \<Rightarrow> int \<Rightarrow> string" where
  "pick en mapping dest = en_dumps_blocks en (case map_of mapping dest of Some w \<Rightarrow> [(dest, w)] | None \<Rightarrow> [])"

section \<open>The map stage\<close>

record ('f, 'v, 'r, 'w) map_write =
  mw_ir :: string
  mw_target :: nat
  mw_source_name :: string
  mw_reader :: "('v, 'r, 'w) reader"
  mw_columns :: "string list option"
  mw_backend :: "'f backend_ref"
  mw_externals :: "(string \<times> 'f) list"
  mw_frames :: "(node_key \<times> source_frame) list"
  mw_route :: "string \<times> string \<times> int"
  mw_labels :: "(node_key \<times> string list \<times> source_frame) list option"

definition external_table :: "('f, 'v) worker_env \<Rightarrow> (string \<times> 'f) list \<Rightarrow> string \<rightharpoonup> ('v option list \<Rightarrow> 'v result)" where
  "external_table en externals = map_option (en_external en) \<circ> map_of (rev externals)"

text \<open>The label channel may be absent; the frames were compiled at level 1.\<close>

definition stage_failures ::
  "('f, 'v) worker_env \<Rightarrow> (node_key \<times> source_frame) list \<Rightarrow> string result \<Rightarrow> (node_key \<times> string list \<times> source_frame) list option \<Rightarrow> 'v failure_hook option" where
  "stage_failures en frames label labels = attribute_failures (en_sight en) frames label (case labels of None \<Rightarrow> [] | Some ls \<Rightarrow> ls) 1"

text \<open>An array operation applied to \<open>None\<close> is a type error.\<close>

definition as_array :: "'v option \<Rightarrow> 'v result" where
  "as_array v = (case v of Some x \<Rightarrow> Inr x | None \<Rightarrow> Inl (TypeError ''not an array: None''))"

definition map_value ::
  "('f, 'v) worker_env \<Rightarrow> ('f, 'v, 'r, 'w) map_write \<Rightarrow> 'v worker_backend \<Rightarrow> partition \<Rightarrow> 'v \<Rightarrow> 'v option result" where
  "map_value en m backend p chunk =
     result_bind (en_graph en (mw_ir m)) (\<lambda>(nodes, marked).
     result_bind (evaluate_ir
         \<lparr>ev_backend = wb_arrays backend, ev_sources = [mw_source_name m \<mapsto> Inr chunk],
          ev_externals = Some (external_table en (mw_externals m)),
          ev_on_failure = stage_failures en (mw_frames m)
            (read_label (rd_num_entries (mw_reader m)) (\<lambda>_. rd_length (mw_reader m) chunk) p) (mw_labels m),
          ev_chunked = True\<rparr>
         nodes marked (Some [mw_target m]) None) (\<lambda>values.
       case values of [v] \<Rightarrow> Inr v | _ \<Rightarrow> Inl (ValueError ''expected 1 value'')))"

text \<open>The blocks of a value, by destination.\<close>

definition route_blocks :: "'v worker_backend \<Rightarrow> string \<times> string \<times> int \<Rightarrow> int \<Rightarrow> 'v \<Rightarrow> (int \<times> 'v) list result" where
  "route_blocks backend route tk value =
     (case route of (scheme, key, parts) \<Rightarrow>
        if scheme = ''position'' then Inr [(tk, value)]
        else if scheme = ''hash'' then
          result_bind (bo_partition (wb_blocks backend) value key parts) (\<lambda>blocks. Inr (py_enumerate blocks))
        else let nothing = bo_slice (wb_blocks backend) value 0 0
             in Inr (map (\<lambda>d. (d, if d = tk mod parts then value else nothing)) (map int [0..<nat parts])))"

definition write_blocks :: "('f, 'v) worker_env \<Rightarrow> 'v worker_backend \<Rightarrow> (int \<times> 'v) list \<Rightarrow> string result" where
  "write_blocks en backend blocks =
     result_bind (traverse (\<lambda>(d, b). result_bind (bo_to_wire (wb_blocks backend) b) (\<lambda>w. Inr (d, w))) blocks) (\<lambda>wires.
       Inr (en_dumps_blocks en wires))"

definition map_payload :: "('f, 'v) worker_env \<Rightarrow> ('f, 'v, 'r, 'w) map_write \<Rightarrow> 'v worker_backend \<Rightarrow> task \<Rightarrow> 'v \<Rightarrow> string result" where
  "map_payload en m backend t chunk =
     result_bind (map_value en m backend (task_partition t) chunk) (\<lambda>value.
     result_bind (as_array value) (\<lambda>v.
     result_bind (route_blocks backend (mw_route m) (task_key t) v) (write_blocks en backend)))"

definition map_write_call :: "('f, 'v) worker_env \<Rightarrow> ('f, 'v, 'r, 'w) map_write \<Rightarrow> task \<Rightarrow> 'r \<Rightarrow> (string, 'w) action" where
  "map_write_call en m t res =
     act_bind (act_lift (resolve_backend en (mw_backend m))) (\<lambda>backend.
     act_bind (rd_read (mw_reader m) (task_partition t) (mw_columns m) res) (\<lambda>chunk.
       act_lift (map_payload en m backend t chunk)))"

definition map_write_bind :: "('f, 'v) worker_env \<Rightarrow> ('f, 'v, 'r, 'w) map_write \<Rightarrow> (string \<rightharpoonup> string) \<Rightarrow> ('f, 'v, 'r, 'w) map_write result" where
  "map_write_bind en m endpoints =
     result_bind (bind_externals (en_hooks en) (mw_externals m) endpoints) (\<lambda>exts. Inr (m\<lparr>mw_externals := exts\<rparr>))"

section \<open>The gather stage\<close>

record 'f gather =
  ga_ir :: string
  ga_barrier_inputs :: "nat list"
  ga_backend :: "'f backend_ref"
  ga_externals :: "(string \<times> 'f) list"
  ga_frames :: "(node_key \<times> source_frame) list"
  ga_n_left :: "int option"
  ga_reduce :: "'f option"
  ga_labels :: "(node_key \<times> string list \<times> source_frame) list option"

text \<open>The blocks of destination \<open>dest\<close>, of the payloads that have one.\<close>

definition dest_blocks :: "('f, 'v) worker_env \<Rightarrow> 'v worker_backend \<Rightarrow> int \<Rightarrow> string list \<Rightarrow> 'v list result" where
  "dest_blocks en backend dest inputs =
     result_bind (traverse (split_blocks en) inputs) (\<lambda>mappings.
       traverse (bo_from_wire (wb_blocks backend)) (List.map_filter (\<lambda>m. map_of m dest) mappings))"

text \<open>\<open>blocks[:n]\<close> and \<open>blocks[n:]\<close>, where a negative \<open>n\<close> counts from the end.\<close>

definition slice_at :: "int \<Rightarrow> 'a list \<Rightarrow> 'a list \<times> 'a list" where
  "slice_at n xs = (let k = nat (if n < 0 then n + int (length xs) else n) in (take k xs, drop k xs))"

definition gather_sides :: "int option \<Rightarrow> 'v list \<Rightarrow> 'v list list" where
  "gather_sides n_left blocks =
     (case n_left of None \<Rightarrow> [blocks] | Some n \<Rightarrow> (case slice_at n blocks of (l, r) \<Rightarrow> [l, r]))"

definition gathered :: "'v worker_backend \<Rightarrow> nat list \<Rightarrow> 'v list list \<Rightarrow> (nat \<times> 'v) list result" where
  "gathered backend targets sides =
     result_bind (traverse (\<lambda>(nid, side). result_bind (bo_concat (wb_blocks backend) side) (\<lambda>b. Inr (nid, b))) (zip targets sides)) (\<lambda>given.
       if length targets = length sides then Inr (dict_merge [] given)
       else Inl (ValueError ''zip() arguments have different lengths''))"

definition gather_value :: "('f, 'v) worker_env \<Rightarrow> 'f gather \<Rightarrow> 'v worker_backend \<Rightarrow> int \<Rightarrow> (nat \<times> 'v) list \<Rightarrow> 'v option result" where
  "gather_value en g backend dest given =
     result_bind (en_graph en (ga_ir g)) (\<lambda>(nodes, marked).
     result_bind (evaluate_ir
         \<lparr>ev_backend = wb_arrays backend, ev_sources = Map.empty, ev_externals = Some (external_table en (ga_externals g)),
          ev_on_failure = stage_failures en (ga_frames g) (Inr (''dest '' @ dec dest)) (ga_labels g), ev_chunked = True\<rparr>
         nodes marked None (Some given)) (\<lambda>values.
     result_bind (case ga_reduce g of
         Some f \<Rightarrow> en_reduce en f values
       | None \<Rightarrow> (case values of v # _ \<Rightarrow> Inr v | [] \<Rightarrow> Inl (IndexError ''list index out of range''))) (adopted backend)))"

definition gather_call :: "('f, 'v) worker_env \<Rightarrow> 'f gather \<Rightarrow> task \<Rightarrow> string list \<Rightarrow> string result" where
  "gather_call en g t inputs =
     result_bind (resolve_backend en (ga_backend g)) (\<lambda>backend.
     result_bind (dest_blocks en backend (task_key t) inputs) (\<lambda>blocks.
     result_bind (gathered backend (ga_barrier_inputs g) (gather_sides (ga_n_left g) blocks)) (\<lambda>given.
     result_bind (gather_value en g backend (task_key t) given) (en_dumps en))))"

definition gather_bind :: "('f, 'v) worker_env \<Rightarrow> 'f gather \<Rightarrow> (string \<rightharpoonup> string) \<Rightarrow> 'f gather result" where
  "gather_bind en g endpoints =
     result_bind (case ga_reduce g of None \<Rightarrow> Inr None
         | Some f \<Rightarrow> result_bind (bind_part (en_hooks en) endpoints f) (\<lambda>f. Inr (Some f))) (\<lambda>red.
     result_bind (bind_externals (en_hooks en) (ga_externals g) endpoints) (\<lambda>exts.
       Inr (g\<lparr>ga_externals := exts, ga_reduce := red\<rparr>)))"

definition gather_resolve :: "('f, 'v) worker_env \<Rightarrow> 'f gather \<Rightarrow> 'v option \<Rightarrow> 'v option result" where
  "gather_resolve en g value =
     (case Option.bind (ga_reduce g) (hk_resolve (en_hooks en)) of Some r \<Rightarrow> r value | None \<Rightarrow> Inr value)"

section \<open>The reduce stage\<close>

record 'f fold_stage =
  fo_combine :: 'f
  fo_empty :: 'f
  fo_backend :: "'f backend_ref option"

fun fold_payloads :: "('f, 'v) worker_env \<Rightarrow> 'f fold_stage \<Rightarrow> string list \<Rightarrow> 'v option \<Rightarrow> 'v option result" where
  "fold_payloads en fo [] acc = Inr acc"
| "fold_payloads en fo (p # ps) acc =
     result_bind (en_loads en p) (\<lambda>v.
     result_bind (adopting en (fo_backend fo) (en_combine en (fo_combine fo) acc v)) (fold_payloads en fo ps))"

definition fold_call :: "('f, 'v) worker_env \<Rightarrow> 'f fold_stage \<Rightarrow> string list \<Rightarrow> string result" where
  "fold_call en fo inputs =
     result_bind (adopting en (fo_backend fo) (en_empty en (fo_empty fo))) (\<lambda>start.
     result_bind (fold_payloads en fo inputs start) (en_dumps en))"

section \<open>A stage's process\<close>

datatype ('f, 'v, 'r, 'w) stage_process =
    MapWriteStage "('f, 'v, 'r, 'w) map_write"
  | GatherStage "'f gather"
  | FoldStage "'f fold_stage"

fun run_stage_task :: "('f, 'v) worker_env \<Rightarrow> ('f, 'v, 'r, 'w) stage_process \<Rightarrow> task \<Rightarrow> string list \<Rightarrow> 'r \<Rightarrow> (string, 'w) action" where
  "run_stage_task en (MapWriteStage m) t inputs res = map_write_call en m t res"
| "run_stage_task en (GatherStage g) t inputs res = act_lift (gather_call en g t inputs)"
| "run_stage_task en (FoldStage fo) t inputs res = act_lift (fold_call en fo inputs)"

end
