(* ===== verification/Numpy_Shuffle.thy ===== *)
theory Numpy_Shuffle
  imports Exchange "HOL-Library.Word" "HOL-Library.List_Lexorder"
begin

unbundle bit_operations_syntax

text \<open>
  The exchange and join primitives over numpy record blocks (\<open>numpy/shuffle.py\<close>).

  A structured array is its dtype (field names with their scalar types \<open>'d\<close>) and its rows; a cell is a value
  with the bit by which a masked array hides it. One-dimensional index arrays are lists, and boolean or integer
  indexing, \<open>repeat\<close>, \<open>cumsum\<close>, \<open>arange\<close> and \<open>flatnonzero\<close> are the list operations of that meaning. What numpy
  and pyarrow decide beyond that is the record \<open>numpy\<close>, an argument: sorting and searching, casts, zeros,
  item sizes, the bytes of a file. \<open>numpy_documented\<close> states what their documentation promises. Keys are lists
  of field values, compared lexicographically as numpy compares structured keys. SHA-256 is an argument.
\<close>

section \<open>Blocks\<close>

type_synonym 'v cell = "'v \<times> bool"

record ('d, 'v) block =
  bk_dtype :: "(string \<times> 'd) list"
  bk_rows :: "'v cell list list"
  bk_masked :: bool

record ('d, 'v) numpy =
  np_argsort :: "'v list list \<Rightarrow> nat list"
  np_sort :: "'v list list \<Rightarrow> 'v list list"
  np_searchsorted :: "bool \<Rightarrow> 'v list list \<Rightarrow> 'v list \<Rightarrow> nat"
  np_zero :: "'d \<Rightarrow> 'v"
  np_common :: "'d \<Rightarrow> 'd \<Rightarrow> 'd"
  np_cast :: "'d \<Rightarrow> 'd \<Rightarrow> 'v \<Rightarrow> 'v"
  np_itemsize :: "'d \<Rightarrow> nat"
  np_uint64 :: "'v \<Rightarrow> 64 word"
  np_of_uint64 :: "64 word \<Rightarrow> 'v"
  np_u64 :: 'd
  np_promoted :: "('d, 'v) block list \<Rightarrow> ('d, 'v) block result"
  np_save :: "(string \<times> 'd) list \<Rightarrow> 'v list list \<Rightarrow> string"
  np_load :: "string \<Rightarrow> ((string \<times> 'd) list \<times> 'v list list) result"
  pa_write :: "(string \<times> 'd \<times> 'v option list) list \<Rightarrow> string result"
  pa_read :: "string \<Rightarrow> (string \<times> 'd \<times> ('v \<times> bool) list) list result"

fun field_index :: "(string \<times> 'd) list \<Rightarrow> string \<Rightarrow> nat option" where
  "field_index [] name = None"
| "field_index ((n, d) # dt) name = (if n = name then Some 0 else map_option Suc (field_index dt name))"

definition no_field :: "string \<Rightarrow> exn" where
  "no_field name = ValueError (''no field of name '' @ name)"

text \<open>\<open>data[name]\<close> with its mask.\<close>

definition cells :: "('d, 'v) block \<Rightarrow> string \<Rightarrow> 'v cell list result" where
  "cells b name = (case field_index (bk_dtype b) name of None \<Rightarrow> Inl (no_field name) | Some i \<Rightarrow> Inr (map (\<lambda>row. row ! i) (bk_rows b)))"

definition column :: "('d, 'v) block \<Rightarrow> string \<Rightarrow> 'v list result" where
  "column b name = result_bind (cells b name) (\<lambda>cs. Inr (map fst cs))"

section \<open>Routing\<close>

definition int_bytes8 :: "int \<Rightarrow> string result" where
  "int_bytes8 i = (if i < 0 then Inl (OverflowError ''can't convert negative int to unsigned'')
     else if i < 2 ^ 64 then Inr (be_bytes 8 (nat i)) else Inl (OverflowError ''int too big to convert''))"

definition be_value :: "string \<Rightarrow> int" where
  "be_value s = foldl (\<lambda>n c. 256 * n + of_char c) 0 s"

definition route :: "(string \<Rightarrow> string) \<Rightarrow> int \<Rightarrow> int \<Rightarrow> int \<Rightarrow> int result" where
  "route sha key parts salt =
     result_bind (int_bytes8 key) (\<lambda>kb.
     result_bind (if salt \<noteq> 0 then int_bytes8 salt else Inr []) (\<lambda>sb.
       if parts = 0 then Inl (ZeroDivisionError ''integer modulo by zero'')
       else Inr (be_value (take 8 (sha (kb @ sb))) mod parts)))"

definition dests :: "(string \<Rightarrow> string) \<Rightarrow> 64 word list \<Rightarrow> int \<Rightarrow> int \<Rightarrow> int list result" where
  "dests sha ks parts salt = traverse (\<lambda>k. route sha (uint k) parts salt) ks"

definition py_range :: "int \<Rightarrow> int list" where
  "py_range n = map int [0..<nat n]"

definition where_dest :: "'r list \<Rightarrow> int list \<Rightarrow> int \<Rightarrow> 'r list" where
  "where_dest rows dest d = map fst (List.filter (\<lambda>(r, x). x = d) (zip rows dest))"

definition np_partition ::
  "('d, 'v) numpy \<Rightarrow> (string \<Rightarrow> string) \<Rightarrow> ('d, 'v) block \<Rightarrow> string \<Rightarrow> int \<Rightarrow> int \<Rightarrow> ('d, 'v) block list result" where
  "np_partition np sha block key_field parts salt =
     result_bind (column block key_field) (\<lambda>ks.
     result_bind (dests sha (map (np_uint64 np) ks) parts salt) (\<lambda>dest.
       Inr (map (\<lambda>d. block\<lparr>bk_rows := where_dest (bk_rows block) dest d\<rparr>) (py_range parts))))"

section \<open>Concatenation, slices and sizes\<close>

definition np_concat :: "('d, 'v) numpy \<Rightarrow> ('d, 'v) block list \<Rightarrow> ('d, 'v) block result" where
  "np_concat np blocks =
     (case blocks of
        [] \<Rightarrow> Inl (ValueError ''need at least one array to concatenate'')
      | b # bs \<Rightarrow>
          if list_all (\<lambda>c. bk_dtype c = bk_dtype b) bs
          then Inr \<lparr>bk_dtype = bk_dtype b, bk_rows = concat (map bk_rows blocks), bk_masked = list_ex bk_masked blocks\<rparr>
          else np_promoted np blocks)"

text \<open>Python's slice bounds: negative ones count from the end.\<close>

definition slice_bound :: "nat \<Rightarrow> int \<Rightarrow> nat" where
  "slice_bound n i = (if i < 0 then nat (i + int n) else min (nat i) n)"

definition slice_rows :: "('d, 'v) block \<Rightarrow> int \<Rightarrow> int \<Rightarrow> ('d, 'v) block" where
  "slice_rows block start stop =
     (let n = length (bk_rows block); a = slice_bound n start; z = slice_bound n stop
      in block\<lparr>bk_rows := drop a (take z (bk_rows block))\<rparr>)"

definition estimated_bytes :: "('d, 'v) numpy \<Rightarrow> ('d, 'v) block \<Rightarrow> nat" where
  "estimated_bytes np block = sum_list (map (\<lambda>(_, d). np_itemsize np d) (bk_dtype block)) * length (bk_rows block)"

section \<open>The wire\<close>

definition npy_magic :: string where
  "npy_magic = CHR 0x93 # ''NUMPY''"

definition mask_to_wire :: "('d, 'v) numpy \<Rightarrow> ('d, 'v) block \<Rightarrow> string result" where
  "mask_to_wire np block =
     pa_write np (map (\<lambda>(i, n, d). (n, d, map (\<lambda>row. if snd (row ! i) then None else Some (fst (row ! i))) (bk_rows block)))
       (enumerate 0 (bk_dtype block)))"

definition to_wire :: "('d, 'v) numpy \<Rightarrow> ('d, 'v) block \<Rightarrow> string result" where
  "to_wire np block =
     (if bk_masked block then mask_to_wire np block else Inr (np_save np (bk_dtype block) (map (map fst) (bk_rows block))))"

definition mask_from_wire :: "('d, 'v) numpy \<Rightarrow> string \<Rightarrow> ('d, 'v) block result" where
  "mask_from_wire np data =
     result_bind (pa_read np data) (\<lambda>cols. case cols of
       [] \<Rightarrow> Inl (UserError ''StopIteration'' [] None [])
     | (_, _, first) # _ \<Rightarrow>
         Inr \<lparr>bk_dtype = map (\<lambda>(n, d, _). (n, d)) cols,
              bk_rows = map (\<lambda>i. map (\<lambda>(_, _, cs). cs ! i) cols) [0..<length first], bk_masked = True\<rparr>)"

definition from_wire :: "('d, 'v) numpy \<Rightarrow> string \<Rightarrow> ('d, 'v) block result" where
  "from_wire np data =
     (if take 6 data = npy_magic
      then result_bind (np_load np data) (\<lambda>(dt, rows).
        Inr \<lparr>bk_dtype = dt, bk_rows = map (map (\<lambda>v. (v, False))) rows, bk_masked = False\<rparr>)
      else mask_from_wire np data)"

section \<open>Matching\<close>

definition key_rows :: "('d, 'v) block \<Rightarrow> string list \<Rightarrow> 'v list list result" where
  "key_rows block on =
     (case on of
        [name] \<Rightarrow> result_bind (column block name) (\<lambda>vs. Inr (map (\<lambda>v. [v]) vs))
      | names \<Rightarrow> result_bind (traverse (\<lambda>name. case field_index (bk_dtype block) name of
            None \<Rightarrow> Inl (KeyError (py_repr name)) | Some i \<Rightarrow> Inr i) names) (\<lambda>is.
          Inr (map (\<lambda>row. map (\<lambda>i. fst (row ! i)) is) (bk_rows block))))"

definition np_repeat :: "'a list \<Rightarrow> nat list \<Rightarrow> 'a list" where
  "np_repeat xs counts = concat (map2 (\<lambda>x c. replicate c x) xs counts)"

fun np_cumsum :: "nat \<Rightarrow> nat list \<Rightarrow> nat list" where
  "np_cumsum acc [] = []"
| "np_cumsum acc (c # cs) = (acc + c) # np_cumsum (acc + c) cs"

definition flatnonzero :: "bool list \<Rightarrow> int list" where
  "flatnonzero bs = map int (List.filter (\<lambda>i. bs ! i) [0..<length bs])"

text \<open>The pairs of the inner join: for each probe row the build rows of its run in key order.\<close>

definition inner_pairs :: "('d, 'v) numpy \<Rightarrow> 'v list list \<Rightarrow> 'v list list \<Rightarrow> nat list \<Rightarrow> nat list \<times> nat list" where
  "inner_pairs np bkey pkey counts =
     (let order = np_argsort np bkey;
          skey = map (nth bkey) order;
          lo = map (np_searchsorted np False skey) pkey;
          total = sum_list counts;
          starts = np_repeat lo counts;
          group_base = np_repeat (map2 (-) (np_cumsum 0 counts) counts) counts
      in (map2 (\<lambda>s (a, g). order ! (s + (a - g))) starts (zip [0..<total] group_base),
          np_repeat [0..<length pkey] counts))"

definition match_counts :: "('d, 'v) numpy \<Rightarrow> 'v list list \<Rightarrow> 'v list list \<Rightarrow> nat list" where
  "match_counts np bkey pkey =
     (let skey = map (nth bkey) (np_argsort np bkey)
      in map (\<lambda>p. np_searchsorted np True skey p - np_searchsorted np False skey p) pkey)"

definition match_keys :: "('d, 'v) numpy \<Rightarrow> 'v list list \<Rightarrow> 'v list list \<Rightarrow> string \<Rightarrow> int list \<times> int list" where
  "match_keys np bkey pkey how =
     (let counts = match_counts np bkey pkey;
          (build_idx, probe_idx) = inner_pairs np bkey pkey counts;
          spk = np_sort np pkey;
          ub = (if how \<in> {''left'', ''outer''}
                then flatnonzero (map (\<lambda>b. np_searchsorted np True spk b = np_searchsorted np False spk b) bkey) else []);
          up = (if how \<in> {''right'', ''outer''} then flatnonzero (map (\<lambda>c. c = 0) counts) else [])
      in (map int build_idx @ ub @ replicate (length up) (-1),
          map int probe_idx @ replicate (length ub) (-1) @ up))"

definition match_indices ::
  "('d, 'v) numpy \<Rightarrow> ('d, 'v) block \<Rightarrow> ('d, 'v) block \<Rightarrow> string list \<Rightarrow> string \<Rightarrow> (int list \<times> int list) result" where
  "match_indices np build probe on how =
     result_bind (key_rows build on) (\<lambda>bkey. result_bind (key_rows probe on) (\<lambda>pkey. Inr (match_keys np bkey pkey how)))"

section \<open>Gathering and merging\<close>

definition hide :: "'v cell \<Rightarrow> 'v cell" where
  "hide c = (fst c, True)"

definition gather_row :: "'v cell list list \<Rightarrow> int \<Rightarrow> 'v cell list result" where
  "gather_row rows i =
     (let safe = (if i < 0 then 0 else nat i)
      in if safe < length rows then Inr (if i < 0 then map hide (rows ! safe) else rows ! safe)
         else Inl (IndexError ''index is out of bounds''))"

definition masked_gather :: "('d, 'v) numpy \<Rightarrow> ('d, 'v) block \<Rightarrow> int list \<Rightarrow> ('d, 'v) block result" where
  "masked_gather np block index =
     (if bk_rows block = []
      then Inr (block\<lparr>bk_rows := map (\<lambda>_. map (\<lambda>(_, d). (np_zero np d, True)) (bk_dtype block)) index, bk_masked := True\<rparr>)
      else result_bind (traverse (gather_row (bk_rows block)) index) (\<lambda>rows.
        Inr (block\<lparr>bk_rows := rows, bk_masked := list_ex (list_ex snd) rows\<rparr>)))"

definition take_rows :: "('d, 'v) numpy \<Rightarrow> ('d, 'v) block \<Rightarrow> int list \<Rightarrow> ('d, 'v) block result" where
  "take_rows np block index = masked_gather np block index"

definition list_repr :: "string list \<Rightarrow> string" where
  "list_repr xs = ''['' @ str_join '', '' (map py_repr xs) @ '']''"

text \<open>Assigning a column of \<open>rows\<close> into \<open>n\<close> rows: a single row is repeated, another length refused.\<close>

definition broadcast_rows :: "nat \<Rightarrow> 'r list \<Rightarrow> 'r list result" where
  "broadcast_rows n rows =
     (if length rows = n then Inr rows
      else if length rows = 1 then Inr (replicate n (hd rows))
      else Inl (ValueError ''could not broadcast input array''))"

definition coalesce ::
  "('d, 'v) numpy \<Rightarrow> 'd \<Rightarrow> 'd \<Rightarrow> 'v cell \<Rightarrow> 'v cell \<Rightarrow> 'v cell" where
  "coalesce np ld rd l r =
     (np_cast np (np_common np ld rd) ld (if \<not> snd l then np_cast np ld (np_common np ld rd) (fst l)
        else np_cast np rd (np_common np ld rd) (fst r)), snd l \<and> snd r)"

text \<open>For each left field, the place of the right one it is coalesced with; \<open>rrows\<close> must fit its \<open>n\<close> rows.\<close>

definition key_sources ::
  "(string \<times> 'd) list \<Rightarrow> (string \<times> 'd) list \<Rightarrow> string list \<Rightarrow> nat \<Rightarrow> 'r list \<Rightarrow> ('d \<times> (nat \<times> 'd) option) list result" where
  "key_sources ldt rdt on n rrows =
     traverse (\<lambda>(name, d). if name \<in> set on
        then (case field_index rdt name of
            None \<Rightarrow> Inl (no_field name)
          | Some i \<Rightarrow> result_bind (broadcast_rows n rrows) (\<lambda>_. Inr (d, Some (i, snd (rdt ! i)))))
        else Inr (d, None)) ldt"

definition merge_row :: "('d, 'v) numpy \<Rightarrow> ('d \<times> (nat \<times> 'd) option) list \<Rightarrow> nat list \<Rightarrow> 'v cell list \<Rightarrow> 'v cell list \<Rightarrow> 'v cell list" where
  "merge_row np sources extra l r =
     map2 (\<lambda>(ld, src) c. case src of None \<Rightarrow> c | Some (i, rd) \<Rightarrow> coalesce np ld rd c (r ! i)) sources l @ map (nth r) extra"

definition extra_fields :: "(string \<times> 'd) list \<Rightarrow> (string \<times> 'd) list \<Rightarrow> string list \<Rightarrow> nat list" where
  "extra_fields ldt rdt on = List.filter (\<lambda>i. fst (rdt ! i) \<notin> set on \<and> fst (rdt ! i) \<notin> set (map fst ldt)) [0..<length rdt]"

text \<open>The dash of the message is written as two hyphens.\<close>

definition merge_records :: "('d, 'v) numpy \<Rightarrow> ('d, 'v) block \<Rightarrow> ('d, 'v) block \<Rightarrow> string list \<Rightarrow> ('d, 'v) block result" where
  "merge_records np left right on =
     (let ldt = bk_dtype left; rdt = bk_dtype right; lnames = map fst ldt;
          shared = sort (List.filter (\<lambda>n. n \<in> set lnames \<and> n \<notin> set on) (map fst rdt));
          extra = extra_fields ldt rdt on
      in if shared \<noteq> [] then Inl (ValueError (''merge_records: shared non-key column(s) '' @ list_repr shared @
             '' -- rename or add to `on`''))
         else result_bind (key_sources ldt rdt on (length (bk_rows left)) (bk_rows right)) (\<lambda>sources.
           result_bind (if list_ex (\<lambda>s. snd s \<noteq> None) sources \<or> extra \<noteq> [] then broadcast_rows (length (bk_rows left)) (bk_rows right)
                        else Inr (bk_rows right)) (\<lambda>rrows.
             let rows = (if list_ex (\<lambda>s. snd s \<noteq> None) sources \<or> extra \<noteq> []
                         then map2 (merge_row np sources extra) (bk_rows left) rrows else bk_rows left)
             in Inr \<lparr>bk_dtype = ldt @ map (nth rdt) extra, bk_rows = rows, bk_masked = list_ex (list_ex snd) rows\<rparr>)))"

section \<open>Packed keys\<close>

text \<open>The columns of a record: a dictionary of arrays, or a structured array's fields without their masks.\<close>

type_synonym ('d, 'v) columns = "(string \<times> 'd \<times> 'v list) list"

datatype ('d, 'v) record_data = ColumnDict "('d, 'v) columns" | RecordBlock "('d, 'v) block"

fun as_columns :: "('d, 'v) record_data \<Rightarrow> ('d, 'v) columns" where
  "as_columns (ColumnDict cols) = cols"
| "as_columns (RecordBlock b) = map (\<lambda>(i, n, d). (n, d, map (\<lambda>row. fst (row ! i)) (bk_rows b))) (enumerate 0 (bk_dtype b))"

definition structured :: "('d, 'v) columns \<Rightarrow> ('d, 'v) block result" where
  "structured cols =
     (case cols of
        [] \<Rightarrow> Inl (UserError ''StopIteration'' [] None [])
      | (_, _, first) # _ \<Rightarrow>
          result_bind (traverse (\<lambda>(_, _, vs). broadcast_rows (length first) vs) cols) (\<lambda>vals.
            Inr \<lparr>bk_dtype = map (\<lambda>(n, d, _). (n, d)) cols,
                 bk_rows = map (\<lambda>i. map (\<lambda>vs. (vs ! i, False)) vals) [0..<length first], bk_masked = False\<rparr>))"

fun as_records :: "('d, 'v) record_data \<Rightarrow> ('d, 'v) block result" where
  "as_records (ColumnDict cols) = structured cols"
| "as_records (RecordBlock b) = Inr b"

text \<open>\<open>a | b\<close> of two arrays, the shorter repeated if it has one element.\<close>

definition word_or :: "64 word list \<Rightarrow> 64 word list \<Rightarrow> 64 word list result" where
  "word_or xs ys =
     (if length xs = length ys then Inr (map2 (OR) xs ys)
      else if length xs = 1 then Inr (map (\<lambda>y. hd xs OR y) ys)
      else if length ys = 1 then Inr (map (\<lambda>x. x OR hd ys) xs)
      else Inl (ValueError ''operands could not be broadcast together''))"

fun pack_from :: "nat \<Rightarrow> nat \<Rightarrow> 64 word list list \<Rightarrow> 64 word list \<Rightarrow> 64 word list result" where
  "pack_from n j [] key = Inr key"
| "pack_from n j (c # cs) key =
     result_bind (word_or key (map (\<lambda>w. push_bit (20 * (n - 1 - j)) w) c)) (\<lambda>key'. pack_from n (Suc j) cs key')"

definition pack_key_column :: "64 word list list \<Rightarrow> 64 word list result" where
  "pack_key_column columns =
     (case columns of
        [] \<Rightarrow> Inl (IndexError ''list index out of range'')
      | c # _ \<Rightarrow> pack_from (length columns) 0 columns (replicate (length c) 0))"

definition col_words :: "('d, 'v) numpy \<Rightarrow> ('d, 'v) columns \<Rightarrow> string \<Rightarrow> 64 word list result" where
  "col_words np cols name = (case map_of cols name of None \<Rightarrow> Inl (KeyError (py_repr name)) | Some (_, vs) \<Rightarrow> Inr (map (np_uint64 np) vs))"

definition field_fits :: "('d, 'v) numpy \<Rightarrow> ('d, 'v) columns \<Rightarrow> string \<Rightarrow> unit result" where
  "field_fits np cols name =
     result_bind (col_words np cols name) (\<lambda>ws.
       if list_ex (\<lambda>w. 2 ^ 20 \<le> w) ws
       then Inl (PackKeyOverflowError (''pack_key: field '' @ py_repr name @ '' has a value >= 2**20 (overflow->fixed-width bytes is Phase-2)''))
       else Inr ())"

definition joinkey :: string where
  "joinkey = ''__joinkey__''"

definition pack_key :: "('d, 'v) numpy \<Rightarrow> ('d, 'v) record_data \<Rightarrow> string list \<Rightarrow> bool \<Rightarrow> ('d, 'v) block result" where
  "pack_key np record on routed =
     (let cols = as_columns record
      in if length on * 20 > 64
         then Inl (ValueError (''pack_key: '' @ dec (int (length on)) @ '' fields x 20 bits exceeds u64 (overflow->bytes is Phase-2)''))
         else result_bind (if routed then Inr [] else traverse (field_fits np cols) on) (\<lambda>_.
           result_bind (traverse (col_words np cols) on) (\<lambda>words.
           result_bind (pack_key_column words) (\<lambda>key.
             structured (AList.update joinkey (np_u64 np, map (np_of_uint64 np) key) cols)))))"

section \<open>What numpy and pyarrow document\<close>

definition visible :: "'v cell \<Rightarrow> 'v option" where
  "visible c = (if snd c then None else Some (fst c))"

definition numpy_documented :: "('d, 'v :: linorder) numpy \<Rightarrow> bool" where
  "numpy_documented np \<longleftrightarrow>
     (\<forall>ks. np_argsort np ks = sort_key (nth ks) [0..<length ks]) \<and>
     (\<forall>ks. np_sort np ks = sort ks) \<and>
     (\<forall>ks k. sorted ks \<longrightarrow> np_searchsorted np False ks k = length (List.filter (\<lambda>x. x < k) ks) \<and>
        np_searchsorted np True ks k = length (List.filter (\<lambda>x. x \<le> k) ks)) \<and>
     (\<forall>d v. np_common np d d = d \<and> np_cast np d d v = v) \<and>
     (\<forall>w. np_uint64 np (np_of_uint64 np w) = w) \<and>
     (\<forall>dt rows. take 6 (np_save np dt rows) = npy_magic \<and> np_load np (np_save np dt rows) = Inr (dt, rows)) \<and>
     (\<forall>cols. cols \<noteq> [] \<longrightarrow> (\<exists>w read. pa_write np cols = Inr w \<and> take 6 w \<noteq> npy_magic \<and> pa_read np w = Inr read \<and>
        list_all2 (\<lambda>(n, d, vs) (n', d', cs). n' = n \<and> d' = d \<and> map visible cs = vs) cols read))"

lemma documentedD:
  assumes "numpy_documented np"
  shows "np_argsort np ks = sort_key (nth ks) [0..<length ks]" "np_sort np ks = sort ks"
    "sorted ks \<Longrightarrow> np_searchsorted np False ks k = length (List.filter (\<lambda>x. x < k) ks)"
    "sorted ks \<Longrightarrow> np_searchsorted np True ks k = length (List.filter (\<lambda>x. x \<le> k) ks)"
    "np_common np d d = d" "np_cast np d d v = v" "np_uint64 np (np_of_uint64 np w) = w"
    "take 6 (np_save np dt rows) = npy_magic" "np_load np (np_save np dt rows) = Inr (dt, rows)"
    "cols \<noteq> [] \<Longrightarrow> \<exists>w read. pa_write np cols = Inr w \<and> take 6 w \<noteq> npy_magic \<and> pa_read np w = Inr read \<and>
        list_all2 (\<lambda>(n, d, vs) (n', d', cs). n' = n \<and> d' = d \<and> map visible cs = vs) cols read"
  using assms unfolding numpy_documented_def by blast+

section \<open>Matching meets its specification\<close>

text \<open>In a sorted list, the elements equal to \<open>k\<close> are the run from the first not below it.\<close>

lemma sorted_run:
  assumes "sorted (map f xs)"
  shows "List.filter (\<lambda>x. f x = k) xs =
    take (length (List.filter (\<lambda>x. f x \<le> k) xs) - length (List.filter (\<lambda>x. f x < (k :: 'k :: linorder)) xs)) (drop (length (List.filter (\<lambda>x. f x < k) xs)) xs)"
  using assms
proof (induction xs)
  case (Cons x xs)
  from Cons.prems have s: "sorted (map f xs)" "\<forall>y \<in> set xs. f x \<le> f y" by auto
  show ?case
  proof (cases "f x < k")
    case True
    with Cons.IH [OF s(1)] show ?thesis by simp
  next
    case False
    then have none: "List.filter (\<lambda>x. f x < k) xs = []" using s(2) by (auto simp: filter_empty_conv)
    show ?thesis
    proof (cases "f x = k")
      case True
      with Cons.IH [OF s(1)] none show ?thesis by simp
    next
      case False
      with \<open>\<not> f x < k\<close> have "k < f x" by auto
      then have "List.filter (\<lambda>x. f x = k) xs = []" "List.filter (\<lambda>x. f x \<le> k) xs = []" using s(2) by (auto simp: filter_empty_conv)
      with none \<open>k < f x\<close> show ?thesis by auto
    qed
  qed
qed simp

lemma filter_counts: "length (List.filter (\<lambda>x. f x < k) xs) \<le> length (List.filter (\<lambda>x. f x \<le> (k :: 'k :: linorder)) xs)"
  by (induction xs) auto

text \<open>The flattened cross product: positions within each run, offset by the run's start.\<close>

lemma np_repeat_Cons: "np_repeat (x # xs) (c # cs) = replicate c x @ np_repeat xs cs"
  by (simp add: np_repeat_def)

lemma np_repeat_Nil [simp]: "np_repeat [] cs = []"
  by (simp add: np_repeat_def)

lemma cumsum_base: "map2 (-) (np_cumsum acc (c # cs)) (c # cs) = acc # map2 (-) (np_cumsum (acc + c) cs) cs"
  by simp

lemma gather_runs:
  assumes "length los = length counts"
  shows "map2 (\<lambda>s (a, g). order ! (s + (a - g))) (np_repeat los counts)
      (zip [acc..<acc + sum_list counts] (np_repeat (map2 (-) (np_cumsum acc counts) counts) counts)) =
    concat (map2 (\<lambda>lo c. map (\<lambda>t. order ! (lo + t)) [0..<c]) los counts)"
  using assms
proof (induction los counts arbitrary: acc rule: list_induct2)
  case (Cons lo los c counts)
  let ?base = "np_repeat (map2 (-) (np_cumsum (acc + c) counts) counts) counts"
  have u: "[acc..<acc + sum_list (c # counts)] = [acc..<acc + c] @ [acc + c..<acc + c + sum_list counts]"
    using upt_add_eq_append [of acc "acc + c" "sum_list counts"] by (simp add: add.assoc)
  have first: "map2 (\<lambda>s (a, g). order ! (s + (a - g))) (replicate c lo) (zip [acc..<acc + c] (replicate c acc)) = map (\<lambda>t. order ! (lo + t)) [0..<c]"
    by (rule nth_equalityI) auto
  have "map2 (\<lambda>s (a, g). order ! (s + (a - g))) (np_repeat (lo # los) (c # counts))
      (zip [acc..<acc + sum_list (c # counts)] (np_repeat (map2 (-) (np_cumsum acc (c # counts)) (c # counts)) (c # counts))) =
    map2 (\<lambda>s (a, g). order ! (s + (a - g))) (replicate c lo @ np_repeat los counts)
      (zip [acc..<acc + c] (replicate c acc) @ zip [acc + c..<acc + c + sum_list counts] ?base)"
    by (simp only: np_repeat_Cons cumsum_base u) (simp add: zip_append1 zip_append2)
  also have "\<dots> = map (\<lambda>t. order ! (lo + t)) [0..<c] @
      map2 (\<lambda>s (a, g). order ! (s + (a - g))) (np_repeat los counts) (zip [acc + c..<acc + c + sum_list counts] ?base)"
    by (simp add: zip_append first)
  finally show ?case by (simp add: Cons.IH)
qed simp

lemma take_run:
  assumes "numpy_documented np" "skey = map (nth bk) (np_argsort np bk)"
  shows "map (\<lambda>t. np_argsort np bk ! (np_searchsorted np False skey p + t)) [0..<np_searchsorted np True skey p - np_searchsorted np False skey p]
    = List.filter (\<lambda>i. bk ! i = p) [0..<length bk]"
proof -
  let ?order = "sort_key (nth bk) [0..<length bk]"
  let ?lo = "length (List.filter (\<lambda>i. bk ! i < p) ?order)" and ?hi = "length (List.filter (\<lambda>i. bk ! i \<le> p) ?order)"
  have order: "np_argsort np bk = ?order" by (rule documentedD(1) [OF assms(1)])
  have sorted: "sorted (map (nth bk) ?order)" by (rule sorted_sort_key)
  have s: "sorted skey" by (simp only: assms(2) order sorted)
  have lo: "np_searchsorted np False skey p = ?lo" "np_searchsorted np True skey p = ?hi"
    by (simp_all only: documentedD(3,4) [OF assms(1) s]) (simp_all add: assms(2) order filter_map o_def)
  have fit: "?lo + (?hi - ?lo) \<le> length ?order" using filter_counts [of "nth bk" p ?order] length_filter_le [of "\<lambda>i. bk ! i \<le> p" ?order] by linarith
  have "map (\<lambda>t. ?order ! (?lo + t)) [0..<?hi - ?lo] = take (?hi - ?lo) (drop ?lo ?order)"
    using fit by (intro nth_equalityI) (auto simp del: length_sort)
  also have "\<dots> = List.filter (\<lambda>i. bk ! i = p) ?order" by (rule sorted_run [OF sorted, symmetric])
  also have "\<dots> = List.filter (\<lambda>i. bk ! i = p) [0..<length bk]" by (rule sort_key_stable)
  finally show ?thesis by (simp only: order lo)
qed

lemma search_absent:
  assumes "numpy_documented np" "sorted ks"
  shows "np_searchsorted np True ks k = np_searchsorted np False ks k \<longleftrightarrow> k \<notin> set ks"
proof -
  have "length (List.filter (\<lambda>x. x \<le> k) ks) = length (List.filter (\<lambda>x. x < k) ks) + length (List.filter (\<lambda>x. x = k) ks)"
    by (induction ks) auto
  then show ?thesis by (simp add: documentedD(3,4) [OF assms]) (auto simp: filter_empty_conv)
qed

lemma map2_self: "map2 h (map f xs) (map g xs) = map (\<lambda>x. h (f x) (g x)) xs"
  by (simp add: zip_map1 zip_map2 zip_same_conv_map)

lemma flatnonzero_map: "flatnonzero (map P xs) = map int (List.filter (\<lambda>i. P (xs ! i)) [0..<length xs])"
  unfolding flatnonzero_def by (intro arg_cong [of _ _ "map int"] filter_cong) auto

lemma match_keys_matches:
  assumes "numpy_documented np"
  shows "match_keys np bk pk how = (let ps = matches bk pk how in (map fst ps, map snd ps))"
proof -
  let ?skey = "map (nth bk) (np_argsort np bk)"
  let ?run = "\<lambda>p. List.filter (\<lambda>i. bk ! i = p) [0..<length bk]"
  have counts: "match_counts np bk pk = map (\<lambda>p. length (?run p)) pk"
    unfolding match_counts_def Let_def take_run [OF assms refl, symmetric] by simp
  have build: "fst (inner_pairs np bk pk (match_counts np bk pk)) = concat (map ?run pk)"
  proof -
    have "fst (inner_pairs np bk pk (match_counts np bk pk)) =
        concat (map2 (\<lambda>lo c. map (\<lambda>t. np_argsort np bk ! (lo + t)) [0..<c]) (map (np_searchsorted np False ?skey) pk) (match_counts np bk pk))"
      using gather_runs [of "map (np_searchsorted np False ?skey) pk" "match_counts np bk pk" "np_argsort np bk" 0]
      by (simp add: inner_pairs_def Let_def match_counts_def)
    also have "\<dots> = concat (map ?run pk)"
      unfolding match_counts_def Let_def map2_self take_run [OF assms refl] ..
    finally show ?thesis .
  qed
  have probe: "snd (inner_pairs np bk pk (match_counts np bk pk)) = concat (map (\<lambda>j. replicate (length (?run (pk ! j))) j) [0..<length pk])"
  proof -
    have "map (\<lambda>p. length (?run p)) pk = map (\<lambda>j. length (?run (pk ! j))) [0..<length pk]"
      using map_nth_upt [of "\<lambda>p. length (?run p)" pk] by simp
    then show ?thesis
      unfolding counts by (simp add: inner_pairs_def Let_def np_repeat_def zip_same_conv_map zip_map2 o_def)
  qed
  have zero: "map (\<lambda>c. c = 0) (match_counts np bk pk) = map (\<lambda>p. p \<notin> set bk) pk"
    unfolding counts by (auto simp: filter_empty_conv in_set_conv_nth)
  have spk: "sorted (np_sort np pk)" "set (np_sort np pk) = set pk" by (simp_all add: documentedD(2) [OF assms])
  have absent: "map (\<lambda>b. np_searchsorted np True (np_sort np pk) b = np_searchsorted np False (np_sort np pk) b) bk = map (\<lambda>b. b \<notin> set pk) bk"
    by (simp add: search_absent [OF assms spk(1)] spk(2))
  have pairs: "map int (concat (map ?run pk)) = map fst (concat (map (\<lambda>j. map (\<lambda>i. (int i, int j)) (List.filter (\<lambda>i. bk ! i = pk ! j) [0..<length bk])) [0..<length pk]))"
    using map_nth_upt [of "\<lambda>p. map int (?run p)" pk] by (simp add: map_concat o_def)
  have pairs': "map int (concat (map (\<lambda>j. replicate (length (?run (pk ! j))) j) [0..<length pk])) =
      map snd (concat (map (\<lambda>j. map (\<lambda>i. (int i, int j)) (List.filter (\<lambda>i. bk ! i = pk ! j) [0..<length bk])) [0..<length pk]))"
    by (simp add: map_concat o_def map_replicate_const)
  obtain build_idx probe_idx where ip: "inner_pairs np bk pk (match_counts np bk pk) = (build_idx, probe_idx)" by fastforce
  show ?thesis
    using build probe
    unfolding match_keys_def Let_def ip fst_conv snd_conv absent zero keeps_left_def keeps_right_def
    unfolding flatnonzero_map
    by (simp add: matches_def keeps_left_def keeps_right_def pairs pairs' o_def map_replicate_const)
qed

section \<open>Well-formed blocks\<close>

text \<open>Every row has a cell for every field, and only a masked block hides values.\<close>

definition wf_block :: "('d, 'v) block \<Rightarrow> bool" where
  "wf_block b \<longleftrightarrow> bk_dtype b \<noteq> [] \<and> distinct (map fst (bk_dtype b)) \<and> (\<forall>row \<in> set (bk_rows b). length row = length (bk_dtype b)) \<and>
     (bk_masked b \<or> (\<forall>row \<in> set (bk_rows b). \<forall>c \<in> set row. \<not> snd c))"

lemma wf_blockD:
  "wf_block b \<Longrightarrow> row \<in> set (bk_rows b) \<Longrightarrow> length row = length (bk_dtype b)"
  "wf_block b \<Longrightarrow> row \<in> set (bk_rows b) \<Longrightarrow> cell \<in> set row \<Longrightarrow> \<not> bk_masked b \<Longrightarrow> \<not> snd cell"
  by (auto simp: wf_block_def)

lemma field_index_Some: "field_index dt n = Some i \<Longrightarrow> i < length dt \<and> fst (dt ! i) = n"
  by (induction dt n arbitrary: i rule: field_index.induct) (auto split: if_splits simp: nth_Cons split: nat.split)

lemma field_index_map_of: "map_of dt n = map_option (\<lambda>i. snd (dt ! i)) (field_index dt n)"
  by (induction dt n rule: field_index.induct) (auto simp: option.map_comp o_def)

lemma field_index_None: "field_index dt n = None \<longleftrightarrow> n \<notin> set (map fst dt)"
  by (induction dt n rule: field_index.induct) auto

lemma wf_rows_subset:
  "wf_block b \<Longrightarrow> set rows \<subseteq> set (bk_rows b) \<Longrightarrow> wf_block (b\<lparr>bk_rows := rows\<rparr>)"
  by (auto simp: wf_block_def)

lemma where_dest_map: "where_dest rows (map h rows) d = List.filter (\<lambda>r. h r = d) rows"
  by (induction rows) (simp_all add: where_dest_def)

lemma where_dest_subset: "set (where_dest rows dest d) \<subseteq> set rows"
  by (auto simp: where_dest_def dest: set_zip_leftD)

lemma broadcast_rows_same [simp]: "broadcast_rows (length rows) rows = Inr rows"
  by (simp add: broadcast_rows_def)

text \<open>What the gather of a non-empty block's rows is, and how it hides.\<close>

lemma traverse_total: "(\<And>x. x \<in> set xs \<Longrightarrow> \<exists>y. f x = Inr y) \<Longrightarrow> \<exists>ys. traverse f xs = Inr ys \<and> list_all2 (\<lambda>x y. f x = Inr y) xs ys"
proof (induction xs)
  case (Cons x xs)
  then obtain y ys where "f x = Inr y" "traverse f xs = Inr ys" "list_all2 (\<lambda>x y. f x = Inr y) xs ys" by fastforce
  then show ?case by auto
qed simp

lemma gather_row_cases:
  "gather_row rows i = Inr row \<longleftrightarrow> (if i < 0 then 0 else nat i) < length rows \<and> row = (if i < 0 then map hide (rows ! 0) else rows ! nat i)"
  by (auto simp: gather_row_def Let_def)

lemma wf_masked_gather: "wf_block b \<Longrightarrow> masked_gather np b idx = Inr c \<Longrightarrow> wf_block c"
proof (cases "bk_rows b = []")
  case True
  assume "wf_block b" "masked_gather np b idx = Inr c"
  with True show ?thesis by (auto simp: masked_gather_def wf_block_def)
next
  case False
  assume b: "wf_block b" and c: "masked_gather np b idx = Inr c"
  from c False obtain rows where rows: "traverse (gather_row (bk_rows b)) idx = Inr rows" "c = b\<lparr>bk_rows := rows, bk_masked := list_ex (list_ex snd) rows\<rparr>"
    by (auto simp: masked_gather_def result_bind_Inr_iff)
  have "length row = length (bk_dtype b)" if "row \<in> set rows" for row
  proof -
    from traverse_all2 [OF rows(1)] that obtain i where "gather_row (bk_rows b) i = Inr row" by (force simp: list_all2_conv_all_nth in_set_conv_nth)
    with b show ?thesis by (auto simp: gather_row_cases wf_block_def split: if_splits)
  qed
  with b show ?thesis by (auto simp: rows(2) wf_block_def list_ex_iff)
qed

lemma key_sources_shape:
  "key_sources ldt rdt on n rr = Inr sources \<Longrightarrow> length sources = length ldt \<and>
     (\<forall>k < length ldt. fst (sources ! k) = snd (ldt ! k) \<and>
        snd (sources ! k) = (if fst (ldt ! k) \<in> set on then map_option (\<lambda>i. (i, snd (rdt ! i))) (field_index rdt (fst (ldt ! k))) else None) \<and>
        (fst (ldt ! k) \<in> set on \<longrightarrow> field_index rdt (fst (ldt ! k)) \<noteq> None))"
proof -
  assume "key_sources ldt rdt on n rr = Inr sources"
  from traverse_all2 [OF this [unfolded key_sources_def]]
  have l: "length sources = length ldt" and e: "\<And>k. k < length ldt \<Longrightarrow>
      (\<lambda>(name, d). if name \<in> set on
        then (case field_index rdt name of None \<Rightarrow> Inl (no_field name)
          | Some i \<Rightarrow> result_bind (broadcast_rows n rr) (\<lambda>_. Inr (d, Some (i, snd (rdt ! i))))) else Inr (d, None)) (ldt ! k) = Inr (sources ! k)"
    by (auto simp: list_all2_conv_all_nth)
  have "fst (sources ! k) = snd (ldt ! k) \<and>
        snd (sources ! k) = (if fst (ldt ! k) \<in> set on then map_option (\<lambda>i. (i, snd (rdt ! i))) (field_index rdt (fst (ldt ! k))) else None) \<and>
        (fst (ldt ! k) \<in> set on \<longrightarrow> field_index rdt (fst (ldt ! k)) \<noteq> None)" if "k < length ldt" for k
    using e [OF that]
    by (cases "ldt ! k"; cases "sources ! k"; cases "field_index rdt (fst (ldt ! k))"; cases "fst (ldt ! k) \<in> set on")
       (auto simp: result_bind_Inr_iff)
  with l show ?thesis by blast
qed

lemma length_merge_row: "length sources = length l \<Longrightarrow> length (merge_row np sources extra l r) = length l + length extra"
  by (simp add: merge_row_def)

lemma extra_bound: "i \<in> set (extra_fields ldt rdt on) \<Longrightarrow> i < length rdt \<and> fst (rdt ! i) \<notin> set (map fst ldt)"
  by (simp add: extra_fields_def)

lemma distinct_merged:
  assumes "distinct (map fst ldt)" "distinct (map fst rdt)"
  shows "distinct (map fst (ldt @ map (nth rdt) (extra_fields ldt rdt on)))"
proof -
  let ?ex = "extra_fields ldt rdt on"
  have "distinct (map (\<lambda>i. fst (rdt ! i)) ?ex)"
    unfolding distinct_map
  proof (intro conjI inj_onI)
    show "distinct ?ex" by (simp add: extra_fields_def)
    fix i j assume "i \<in> set ?ex" "j \<in> set ?ex" "fst (rdt ! i) = fst (rdt ! j)"
    then show "i = j" using nth_eq_iff_index_eq [OF assms(2), of i j] extra_bound [of i ldt rdt on] extra_bound [of j ldt rdt on] by simp
  qed
  moreover have "fst ` set ldt \<inter> (\<lambda>i. fst (rdt ! i)) ` set ?ex = {}" by (auto simp: extra_fields_def) (metis fst_conv image_eqI)
  ultimately show ?thesis using assms(1) by (simp add: o_def image_image)
qed

lemma wf_merge:
  assumes "wf_block l" "wf_block r" "merge_records np l r on = Inr c"
  shows "wf_block c"
proof -
  let ?ldt = "bk_dtype l" and ?rdt = "bk_dtype r"
  let ?ex = "extra_fields ?ldt ?rdt on"
  from assms(3) obtain sources rrows where
    k: "key_sources ?ldt ?rdt on (length (bk_rows l)) (bk_rows r) = Inr sources" and
    c: "c = (let rows = (if list_ex (\<lambda>s. snd s \<noteq> None) sources \<or> ?ex \<noteq> [] then map2 (merge_row np sources ?ex) (bk_rows l) rrows else bk_rows l)
             in \<lparr>bk_dtype = ?ldt @ map (nth ?rdt) ?ex, bk_rows = rows, bk_masked = list_ex (list_ex snd) rows\<rparr>)"
    by (auto simp: merge_records_def Let_def result_bind_Inr_iff split: if_splits)
  note ks = key_sources_shape [OF k]
  define rows where "rows = (if list_ex (\<lambda>s. snd s \<noteq> None) sources \<or> ?ex \<noteq> [] then map2 (merge_row np sources ?ex) (bk_rows l) rrows else bk_rows l)"
  have "length row = length (?ldt @ map (nth ?rdt) ?ex)" if "row \<in> set rows" for row
    using that assms(1) ks by (auto simp: rows_def wf_block_def length_merge_row dest!: set_zip_leftD split: if_splits)
  moreover have "distinct (map fst (?ldt @ map (nth ?rdt) ?ex))" using assms(1,2) by (intro distinct_merged) (auto simp: wf_block_def)
  moreover have "c = \<lparr>bk_dtype = ?ldt @ map (nth ?rdt) ?ex, bk_rows = rows, bk_masked = list_ex (list_ex snd) rows\<rparr>"
    unfolding c Let_def rows_def ..
  ultimately show ?thesis using assms(1) by (auto simp: wf_block_def list_ex_iff)
qed

lemma wf_structured:
  assumes "structured cols = Inr b" "distinct (map fst cols)"
  shows "wf_block b"
proof -
  from assms(1) obtain n d first rest where cols: "cols = (n, d, first) # rest" by (auto simp: structured_def split: list.splits)
  with assms(1) obtain vals where v: "traverse (\<lambda>(_, _, vs). broadcast_rows (length first) vs) cols = Inr vals"
    and b: "b = \<lparr>bk_dtype = map (\<lambda>(n, d, _). (n, d)) cols, bk_rows = map (\<lambda>i. map (\<lambda>vs. (vs ! i, False)) vals) [0..<length first], bk_masked = False\<rparr>"
    by (auto simp: structured_def result_bind_Inr_iff)
  have "map fst (map (\<lambda>(n, d, _). (n, d)) cols) = map fst cols" by auto
  then have "distinct (map fst (bk_dtype b))" using assms(2) by (simp only: b block.simps)
  with traverse_length [OF v] show ?thesis unfolding wf_block_def by (auto simp: b cols)
qed

lemma wf_concat:
  assumes "np_concat np bs = Inr c" "\<forall>b \<in> set bs. wf_block b" "\<forall>b \<in> set bs. bk_dtype b = f"
  shows "wf_block c"
proof -
  from assms(1,3) obtain b rest where b: "bs = b # rest" "c = \<lparr>bk_dtype = f, bk_rows = concat (map bk_rows bs), bk_masked = list_ex bk_masked bs\<rparr>"
    by (cases bs) (auto simp: np_concat_def list_all_iff)
  have "wf_block b" "bk_dtype b = f" using assms(2,3) b(1) by auto
  moreover have "\<forall>row \<in> set (concat (map bk_rows bs)). length row = length f"
    using wf_blockD(1) assms(2,3) by fastforce
  moreover have "list_ex bk_masked bs \<or> (\<forall>row \<in> set (concat (map bk_rows bs)). \<forall>cell \<in> set row. \<not> snd cell)"
    using wf_blockD(2) assms(2) unfolding list_ex_iff set_concat set_map by blast
  ultimately show ?thesis unfolding b(2) wf_block_def block.simps by blast
qed

section \<open>The numpy backend keeps the exchange contract\<close>

definition numpy_ops :: "('d, 'v) numpy \<Rightarrow> (string \<Rightarrow> string) \<Rightarrow> ('d, 'v) block block_ops" where
  "numpy_ops np sha = \<lparr>bo_partition = (\<lambda>b k parts. np_partition np sha b k parts 0), bo_concat = np_concat np, bo_slice = slice_rows,
     bo_to_wire = to_wire np, bo_from_wire = from_wire np, bo_match = match_indices np, bo_take = take_rows np,
     bo_merge = merge_records np, bo_len = (\<lambda>b. length (bk_rows b))\<rparr>"

text \<open>Rows as a reader sees them; a block of a form, under the documented numpy.\<close>

definition np_rows :: "('d, 'v) block \<Rightarrow> 'v option list list" where
  "np_rows b = map (map visible) (bk_rows b)"

definition np_good :: "('d, 'v :: linorder) numpy \<Rightarrow> (string \<times> 'd) list \<Rightarrow> ('d, 'v) block \<Rightarrow> bool" where
  "np_good np f b \<longleftrightarrow> numpy_documented np \<and> wf_block b \<and> bk_dtype b = f"

definition np_keyed :: "('d, 'v) block \<Rightarrow> string list \<Rightarrow> bool" where
  "np_keyed b on \<longleftrightarrow> (\<forall>n \<in> set on. \<exists>i. field_index (bk_dtype b) n = Some i \<and> (\<forall>row \<in> set (np_rows b). row ! i \<noteq> None))"

definition np_key :: "(string \<times> 'd) list \<Rightarrow> string list \<Rightarrow> 'v option list \<Rightarrow> 'v list" where
  "np_key f on row = map (\<lambda>n. the (row ! the (field_index f n))) on"

definition key_dest :: "(string \<Rightarrow> string) \<Rightarrow> 64 word \<Rightarrow> int \<Rightarrow> int" where
  "key_dest sha k parts = be_value (take 8 (sha (be_bytes 8 (unat k)))) mod parts"

definition np_dest :: "('d, 'v) numpy \<Rightarrow> (string \<Rightarrow> string) \<Rightarrow> (string \<times> 'd) list \<Rightarrow> string \<Rightarrow> int \<Rightarrow> 'v option list \<Rightarrow> nat" where
  "np_dest np sha f k parts row = nat (key_dest sha (np_uint64 np (the (row ! the (field_index f k)))) parts)"

definition np_joinable :: "(string \<times> 'd) list \<Rightarrow> (string \<times> 'd) list \<Rightarrow> string list \<Rightarrow> bool" where
  "np_joinable f g on \<longleftrightarrow> on \<noteq> [] \<and> (\<forall>n \<in> set on. map_of f n \<noteq> None \<and> map_of g n = map_of f n) \<and> set (map fst f) \<inter> set (map fst g) \<subseteq> set on"

definition np_null :: "(string \<times> 'd) list \<Rightarrow> 'v option list" where
  "np_null f = map (\<lambda>_. None) f"

definition np_merge :: "(string \<times> 'd) list \<Rightarrow> (string \<times> 'd) list \<Rightarrow> string list \<Rightarrow> 'v option list \<Rightarrow> 'v option list \<Rightarrow> 'v option list" where
  "np_merge f g on l r =
     map2 (\<lambda>(n, d) c. if n \<in> set on \<and> c = None then r ! the (field_index g n) else c) f l @ map (nth r) (extra_fields f g on)"

definition np_merged :: "(string \<times> 'd) list \<Rightarrow> (string \<times> 'd) list \<Rightarrow> string list \<Rightarrow> (string \<times> 'd) list" where
  "np_merged f g on = f @ map (nth g) (extra_fields f g on)"

lemma route_total: "0 < parts \<Longrightarrow> route sha (uint k) parts 0 = Inr (key_dest sha k parts)"
  by (simp add: route_def int_bytes8_def key_dest_def uint_lt2p [of k, simplified])

lemma dests_total: "0 < parts \<Longrightarrow> dests sha ks parts 0 = Inr (map (\<lambda>k. key_dest sha k parts) ks)"
  unfolding dests_def by (rule traverse_Inr_map) (simp add: route_total)

lemma key_dest_range: "0 < parts \<Longrightarrow> 0 \<le> key_dest sha k parts \<and> key_dest sha k parts < parts"
  by (simp add: key_dest_def)

lemma keyed_visible:
  assumes "np_keyed b on" "n \<in> set on" "field_index (bk_dtype b) n = Some i" "row \<in> set (bk_rows b)" "length row = length (bk_dtype b)"
  shows "map visible row ! i = Some (fst (row ! i))"
proof -
  from assms(1,2,3) have "map visible row ! i \<noteq> None" using assms(4) by (force simp: np_keyed_def np_rows_def)
  moreover have "i < length row" using field_index_Some [OF assms(3)] assms(5) by simp
  ultimately show ?thesis by (simp add: visible_def split: if_splits)
qed

lemma np_partition_rows:
  assumes "np_good np f b" "np_keyed b [k]" "0 < parts"
  shows "\<exists>bs. np_partition np sha b k parts 0 = Inr bs \<and> length bs = nat parts \<and>
        (\<forall>d < nat parts. np_good np f (bs ! d) \<and> np_rows (bs ! d) = List.filter (\<lambda>r. np_dest np sha f k parts r = d) (np_rows b) \<and>
           (\<forall>on. np_keyed b on \<longrightarrow> np_keyed (bs ! d) on))"
proof -
  from assms(1) have g: "wf_block b" "bk_dtype b = f" by (auto simp: np_good_def)
  from assms(2) obtain i where i: "field_index f k = Some i" by (auto simp: np_keyed_def g(2))
  have col: "column b k = Inr (map (\<lambda>row. fst (row ! i)) (bk_rows b))"
    by (simp add: column_def cells_def g(2) i o_def)
  let ?h = "\<lambda>row. key_dest sha (np_uint64 np (fst (row ! i))) parts"
  let ?part = "\<lambda>d. b\<lparr>bk_rows := List.filter (\<lambda>row. ?h row = d) (bk_rows b)\<rparr>"
  have p: "np_partition np sha b k parts 0 = Inr (map ?part (py_range parts))"
    by (simp add: np_partition_def col dests_total [OF assms(3)] o_def where_dest_map)
  have rows: "np_rows (?part (int d)) = List.filter (\<lambda>r. np_dest np sha f k parts r = d) (np_rows b)" for d
  proof -
    have "np_dest np sha f k parts (map visible row) = d \<longleftrightarrow> ?h row = int d" if "row \<in> set (bk_rows b)" for row
      using keyed_visible [OF assms(2), of k i row] that i g wf_blockD(1) [OF g(1) that] key_dest_range [OF assms(3), of sha "np_uint64 np (fst (row ! i))"]
      by (auto simp: np_dest_def)
    then have "List.filter (\<lambda>row. ?h row = int d) (bk_rows b) = List.filter (\<lambda>row. np_dest np sha f k parts (map visible row) = d) (bk_rows b)"
      by (intro filter_cong) auto
    then show ?thesis by (simp add: np_rows_def filter_map o_def)
  qed
  have good: "np_good np f (?part d)" for d
    using assms(1) by (auto simp: np_good_def wf_block_def)
  have keyed: "np_keyed b on \<Longrightarrow> np_keyed (?part d) on" for on d
    by (fastforce simp: np_keyed_def np_rows_def)
  have nth: "map ?part (py_range parts) ! d = ?part (int d)" if "d < nat parts" for d
    using that by (simp add: py_range_def)
  show ?thesis
    using p good keyed rows nth by (intro exI [of _ "map ?part (py_range parts)"]) (simp add: py_range_def)
qed

lemma np_keyedD:
  "np_keyed b on \<Longrightarrow> n \<in> set on \<Longrightarrow> \<exists>i. field_index (bk_dtype b) n = Some i \<and> (\<forall>row \<in> set (np_rows b). row ! i \<noteq> None)"
  unfolding np_keyed_def by blast

lemma np_keyed_rows:
  "np_keyed b on \<Longrightarrow> n \<in> set on \<Longrightarrow> field_index (bk_dtype b) n = Some i \<Longrightarrow> row \<in> set (np_rows b) \<Longrightarrow> row ! i \<noteq> None"
  using np_keyedD [of b on n] by auto

lemma keyed_concat:
  assumes "\<forall>b \<in> set bs. np_keyed b on \<and> bk_dtype b = f" "bk_dtype c = f" "np_rows c = concat (map np_rows bs)" "bs \<noteq> []"
  shows "np_keyed c on"
  unfolding np_keyed_def
proof
  fix n assume n: "n \<in> set on"
  obtain b where "b \<in> set bs" using assms(4) by (cases bs) auto
  with assms(1) np_keyedD [OF _ n, of b] obtain i where i: "field_index f n = Some i" by metis
  have "row ! i \<noteq> None" if "b \<in> set bs" "row \<in> set (np_rows b)" for b row
    using assms(1) that np_keyed_rows [OF _ n, of b i row] i by metis
  then show "\<exists>i. field_index (bk_dtype c) n = Some i \<and> (\<forall>row \<in> set (np_rows c). row ! i \<noteq> None)"
    using i assms(2,3) by auto
qed

lemma np_concat_rows:
  assumes "bs \<noteq> []" "\<forall>b \<in> set bs. np_good np f b"
  shows "\<exists>c. np_concat np bs = Inr c \<and> np_good np f c \<and> np_rows c = concat (map np_rows bs) \<and> (\<forall>on. (\<forall>b \<in> set bs. np_keyed b on) \<longrightarrow> np_keyed c on)"
proof -
  let ?c = "\<lparr>bk_dtype = f, bk_rows = concat (map bk_rows bs), bk_masked = list_ex bk_masked bs\<rparr>"
  have dt: "\<forall>b \<in> set bs. bk_dtype b = f" "\<forall>b \<in> set bs. wf_block b" "numpy_documented np"
    using assms by (auto simp: np_good_def neq_Nil_conv)
  have c: "np_concat np bs = Inr ?c" using assms(1) dt(1) by (cases bs) (auto simp: np_concat_def list_all_iff)
  have r: "np_rows ?c = concat (map np_rows bs)" by (simp add: np_rows_def [abs_def] map_concat o_def)
  have "np_good np f ?c" using wf_concat [OF c dt(2,1)] dt(3) by (simp add: np_good_def)
  moreover have "np_keyed ?c on" if "\<forall>b \<in> set bs. np_keyed b on" for on
    using keyed_concat [of bs on f ?c] that dt(1) r assms(1) by simp
  ultimately show ?thesis using c r by blast
qed

lemma plain_cells: "wf_block b \<Longrightarrow> \<not> bk_masked b \<Longrightarrow> map (map (\<lambda>v. (v, False))) (map (map fst) (bk_rows b)) = bk_rows b"
proof -
  assume b: "wf_block b" "\<not> bk_masked b"
  have "map ((\<lambda>v. (v, False)) \<circ> fst) row = row" if "row \<in> set (bk_rows b)" for row
  proof (rule map_idI)
    fix c assume "c \<in> set row"
    with wf_blockD(2) [OF b(1) that _ b(2)] have "\<not> snd c" by blast
    then show "((\<lambda>v. (v, False)) \<circ> fst) c = c" by (simp add: prod_eq_iff)
  qed
  then show ?thesis by (simp add: map_idI)
qed

lemma np_wire_masked:
  assumes "np_good np f b"
  shows "\<exists>w c. to_wire np b = Inr w \<and> from_wire np w = Inr c \<and> bk_masked c = bk_masked b \<and> np_good np f c \<and> np_rows c = np_rows b \<and> (\<forall>on. np_keyed b on \<longrightarrow> np_keyed c on)"
proof -
  from assms have b: "numpy_documented np" "wf_block b" "bk_dtype b = f" by (auto simp: np_good_def)
  have keyed: "np_keyed c on" if "np_keyed b on" "np_rows c = np_rows b" "bk_dtype c = f" for c on
    using that b(3) by (simp add: np_keyed_def)
  show ?thesis
  proof (cases "bk_masked b")
    case False
    have "from_wire np (np_save np (bk_dtype b) (map (map fst) (bk_rows b))) = Inr (b\<lparr>bk_masked := False\<rparr>)"
      unfolding from_wire_def documentedD(8,9) [OF b(1)] by (simp only: plain_cells [OF b(2) False] simp_thms if_True result_bind_simps prod.case) simp
    moreover have "b\<lparr>bk_masked := False\<rparr> = b" using False by simp
    ultimately show ?thesis using False assms by (intro exI [of _ "np_save np (bk_dtype b) (map (map fst) (bk_rows b))"] exI [of _ b]) (simp add: to_wire_def)
  next
    case True
    let ?col = "\<lambda>i. map (\<lambda>row. if snd (row ! i) then None else Some (fst (row ! i))) (bk_rows b)"
    let ?cols = "map (\<lambda>(i, n, d). (n, d, ?col i)) (enumerate 0 (bk_dtype b))"
    have ne: "?cols \<noteq> []" and len: "length ?cols = length f" using b(2,3) by (auto simp: wf_block_def enumerate_eq_zip)
    from documentedD(10) [OF b(1) ne] obtain w cs where w: "pa_write np ?cols = Inr w" "take 6 w \<noteq> npy_magic" "pa_read np w = Inr cs"
      and all: "list_all2 (\<lambda>(n, d, vs) (n', d', cs). n' = n \<and> d' = d \<and> map visible cs = vs) ?cols cs" by blast
    have lcs: "length cs = length f" using list_all2_lengthD [OF all] len by simp
    have col: "fst (cs ! j) = fst (f ! j) \<and> fst (snd (cs ! j)) = snd (f ! j) \<and> map visible (snd (snd (cs ! j))) = ?col j" if "j < length f" for j
      using list_all2_nthD2 [OF all, of j] that lcs b(3) by (cases "cs ! j"; cases "f ! j") (auto simp: nth_enumerate_eq)
    have lcol: "length (snd (snd (cs ! j))) = length (bk_rows b)" if "j < length f" for j
    proof -
      have "length (map visible (snd (snd (cs ! j)))) = length (?col j)" using col [OF that] by (simp only:)
      then show ?thesis by (simp only: length_map)
    qed
    obtain n0 d0 first rest where cs: "cs = (n0, d0, first) # rest" using lcs b(2,3) by (cases cs) (auto simp: wf_block_def)
    then have fl: "length first = length (bk_rows b)" using lcol [of 0] lcs by (cases f) auto
    let ?c = "\<lparr>bk_dtype = map (\<lambda>(n, d, _). (n, d)) cs, bk_rows = map (\<lambda>i. map (\<lambda>(_, _, cells). cells ! i) cs) [0..<length first], bk_masked = True\<rparr>"
    have fw: "from_wire np w = Inr ?c" using w(2,3) by (simp add: from_wire_def mask_from_wire_def cs)
    have dt: "bk_dtype ?c = f"
    proof (rule nth_equalityI)
      fix j assume "j < length (bk_dtype ?c)"
      then have "j < length f" using lcs by simp
      with col [OF this] lcs show "bk_dtype ?c ! j = f ! j" by (simp add: prod_eq_iff case_prod_unfold)
    qed (simp add: lcs)
    have "map visible (map (\<lambda>(_, _, cells). cells ! i) cs) = map visible (bk_rows b ! i)" if "i < length (bk_rows b)" for i
    proof (rule nth_equalityI)
      have rl: "length (bk_rows b ! i) = length f" using wf_blockD(1) [OF b(2)] that b(3) by simp
      then show "length (map visible (map (\<lambda>(_, _, cells). cells ! i) cs)) = length (map visible (bk_rows b ! i))" using lcs by simp
      fix j assume "j < length (map visible (map (\<lambda>(_, _, cells). cells ! i) cs))"
      then have j: "j < length f" using lcs by simp
      have "visible (snd (snd (cs ! j)) ! i) = map visible (snd (snd (cs ! j))) ! i" using lcol [OF j] that by simp
      also have "\<dots> = visible (bk_rows b ! i ! j)" using col [OF j] that by (simp add: visible_def)
      finally show "map visible (map (\<lambda>(_, _, cells). cells ! i) cs) ! j = map visible (bk_rows b ! i) ! j"
        using j lcs rl by (simp add: case_prod_unfold)
    qed
    then have rows: "np_rows ?c = np_rows b" unfolding np_rows_def by (intro nth_equalityI) (auto simp: fl)
    have "wf_block ?c" unfolding wf_block_def dt using b(2,3) lcs by (auto simp: wf_block_def)
    then have "np_good np f ?c" using dt b(1) by (simp add: np_good_def)
    then show ?thesis using w(1) True fw rows keyed [OF _ rows dt] by (auto simp: to_wire_def mask_to_wire_def)
  qed
qed

lemma np_wire:
  assumes "np_good np f b"
  shows "\<exists>w c. to_wire np b = Inr w \<and> from_wire np w = Inr c \<and> np_good np f c \<and> np_rows c = np_rows b \<and> (\<forall>on. np_keyed b on \<longrightarrow> np_keyed c on)"
  using np_wire_masked [OF assms] by blast

lemma np_match:
  assumes "np_good np f l" "np_good np g r" "np_keyed l on" "np_keyed r on" "np_joinable f g on"
  shows "match_indices np l r on how =
    Inr (let ps = matches (map (np_key f on) (np_rows l)) (map (np_key g on) (np_rows r)) how in (map fst ps, map snd ps))"
proof -
  have keys: "key_rows b on = Inr (map (np_key f on) (np_rows b))" if b: "np_good np f b" "np_keyed b on" for f b
  proof -
    from b(1) have w: "wf_block b" "bk_dtype b = f" by (auto simp: np_good_def)
    have ne: "on \<noteq> []" using assms(5) by (simp add: np_joinable_def)
    have idx: "\<exists>i. field_index f n = Some i" if "n \<in> set on" for n
      using np_keyedD [OF b(2) that] w(2) by auto
    have val: "the (map visible row ! the (field_index f n)) = fst (row ! the (field_index f n))" if "n \<in> set on" "row \<in> set (bk_rows b)" for n row
      using idx [OF that(1)] keyed_visible [OF b(2) that(1) _ that(2) wf_blockD(1) [OF w(1) that(2)]] w(2) by auto
    have rows: "map (\<lambda>row. map (\<lambda>n. fst (row ! the (field_index f n))) on) (bk_rows b) = map (np_key f on) (np_rows b)"
      using val by (simp add: np_key_def np_rows_def)
    show ?thesis
    proof (cases "\<exists>name. on = [name]")
      case True
      then obtain name where on: "on = [name]" by blast
      with idx obtain i where "field_index f name = Some i" by auto
      with rows w(2) show ?thesis by (simp add: key_rows_def column_def cells_def on o_def)
    next
      case False
      have t: "traverse (\<lambda>name. case field_index (bk_dtype b) name of None \<Rightarrow> Inl (KeyError (py_repr name)) | Some i \<Rightarrow> Inr i) on
          = Inr (map (\<lambda>n. the (field_index f n)) on)"
        using idx w(2) by (intro traverse_Inr_map) (auto split: option.split)
      have "key_rows b on = result_bind (traverse (\<lambda>name. case field_index (bk_dtype b) name of None \<Rightarrow> Inl (KeyError (py_repr name)) | Some i \<Rightarrow> Inr i) on)
          (\<lambda>is. Inr (map (\<lambda>row. map (\<lambda>i. fst (row ! i)) is) (bk_rows b)))"
        using False ne by (auto simp: key_rows_def split: list.split)
      then show ?thesis using rows by (simp add: t o_def)
    qed
  qed
  have d: "numpy_documented np" using assms(1) by (simp add: np_good_def)
  show ?thesis
    unfolding match_indices_def keys [OF assms(1,3)] keys [OF assms(2,4)] result_bind_simps match_keys_matches [OF d] ..
qed

lemma np_take:
  assumes "np_good np f b" "\<forall>i \<in> set idx. i < int (length (np_rows b))"
  shows "\<exists>c. take_rows np b idx = Inr c \<and> np_good np f c \<and> np_rows c = map (\<lambda>i. if i < 0 then np_null f else np_rows b ! nat i) idx"
proof (cases "bk_rows b = []")
  case True
  from assms(1) have b: "wf_block b" "bk_dtype b = f" by (auto simp: np_good_def)
  let ?c = "b\<lparr>bk_rows := map (\<lambda>_. map (\<lambda>(_, d). (np_zero np d, True)) (bk_dtype b)) idx, bk_masked := True\<rparr>"
  have t: "take_rows np b idx = Inr ?c" using True by (simp add: take_rows_def masked_gather_def)
  have "np_rows ?c = map (\<lambda>i. np_null f) idx" by (simp add: np_rows_def np_null_def b(2) visible_def case_prod_unfold o_def)
  moreover have "i < 0" if "i \<in> set idx" for i using assms(2) that True by (auto simp: np_rows_def)
  ultimately have r: "np_rows ?c = map (\<lambda>i. if i < 0 then np_null f else np_rows b ! nat i) idx" by simp
  have "np_good np f ?c" using wf_masked_gather [OF b(1) t [unfolded take_rows_def]] assms(1) by (simp add: np_good_def)
  with t r show ?thesis by blast
next
  case False
  from assms(1) have b: "wf_block b" "bk_dtype b = f" by (auto simp: np_good_def)
  let ?row = "\<lambda>i. if i < 0 then map hide (bk_rows b ! 0) else bk_rows b ! nat i"
  have "traverse (gather_row (bk_rows b)) idx = Inr (map ?row idx)"
    using assms(2) False by (intro traverse_Inr_map) (auto simp: gather_row_cases np_rows_def)
  then have t: "take_rows np b idx = Inr (b\<lparr>bk_rows := map ?row idx, bk_masked := list_ex (list_ex snd) (map ?row idx)\<rparr>)"
    (is "_ = Inr ?c") using False by (simp add: take_rows_def masked_gather_def)
  have "length (bk_rows b ! 0) = length f" using wf_blockD(1) [OF b(1)] False b(2) by simp
  then have "map visible (map hide (bk_rows b ! 0)) = np_null f"
    by (intro nth_equalityI) (simp_all add: np_null_def visible_def hide_def)
  then have "np_rows ?c = map (\<lambda>i. if i < 0 then np_null f else np_rows b ! nat i) idx"
    using assms(2) by (auto simp: np_rows_def)
  moreover have "np_good np f ?c" using wf_masked_gather [OF b(1) t [unfolded take_rows_def]] assms(1) by (simp add: np_good_def)
  ultimately show ?thesis using t by blast
qed

lemma visible_coalesce:
  "numpy_documented np \<Longrightarrow> visible (coalesce np d d l r) = (if visible l = None then visible r else visible l)"
  by (simp add: coalesce_def documentedD(5,6) visible_def)

lemma joinable_field:
  assumes "np_joinable f g on" "distinct (map fst f)" "k < length f" "fst (f ! k) \<in> set on"
  shows "\<exists>i. field_index g (fst (f ! k)) = Some i \<and> snd (g ! i) = snd (f ! k)"
proof -
  have "map_of f (fst (f ! k)) = Some (snd (f ! k))" using assms(2,3) by (simp add: map_of_is_SomeI)
  with assms(1,4) have "map_of g (fst (f ! k)) = Some (snd (f ! k))" by (auto simp: np_joinable_def)
  then show ?thesis by (auto simp: field_index_map_of)
qed

lemma merge_row_visible:
  assumes "numpy_documented np" "np_joinable f g on" "distinct (map fst f)" "key_sources f g on n rr = Inr sources"
    and "length l = length f" "length r = length g"
  shows "map visible (merge_row np sources (extra_fields f g on) l r) = np_merge f g on (map visible l) (map visible r)"
proof -
  note ks = key_sources_shape [OF assms(4)]
  have "visible ((\<lambda>(ld, src) c. case src of None \<Rightarrow> c | Some (i, rd) \<Rightarrow> coalesce np ld rd c (r ! i)) (sources ! k) (l ! k)) =
      (\<lambda>(n, d) c. if n \<in> set on \<and> c = None then map visible r ! the (field_index g n) else c) (f ! k) (visible (l ! k))"
    if k: "k < length f" for k
  proof (cases "fst (f ! k) \<in> set on")
    case True
    from joinable_field [OF assms(2,3) k True] obtain i where i: "field_index g (fst (f ! k)) = Some i" "snd (g ! i) = snd (f ! k)" by blast
    have "sources ! k = (snd (f ! k), Some (i, snd (f ! k)))" using ks k True i by (simp add: prod_eq_iff)
    moreover have "i < length r" using field_index_Some [OF i(1)] assms(6) by simp
    ultimately show ?thesis using True i(1) by (cases "f ! k") (simp add: visible_coalesce [OF assms(1)])
  next
    case False
    then have "sources ! k = (snd (f ! k), None)" using ks k by (simp add: prod_eq_iff)
    with False show ?thesis by (cases "f ! k") simp
  qed
  then have "map visible (map2 (\<lambda>(ld, src) c. case src of None \<Rightarrow> c | Some (i, rd) \<Rightarrow> coalesce np ld rd c (r ! i)) sources l) =
      map2 (\<lambda>(n, d) c. if n \<in> set on \<and> c = None then map visible r ! the (field_index g n) else c) f (map visible l)"
    using ks assms(5) by (intro nth_equalityI) auto
  moreover have "map visible (map (nth r) (extra_fields f g on)) = map (nth (map visible r)) (extra_fields f g on)"
    using assms(6) by (auto simp: extra_fields_def)
  ultimately show ?thesis by (simp add: merge_row_def np_merge_def)
qed

lemma np_merge_law:
  assumes "np_good np f l" "np_good np g r" "np_joinable f g on" "length (np_rows l) = length (np_rows r)"
  shows "\<exists>c. merge_records np l r on = Inr c \<and> np_good np (np_merged f g on) c \<and> np_rows c = map2 (np_merge f g on) (np_rows l) (np_rows r)"
proof -
  from assms(1,2) have w: "wf_block l" "wf_block r" "bk_dtype l = f" "bk_dtype r = g" "numpy_documented np" by (auto simp: np_good_def)
  have dist: "distinct (map fst f)" using w(1,3) by (auto simp: wf_block_def)
  have len: "length (bk_rows l) = length (bk_rows r)" using assms(4) by (simp add: np_rows_def)
  let ?ex = "extra_fields f g on"
  have shared: "List.filter (\<lambda>n. n \<in> set (map fst f) \<and> n \<notin> set on) (map fst g) = []"
    using assms(3) by (auto simp: np_joinable_def filter_empty_conv)
  have "\<exists>y. (\<lambda>(name, d). if name \<in> set on
        then (case field_index g name of None \<Rightarrow> Inl (no_field name)
          | Some i \<Rightarrow> result_bind (broadcast_rows (length (bk_rows l)) (bk_rows r)) (\<lambda>_. Inr (d, Some (i, snd (g ! i))))) else Inr (d, None)) x = Inr y"
    if "x \<in> set f" for x
  proof -
    from that obtain k where k: "k < length f" "x = f ! k" by (auto simp: in_set_conv_nth)
    show ?thesis
      using joinable_field [OF assms(3) dist k(1)] by (cases "f ! k"; cases "fst (f ! k) \<in> set on") (auto simp: k(2) len)
  qed
  then obtain sources where ks: "key_sources f g on (length (bk_rows l)) (bk_rows r) = Inr sources"
    unfolding key_sources_def using traverse_total [of f] by meson
  have some: "list_ex (\<lambda>s. snd s \<noteq> None) sources"
  proof -
    from assms(3) obtain n where n: "n \<in> set on" "map_of f n \<noteq> None" unfolding np_joinable_def by (metis list.set_sel(1))
    then obtain k where k: "k < length f" "fst (f ! k) = n" by (auto simp: map_of_eq_None_iff in_set_conv_nth)
    then have "snd (sources ! k) \<noteq> None" "k < length sources" using key_sources_shape [OF ks] n(1) by auto
    then show ?thesis unfolding list_ex_iff by (meson nth_mem)
  qed
  let ?rows = "map2 (merge_row np sources ?ex) (bk_rows l) (bk_rows r)"
  let ?c = "\<lparr>bk_dtype = f @ map (nth g) ?ex, bk_rows = ?rows, bk_masked = list_ex (list_ex snd) ?rows\<rparr>"
  have bc: "broadcast_rows (length (bk_rows l)) (bk_rows r) = Inr (bk_rows r)" by (simp add: len)
  have c: "merge_records np l r on = Inr ?c"
    unfolding merge_records_def Let_def w(3,4) shared ks result_bind_simps using some by (simp add: bc)
  have "map visible (merge_row np sources ?ex (bk_rows l ! i) (bk_rows r ! i)) = np_merge f g on (np_rows l ! i) (np_rows r ! i)"
    if "i < length (bk_rows l)" for i
    using merge_row_visible [OF w(5) assms(3) dist ks, of "bk_rows l ! i" "bk_rows r ! i"] that len wf_blockD(1) [OF w(1)] wf_blockD(1) [OF w(2)] w(3,4)
    by (simp add: np_rows_def)
  then have "np_rows ?c = map2 (np_merge f g on) (np_rows l) (np_rows r)"
    using len by (intro nth_equalityI) (auto simp: np_rows_def)
  moreover have "np_good np (np_merged f g on) ?c"
    using wf_merge [OF w(1,2) c] w(5) by (simp add: np_good_def np_merged_def)
  ultimately show ?thesis using c by blast
qed

interpretation np: exchange "numpy_ops np sha" "np_good np" np_rows np_keyed "np_dest np sha" np_key np_joinable np_null np_merge np_merged
  for np :: "('d, 'v :: linorder) numpy" and sha :: "string \<Rightarrow> string"
proof (unfold_locales, goal_cases)
  case (1 f b k parts)
  then show ?case unfolding numpy_ops_def block_ops.simps by (rule np_partition_rows)
next
  case (2 parts f k x)
  then show ?case using key_dest_range [of parts sha] by (simp add: np_dest_def nat_less_iff)
next
  case (3 bs f)
  then show ?case unfolding numpy_ops_def block_ops.simps by (rule np_concat_rows)
next
  case (4 f b)
  then show ?case by (auto simp: numpy_ops_def slice_rows_def slice_bound_def np_good_def wf_block_def np_rows_def)
next
  case (5 f b)
  then show ?case unfolding numpy_ops_def block_ops.simps by (rule np_wire)
next
  case (6 f l g r on how)
  then show ?case unfolding numpy_ops_def block_ops.simps by (rule np_match)
next
  case (7 f b idx)
  then show ?case unfolding numpy_ops_def block_ops.simps by (rule np_take)
next
  case (8 f l g r on)
  then show ?case unfolding numpy_ops_def block_ops.simps by (rule np_merge_law)
next
  case (9 f g on k x y parts)
  then show ?case by (auto simp: np_key_def np_dest_def)
qed

section \<open>Packed keys\<close>

text \<open>The packed word of one row, field by field; \<open>unpack_field\<close> reads field \<open>j\<close> of \<open>n\<close> back.\<close>

fun pack_word :: "nat \<Rightarrow> nat \<Rightarrow> 64 word list \<Rightarrow> 64 word \<Rightarrow> 64 word" where
  "pack_word n j [] key = key"
| "pack_word n j (w # ws) key = pack_word n (Suc j) ws (key OR push_bit (20 * (n - 1 - j)) w)"

definition unpack_field :: "nat \<Rightarrow> nat \<Rightarrow> 64 word \<Rightarrow> 64 word" where
  "unpack_field n j key = take_bit 20 (drop_bit (20 * (n - 1 - j)) key)"

lemma narrow_bits:
  assumes "w < (2 :: 64 word) ^ 20" "bit w k"
  shows "k < 20"
proof (rule ccontr)
  assume "\<not> k < 20"
  have "uint w < 2 ^ 20" using assms(1) by (simp add: word_less_def)
  then have "take_bit 20 (uint w) = uint w" by (intro take_bit_int_eq_self) simp_all
  then have "bit (uint w) k \<longleftrightarrow> k < 20 \<and> bit (uint w) k" by (metis bit_take_bit_iff)
  with assms(2) \<open>\<not> k < 20\<close> show False using bit_imp_le_length [OF assms(2)] by (simp add: bit_uint_iff)
qed

lemma bit_pack_word:
  assumes "j + length ws \<le> n" "20 * n \<le> 64" "\<forall>w \<in> set ws. w < 2 ^ 20"
  shows "bit (pack_word n j ws key) k \<longleftrightarrow>
    bit key k \<or> (\<exists>i < length ws. 20 * (n - 1 - (j + i)) \<le> k \<and> k < 64 \<and> bit (ws ! i) (k - 20 * (n - 1 - (j + i))))"
  using assms
proof (induction ws arbitrary: j key)
  case (Cons w ws)
  have "bit (pack_word n j (w # ws) key) k \<longleftrightarrow> bit (key OR push_bit (20 * (n - 1 - j)) w) k \<or>
      (\<exists>i < length ws. 20 * (n - 1 - (Suc j + i)) \<le> k \<and> k < 64 \<and> bit (ws ! i) (k - 20 * (n - 1 - (Suc j + i))))"
    using Cons by simp
  also have "\<dots> \<longleftrightarrow> bit key k \<or> (\<exists>i < length (w # ws). 20 * (n - 1 - (j + i)) \<le> k \<and> k < 64 \<and> bit ((w # ws) ! i) (k - 20 * (n - 1 - (j + i))))"
    by (simp add: Ex_less_Suc2 bit_simps)
  finally show ?case .
qed simp

lemma unpack_pack_word:
  assumes "20 * length ws \<le> 64" "\<forall>w \<in> set ws. w < 2 ^ 20" "j < length ws"
  shows "unpack_field (length ws) j (pack_word (length ws) 0 ws 0) = ws ! j"
proof (rule bit_word_eqI)
  fix k assume "k < LENGTH(64)"
  let ?n = "length ws"
  have field: "20 * (?n - 1 - i) \<le> 20 * (?n - 1 - j) + k \<and> bit (ws ! i) (20 * (?n - 1 - j) + k - 20 * (?n - 1 - i)) \<and> k < 20 \<longleftrightarrow>
      i = j \<and> bit (ws ! j) k" if i: "i < ?n" for i
  proof -
    have w: "ws ! i < 2 ^ 20" "ws ! j < 2 ^ 20" using assms(2,3) i by simp_all
    show ?thesis
    proof (cases "i = j")
      case True
      then show ?thesis using narrow_bits [OF w(2)] by auto
    next
      case False
      have "\<not> (20 * (?n - 1 - i) \<le> 20 * (?n - 1 - j) + k \<and> bit (ws ! i) (20 * (?n - 1 - j) + k - 20 * (?n - 1 - i)) \<and> k < 20)"
      proof
        assume a: "20 * (?n - 1 - i) \<le> 20 * (?n - 1 - j) + k \<and> bit (ws ! i) (20 * (?n - 1 - j) + k - 20 * (?n - 1 - i)) \<and> k < 20"
        then have "20 * (?n - 1 - j) + k - 20 * (?n - 1 - i) < 20" using narrow_bits [OF w(1)] by blast
        with a False i assms(3) show False by linarith
      qed
      with False show ?thesis by blast
    qed
  qed
  have "bit (unpack_field ?n j (pack_word ?n 0 ws 0)) k \<longleftrightarrow> k < 20 \<and>
      (\<exists>i < ?n. 20 * (?n - 1 - i) \<le> 20 * (?n - 1 - j) + k \<and> 20 * (?n - 1 - j) + k < 64 \<and> bit (ws ! i) (20 * (?n - 1 - j) + k - 20 * (?n - 1 - i)))"
    using bit_pack_word [of 0 ws ?n 0 "20 * (?n - 1 - j) + k"] assms(1,2) by (auto simp: unpack_field_def bit_simps)
  also have "\<dots> \<longleftrightarrow> 20 * (?n - 1 - j) + k < 64 \<and> bit (ws ! j) k"
    using field assms(3) by blast
  also have "\<dots> \<longleftrightarrow> bit (ws ! j) k"
  proof -
    have "bit (ws ! j) k \<Longrightarrow> k < 20" using narrow_bits assms(2,3) nth_mem by blast
    moreover have "k < 20 \<Longrightarrow> 20 * (?n - 1 - j) + k < 64" using assms(1,3) by linarith
    ultimately show ?thesis by blast
  qed
  finally show "bit (unpack_field ?n j (pack_word ?n 0 ws 0)) k \<longleftrightarrow> bit (ws ! j) k" .
qed

lemma pack_word_less:
  assumes "20 * length ws \<le> 60" "\<forall>w \<in> set ws. w < 2 ^ 20"
  shows "pack_word (length ws) 0 ws 0 < 2 ^ (20 * length ws)"
proof -
  let ?n = "length ws" and ?key = "pack_word (length ws) 0 ws 0"
  have "k < 20 * ?n" if k: "bit ?key k" for k
  proof -
    from k bit_pack_word [of 0 ws ?n 0 k] assms obtain i where i: "i < ?n" "20 * (?n - 1 - i) \<le> k" "bit (ws ! i) (k - 20 * (?n - 1 - i))" by auto
    then have "k - 20 * (?n - 1 - i) < 20" using narrow_bits assms(2) nth_mem by blast
    with i(1,2) show ?thesis by linarith
  qed
  then have "take_bit (20 * ?n) ?key = ?key" by (intro bit_eqI) (auto simp: bit_simps)
  then have "uint ?key = take_bit (20 * ?n) (uint ?key)" using assms(1) by (metis unsigned_take_bit_eq)
  then have "uint ?key < 2 ^ (20 * ?n)" by (metis take_bit_int_less_exp)
  moreover have "uint (2 ^ (20 * ?n) :: 64 word) = 2 ^ (20 * ?n)"
  proof -
    have "?n = 0 \<or> ?n = 1 \<or> ?n = 2 \<or> ?n = 3" using assms(1) by linarith
    then show ?thesis by (elim disjE) simp_all
  qed
  ultimately show ?thesis by (simp add: word_less_def)
qed

lemma pack_from_words:
  assumes "\<forall>c \<in> set cols. length c = m" "length key = m"
  shows "pack_from n j cols key = Inr (map (\<lambda>i. pack_word n j (map (\<lambda>c. c ! i) cols) (key ! i)) [0..<m])"
  using assms
proof (induction cols arbitrary: j key)
  case Nil
  then show ?case by (auto simp: map_nth)
next
  case (Cons c cols)
  let ?key = "map2 (OR) key (map (push_bit (20 * (n - 1 - j))) c)"
  have "word_or key (map (push_bit (20 * (n - 1 - j))) c) = Inr ?key" using Cons.prems by (simp add: word_or_def)
  moreover have "?key ! i = key ! i OR push_bit (20 * (n - 1 - j)) (c ! i)" if "i < m" for i using that Cons.prems by simp
  ultimately show ?case using Cons.IH [of ?key "Suc j"] Cons.prems by simp
qed

lemma map_of_columns: "map_of cols name = map_option (\<lambda>i. snd (cols ! i)) (field_index (map (\<lambda>(n, d, _). (n, d)) cols) name)"
  by (induction cols) (auto simp: option.map_comp o_def)

lemma structured_columns:
  assumes "\<forall>(n, d, vs) \<in> set cols. length vs = m" "cols \<noteq> []"
  shows "\<exists>b. structured cols = Inr b \<and> (\<forall>name d vs. map_of cols name = Some (d, vs) \<longrightarrow> column b name = Inr vs)"
proof -
  obtain n0 d0 first rest where c: "cols = (n0, d0, first) # rest" using assms(2) by (metis list.exhaust prod.exhaust)
  have m: "length first = m" using assms(1) c by auto
  let ?vals = "map (\<lambda>(_, _, vs). vs) cols"
  have "traverse (\<lambda>(_, _, vs). broadcast_rows (length first) vs) cols = Inr ?vals"
    using assms(1) m by (intro traverse_Inr_map) (auto simp: broadcast_rows_def)
  then have s: "structured cols = Inr \<lparr>bk_dtype = map (\<lambda>(n, d, _). (n, d)) cols,
      bk_rows = map (\<lambda>i. map (\<lambda>vs. (vs ! i, False)) ?vals) [0..<m], bk_masked = False\<rparr>" (is "_ = Inr ?b")
    using m by (simp add: structured_def c)
  have "column ?b name = Inr vs" if "map_of cols name = Some (d, vs)" for name d vs
  proof -
    from that obtain i where i: "field_index (map (\<lambda>(n, d, _). (n, d)) cols) name = Some i" "snd (cols ! i) = (d, vs)"
      by (auto simp: map_of_columns)
    from field_index_Some [OF i(1)] have il: "i < length cols" by simp
    obtain x where x: "cols ! i = (x, d, vs)" using i(2) by (cases "cols ! i") auto
    have "length vs = m" using assms(1) nth_mem [OF il] x by auto
    then show ?thesis using il x by (auto simp: column_def cells_def i(1) intro: nth_equalityI)
  qed
  with s show ?thesis by blast
qed

lemma set_update_subset: "set (AList.update k v d) \<subseteq> insert (k, v) (set d)"
  by (induction d) auto

end
