(* ===== verification/Numpy_Exchange.thy ===== *)
theory Numpy_Exchange
  imports Numpy_Shuffle "HOL-Library.Sublist"
begin

text \<open>
  What the exchange and join primitives of the numpy backend guarantee: well-formed blocks, row conservation,
  injective packed keys, the wire, relational joins, and joins done place by place. The sample numpy
  is a concrete library with the documented behaviour.
\<close>

section \<open>A numpy with the documented behaviour\<close>

definition cell_json :: "int option \<Rightarrow> json" where
  "cell_json v = (case v of None \<Rightarrow> JNull | Some i \<Rightarrow> JInt i)"

fun json_cell :: "json \<Rightarrow> int option" where
  "json_cell (JInt i) = Some i"
| "json_cell _ = None"

fun json_text :: "json \<Rightarrow> string" where
  "json_text (JStr s) = s"
| "json_text _ = []"

fun json_items :: "json \<Rightarrow> json list" where
  "json_items (JArr xs) = xs"
| "json_items _ = []"

definition sample_save :: "(string \<times> unit) list \<Rightarrow> int list list \<Rightarrow> string" where
  "sample_save dt rows = npy_magic @ dumps (JArr [JArr (map (\<lambda>(n, _). JStr n) dt), JArr (map (\<lambda>row. JArr (map JInt row)) rows)])"

definition sample_load :: "string \<Rightarrow> ((string \<times> unit) list \<times> int list list) result" where
  "sample_load data =
     (case loads (drop 6 data) of
        Some (JArr [names, rows]) \<Rightarrow>
          Inr (map (\<lambda>n. (json_text n, ())) (json_items names), map (\<lambda>row. map (\<lambda>c. the (json_cell c)) (json_items row)) (json_items rows))
      | _ \<Rightarrow> Inl (ValueError []))"

definition sample_write :: "(string \<times> unit \<times> int option list) list \<Rightarrow> string result" where
  "sample_write cols = Inr (CHR ''A'' # dumps (JArr (map (\<lambda>(n, _, vs). JArr (JStr n # map cell_json vs)) cols)))"

definition sample_read :: "string \<Rightarrow> (string \<times> unit \<times> (int \<times> bool) list) list result" where
  "sample_read data =
     (case loads (tl data) of
        Some doc \<Rightarrow> Inr (map (\<lambda>col. (json_text (hd (json_items col)), (),
          map (\<lambda>c. case json_cell c of None \<Rightarrow> (0, True) | Some i \<Rightarrow> (i, False)) (tl (json_items col)))) (json_items doc))
      | None \<Rightarrow> Inl (ValueError []))"

definition sample_numpy :: "(unit, int) numpy" where
  "sample_numpy = \<lparr>np_argsort = (\<lambda>ks. sort_key (nth ks) [0..<length ks]), np_sort = sort,
     np_searchsorted = (\<lambda>right ks k. length (List.filter (\<lambda>x. if right then x \<le> k else x < k) ks)),
     np_zero = (\<lambda>_. 0), np_common = (\<lambda>d _. d), np_cast = (\<lambda>_ _ v. v), np_itemsize = (\<lambda>_. 8),
     np_uint64 = of_int, np_of_uint64 = uint, np_u64 = (), np_promoted = (\<lambda>_. Inl (TypeError [])),
     np_save = sample_save, np_load = sample_load, pa_write = sample_write, pa_read = sample_read\<rparr>"

lemma sort_elems_fixed: "(\<And>x. x \<in> set xs \<Longrightarrow> sort_json x = x) \<Longrightarrow> sort_elems xs = xs"
  by (induction xs) auto

lemma wf_elems_all: "wf_elems xs \<longleftrightarrow> (\<forall>x \<in> set xs. wf_json x)"
  by (induction xs) auto

lemma array_round_trip:
  assumes "\<forall>x \<in> set xs. wf_json x \<and> sort_json x = x"
  shows "loads (dumps (JArr xs)) = Some (JArr xs)"
  using loads_dumps [of "JArr xs"] assms sort_elems_fixed [of xs] by (simp add: wf_elems_all)

lemma flat_array: "(\<And>x. x \<in> set xs \<Longrightarrow> wf_json x \<and> sort_json x = x) \<Longrightarrow> wf_json (JArr xs) \<and> sort_json (JArr xs) = JArr xs"
  using sort_elems_fixed [of xs] by (simp add: wf_elems_all)

lemma sample_load_save: "sample_load (sample_save dt rows) = Inr (dt, rows)"
proof -
  let ?xs = "[JArr (map (\<lambda>(n, _). JStr n) dt), JArr (map (\<lambda>row. JArr (map JInt row)) rows)]"
  let ?ok = "\<lambda>x. wf_json x \<and> sort_json x = x"
  have names: "?ok (JArr (map (\<lambda>(n, _). JStr n) dt))" by (rule flat_array) auto
  have row: "?ok (JArr (map JInt row))" for row by (rule flat_array) auto
  have rows: "?ok (JArr (map (\<lambda>row. JArr (map JInt row)) rows))"
  proof (rule flat_array)
    fix x assume "x \<in> set (map (\<lambda>row. JArr (map JInt row)) rows)"
    then obtain r where "x = JArr (map JInt r)" by auto
    with row [of r] show "?ok x" by (simp only:)
  qed
  have "?ok x" if "x \<in> set ?xs" for x
  proof -
    from that have "x = JArr (map (\<lambda>(n, _). JStr n) dt) \<or> x = JArr (map (\<lambda>row. JArr (map JInt row)) rows)" by auto
    then show ?thesis using names rows by (elim disjE) (simp_all only:)
  qed
  then have "loads (drop 6 (sample_save dt rows)) = Some (JArr ?xs)"
    using array_round_trip [of ?xs] by (simp add: sample_save_def npy_magic_def)
  moreover have "map (\<lambda>x. (fst x, ())) dt = dt" by (rule map_idI) (simp add: prod_eq_iff)
  ultimately show ?thesis by (simp add: sample_load_def o_def case_prod_unfold)
qed

lemma cell_json_ok: "wf_json (cell_json v) \<and> sort_json (cell_json v) = cell_json v" "json_cell (cell_json v) = v"
  by (auto simp: cell_json_def split: option.split)

lemma sample_read_write:
  "\<exists>w cs. sample_write cols = Inr w \<and> take 6 w \<noteq> npy_magic \<and> sample_read w = Inr cs \<and>
     list_all2 (\<lambda>(n, d, vs) (n', d', cells). n' = n \<and> d' = d \<and> map visible cells = vs) cols cs"
proof -
  let ?doc = "map (\<lambda>(n, _, vs). JArr (JStr n # map cell_json vs)) cols"
  let ?w = "CHR ''A'' # dumps (JArr ?doc)"
  let ?cs = "map (\<lambda>(n, _, vs). (n, (), map (\<lambda>v. case v of None \<Rightarrow> (0, True) | Some i \<Rightarrow> (i, False)) vs)) cols"
  have "wf_json x \<and> sort_json x = x" if "x \<in> set ?doc" for x
  proof -
    from that obtain n vs where x: "x = JArr (JStr n # map cell_json vs)" by auto
    show ?thesis unfolding x by (rule flat_array) (use cell_json_ok in auto)
  qed
  then have "loads (tl ?w) = Some (JArr ?doc)" using array_round_trip [of ?doc] by simp
  then have "sample_read ?w = Inr ?cs" by (simp add: sample_read_def o_def case_prod_unfold cell_json_ok(2))
  moreover have "list_all2 (\<lambda>(n, d, vs) (n', d', cells). n' = n \<and> d' = d \<and> map visible cells = vs) cols ?cs"
    by (auto simp: list_all2_map2 list_all2_same visible_def o_def split: option.split intro!: map_idI)
  moreover have "take 6 ?w \<noteq> npy_magic" by (simp add: npy_magic_def)
  ultimately show ?thesis unfolding sample_write_def by blast
qed

lemma sample_documented: "numpy_documented sample_numpy"
  unfolding numpy_documented_def
proof (intro conjI allI impI)
  fix dt :: "(string \<times> unit) list" and rows
  show "np_load sample_numpy (np_save sample_numpy dt rows) = Inr (dt, rows)" by (simp add: sample_numpy_def sample_load_save)
  show "take 6 (np_save sample_numpy dt rows) = npy_magic" by (simp add: sample_numpy_def sample_save_def npy_magic_def)
next
  fix cols :: "(string \<times> unit \<times> int option list) list"
  show "\<exists>w cs. pa_write sample_numpy cols = Inr w \<and> take 6 w \<noteq> npy_magic \<and> pa_read sample_numpy w = Inr cs \<and>
        list_all2 (\<lambda>(n, d, vs) (n', d', cs). n' = n \<and> d' = d \<and> map visible cs = vs) cols cs"
    using sample_read_write [of cols] by (simp add: sample_numpy_def)
qed (simp_all add: sample_numpy_def)

section \<open>Keys\<close>

lemma fitting_words:
  assumes "traverse (field_fits np cols) on = Inr us" "traverse (col_words np cols) on = Inr words"
    and "\<forall>(n, d, vs) \<in> set cols. length vs = m" "ws \<in> set words"
  shows "length ws = m" "\<forall>w \<in> set ws. w < 2 ^ 20"
proof -
  from assms(4) obtain i where i: "i < length on" "words ! i = ws" using traverse_length [OF assms(2)] by (auto simp: in_set_conv_nth)
  from traverse_all2 [OF assms(2)] i have cw: "col_words np cols (on ! i) = Inr ws" by (auto simp: list_all2_conv_all_nth)
  from traverse_all2 [OF assms(1)] i(1) have "\<exists>y. field_fits np cols (on ! i) = Inr y" by (auto simp: list_all2_conv_all_nth)
  then show "\<forall>w \<in> set ws. w < 2 ^ 20" by (auto simp: field_fits_def cw list_ex_iff not_le split: if_splits)
  from cw obtain d vs where "map_of cols (on ! i) = Some (d, vs)" "ws = map (np_uint64 np) vs"
    by (auto simp: col_words_def split: option.splits)
  then show "length ws = m" using assms(3) map_of_SomeD by fastforce
qed

text \<open>The key column holds the packed word of each row.\<close>

definition row_key :: "64 word list list \<Rightarrow> nat \<Rightarrow> 64 word" where
  "row_key words i = pack_word (length words) 0 (map (\<lambda>c. c ! i) words) 0"

lemma pack_key_column_rows:
  assumes "pack_key_column words = Inr key" "\<forall>ws \<in> set words. length ws = m"
  shows "key = map (row_key words) [0..<m]"
proof -
  let ?row = "\<lambda>i. map (\<lambda>c. c ! i) words"
  from assms(1) obtain c rest where c: "words = c # rest" by (cases words) (auto simp: pack_key_column_def)
  with assms(1) have "pack_from (length words) 0 words (replicate (length c) 0) = Inr key" by (simp add: pack_key_column_def)
  moreover have "length c = m" using assms(2) c by auto
  ultimately have "key = map (\<lambda>i. pack_word (length words) 0 (?row i) (replicate m 0 ! i)) [0..<m]"
    using pack_from_words [of words m "replicate m 0" "length words" 0] assms(2) by simp
  also have "\<dots> = map (row_key words) [0..<m]" by (rule map_cong) (auto simp: row_key_def)
  finally show ?thesis .
qed

lemma row_key_injective:
  assumes "\<forall>ws \<in> set words. length ws = m \<and> (\<forall>w \<in> set ws. w < 2 ^ 20)" "length words * 20 \<le> 64" "i < m" "k < m"
  shows "row_key words i < 2 ^ (20 * length words)" "row_key words i = row_key words k \<longleftrightarrow> (\<forall>ws \<in> set words. ws ! i = ws ! k)"
proof -
  let ?row = "\<lambda>i. map (\<lambda>c. c ! i) words"
  have rowok: "\<forall>w \<in> set (?row j). w < 2 ^ 20" if "j < m" for j using that assms(1) by auto
  show "row_key words i < 2 ^ (20 * length words)"
    using pack_word_less [of "?row i"] rowok [OF assms(3)] assms(2) by (simp add: row_key_def)
  have unpack: "unpack_field (length words) j (row_key words l) = words ! j ! l" if "l < m" "j < length words" for l j
    using unpack_pack_word [of "?row l" j] rowok [OF that(1)] that assms(2) by (simp add: row_key_def)
  show "row_key words i = row_key words k \<longleftrightarrow> (\<forall>ws \<in> set words. ws ! i = ws ! k)"
  proof
    assume "row_key words i = row_key words k"
    then have "words ! j ! i = words ! j ! k" if "j < length words" for j
      using unpack [OF assms(3) that] unpack [OF assms(4) that] by (simp only:)
    then show "\<forall>ws \<in> set words. ws ! i = ws ! k" by (auto simp: in_set_conv_nth)
  next
    assume "\<forall>ws \<in> set words. ws ! i = ws ! k"
    then have "?row i = ?row k" by simp
    then show "row_key words i = row_key words k" by (simp only: row_key_def)
  qed
qed

text \<open>
  C34. Packed keys: when \<open>pack_key\<close> accepts a record, each of its keys is below 2 to the 20 times the number of fields
  and two rows get the same key exactly when they agree on every key field; a field value of 2 to the 20 or
  more is refused, and so are more than three fields.
\<close>
theorem pack_key_injective:
  assumes "numpy_documented np" "pack_key np record on False = Inr out" "\<forall>(n, d, vs) \<in> set (as_columns record). length vs = m"
  shows "length on \<le> 3 \<and> (\<exists>words keys. traverse (col_words np (as_columns record)) on = Inr words \<and>
    (\<forall>ws \<in> set words. \<forall>w \<in> set ws. w < 2 ^ 20) \<and>
    result_bind (column out joinkey) (\<lambda>vs. Inr (map (np_uint64 np) vs)) = Inr keys \<and> length keys = m \<and>
    (\<forall>i < m. keys ! i < 2 ^ (20 * length on) \<and> (\<forall>k < m. keys ! i = keys ! k \<longleftrightarrow> (\<forall>ws \<in> set words. ws ! i = ws ! k))))"
proof -
  let ?cols = "as_columns record"
  from assms(2) have n3: "length on * 20 \<le> 64" by (auto simp: pack_key_def Let_def split: if_splits)
  with assms(2) obtain us words key where u: "traverse (field_fits np ?cols) on = Inr us" and w: "traverse (col_words np ?cols) on = Inr words"
    and key: "pack_key_column words = Inr key" and out: "structured (AList.update joinkey (np_u64 np, map (np_of_uint64 np) key) ?cols) = Inr out"
    by (auto simp: pack_key_def Let_def result_bind_Inr_iff)
  note word = fitting_words [OF u w assms(3)]
  have keys: "key = map (row_key words) [0..<m]" using pack_key_column_rows [OF key] word(1) by blast
  have lw: "length words = length on" using traverse_length [OF w] .
  note inj = row_key_injective [of words m, unfolded lw, OF _ n3]
  let ?upd = "AList.update joinkey (np_u64 np, map (np_of_uint64 np) key) ?cols"
  have len: "\<forall>(n, d, vs) \<in> set ?upd. length vs = m"
    using set_update_subset [of joinkey "(np_u64 np, map (np_of_uint64 np) key)" ?cols] assms(3) keys by auto
  have "?upd \<noteq> []" by (cases ?cols) auto
  from structured_columns [OF len this] out have "column out joinkey = Inr (map (np_of_uint64 np) key)"
    by (auto simp: update_conv')
  then have "result_bind (column out joinkey) (\<lambda>vs. Inr (map (np_uint64 np) vs)) = Inr key"
    by (simp add: o_def documentedD(7) [OF assms(1)])
  then show ?thesis using n3 w word inj by (intro conjI exI [of _ words] exI [of _ key]) (auto simp: keys)
qed

text \<open>Two rows that share the first of two key fields.\<close>

definition sample_columns :: "(unit, int) record_data" where
  "sample_columns = ColumnDict [(''run'', (), [1, 1, 2]), (''event'', (), [7, 8, 7])]"

theorem pack_key_injective_witness:
  "\<exists>out. pack_key sample_numpy sample_columns [''run'', ''event''] False = Inr out \<and>
     (\<exists>keys. result_bind (column out joinkey) (\<lambda>vs. Inr (map (np_uint64 sample_numpy) vs)) = Inr keys \<and> keys ! 0 \<noteq> keys ! 1)"
proof -
  have w: "\<exists>out. pack_key sample_numpy sample_columns [''run'', ''event''] False = Inr out \<and>
      traverse (col_words sample_numpy (as_columns sample_columns)) [''run'', ''event''] = Inr [[1, 1, 2], [7, 8, 7]]"
    by (simp add: sample_columns_def pack_key_def field_fits_def col_words_def sample_numpy_def pack_key_column_def word_or_def structured_def
        broadcast_rows_def joinkey_def word_le_nat_alt)
  then obtain out where out: "pack_key sample_numpy sample_columns [''run'', ''event''] False = Inr out"
    "traverse (col_words sample_numpy (as_columns sample_columns)) [''run'', ''event''] = Inr [[1, 1, 2], [7, 8, 7]]" by blast
  have "\<forall>(n, d, vs) \<in> set (as_columns sample_columns). length vs = 3" by (simp add: sample_columns_def)
  from pack_key_injective [OF sample_documented out(1) this] out(2) obtain keys where
    k: "result_bind (column out joinkey) (\<lambda>vs. Inr (map (np_uint64 sample_numpy) vs)) = Inr keys"
    "\<forall>i < 3. \<forall>k < 3. keys ! i = keys ! k \<longleftrightarrow> (\<forall>ws \<in> set [[1, 1, 2], [7, 8, 7 :: 64 word]]. ws ! i = ws ! k)" by auto
  from k(2) have "keys ! 0 = keys ! 1 \<longleftrightarrow> (\<forall>ws \<in> set [[1, 1, 2], [7, 8, 7 :: 64 word]]. ws ! 0 = ws ! 1)" by simp
  then have "keys ! 0 \<noteq> keys ! 1" by simp
  with out(1) k(1) show ?thesis by blast
qed

section \<open>Blocks\<close>

lemma column_names: "map fst (map (\<lambda>(i, n, d). (n, d, F i)) (enumerate k dt)) = map fst dt"
  by (induction dt arbitrary: k) auto

text \<open>
  What numpy documents of concatenating record arrays of different dtypes: it refuses dtypes with other field names,
  and else casts the values of each field to a common type, in order, leaving the masks as they are.
\<close>

definition cast_row :: "('d, 'v) numpy \<Rightarrow> (string \<times> 'd) list \<Rightarrow> (string \<times> 'd) list \<Rightarrow> 'v cell list \<Rightarrow> 'v cell list" where
  "cast_row np old new row = map2 (\<lambda>((_, d), (_, d')) (v, hidden). (np_cast np d d' v, hidden)) (zip old new) row"

definition numpy_promotes :: "('d, 'v) numpy \<Rightarrow> bool" where
  "numpy_promotes np \<longleftrightarrow> (\<forall>bs c. (\<forall>b \<in> set bs. wf_block b) \<longrightarrow> np_promoted np bs = Inr c \<longrightarrow>
     (\<forall>b \<in> set bs. map fst (bk_dtype c) = map fst (bk_dtype b)) \<and>
     bk_rows c = concat (map (\<lambda>b. map (cast_row np (bk_dtype b) (bk_dtype c)) (bk_rows b)) bs) \<and> bk_masked c = list_ex bk_masked bs)"

lemma cast_row_same:
  assumes "numpy_documented np" "length row = length dt"
  shows "cast_row np dt dt row = row"
  using assms by (auto simp: cast_row_def documentedD(6) intro!: nth_equalityI split: prod.split)

lemma cast_row_masks: "length row = length old \<Longrightarrow> length new = length old \<Longrightarrow> map snd (cast_row np old new row) = map snd row"
  by (auto simp: cast_row_def case_prod_unfold intro!: nth_equalityI)

text \<open>Whether the dtypes agree or are promoted, the rows are the blocks' rows in order, cast to the common dtype.\<close>

lemma concat_rows:
  assumes "numpy_documented np" "numpy_promotes np" "\<forall>b \<in> set bs. wf_block b" "np_concat np bs = Inr c"
  shows "bs \<noteq> []" "\<forall>b \<in> set bs. map fst (bk_dtype c) = map fst (bk_dtype b)" "bk_masked c = list_ex bk_masked bs"
    "bk_rows c = concat (map (\<lambda>b. map (cast_row np (bk_dtype b) (bk_dtype c)) (bk_rows b)) bs)"
proof -
  obtain b rest where bs: "bs = b # rest" using assms(4) by (cases bs) (auto simp: np_concat_def)
  then show "bs \<noteq> []" by simp
  have "(\<forall>b \<in> set bs. map fst (bk_dtype c) = map fst (bk_dtype b)) \<and> bk_masked c = list_ex bk_masked bs \<and>
      bk_rows c = concat (map (\<lambda>b. map (cast_row np (bk_dtype b) (bk_dtype c)) (bk_rows b)) bs)"
  proof (cases "list_all (\<lambda>c. bk_dtype c = bk_dtype b) rest")
    case True
    with assms(4) bs have c: "c = \<lparr>bk_dtype = bk_dtype b, bk_rows = concat (map bk_rows bs), bk_masked = list_ex bk_masked bs\<rparr>"
      by (simp add: np_concat_def)
    have dt: "bk_dtype x = bk_dtype b" if "x \<in> set bs" for x using True that bs by (auto simp: list_all_iff)
    have "map (cast_row np (bk_dtype x) (bk_dtype b)) (bk_rows x) = bk_rows x" if x: "x \<in> set bs" for x
      unfolding dt [OF x] using wf_blockD(1) [of x] assms(3) x dt [OF x] by (intro map_idI cast_row_same [OF assms(1)]) simp
    then have "concat (map (\<lambda>b'. map (cast_row np (bk_dtype b') (bk_dtype b)) (bk_rows b')) bs) = concat (map bk_rows bs)"
      by (intro arg_cong [where f = concat] map_cong refl) simp
    with dt show ?thesis unfolding c block.simps by (simp only:) simp
  next
    case False
    with assms(4) bs have "np_promoted np bs = Inr c" by (simp add: np_concat_def)
    with assms(2,3) show ?thesis unfolding numpy_promotes_def by blast
  qed
  then show "\<forall>b \<in> set bs. map fst (bk_dtype c) = map fst (bk_dtype b)" "bk_masked c = list_ex bk_masked bs"
    "bk_rows c = concat (map (\<lambda>b. map (cast_row np (bk_dtype b) (bk_dtype c)) (bk_rows b)) bs)" by blast+
qed

text \<open>Which cells of a block a reader sees as null.\<close>

definition nulls :: "('d, 'v) block \<Rightarrow> bool list list" where
  "nulls b = map (map snd) (bk_rows b)"

lemma concat_nulls:
  assumes "numpy_documented np" "numpy_promotes np" "\<forall>b \<in> set bs. wf_block b" "np_concat np bs = Inr c"
  shows "nulls c = concat (map nulls bs)" "wf_block c"
proof -
  note r = concat_rows [OF assms]
  have len: "length (bk_dtype c) = length (bk_dtype b)" if "b \<in> set bs" for b
    using arg_cong [OF r(2) [rule_format, OF that], of length] by simp
  have masks: "map snd (cast_row np (bk_dtype b) (bk_dtype c) row) = map snd row" if "b \<in> set bs" "row \<in> set (bk_rows b)" for b row
    using that len assms(3) wf_blockD(1) by (intro cast_row_masks) auto
  have "map (\<lambda>b. map (map snd) (map (cast_row np (bk_dtype b) (bk_dtype c)) (bk_rows b))) bs = map nulls bs"
    using masks by (auto simp: nulls_def)
  then show nulls: "nulls c = concat (map nulls bs)" unfolding nulls_def [of c] r(4) map_concat by (simp only: map_map o_def)
  obtain b where b: "b \<in> set bs" "wf_block b" using r(1) assms(3) by (cases bs) auto
  have "bk_dtype c \<noteq> []" "distinct (map fst (bk_dtype c))" using len [OF b(1)] b r(2) by (auto simp: wf_block_def)
  moreover have "length row = length (bk_dtype c)" if "row \<in> set (bk_rows c)" for row
  proof -
    from that obtain b' row' where b': "b' \<in> set bs" "row' \<in> set (bk_rows b')" "row = cast_row np (bk_dtype b') (bk_dtype c) row'"
      by (auto simp: r(4))
    then have "length row' = length (bk_dtype b')" using assms(3) wf_blockD(1) by blast
    with len [OF b'(1)] show ?thesis by (simp add: b'(3) cast_row_def)
  qed
  moreover have "\<not> hidden" if "hidden \<in> set (concat (nulls c))" "\<not> bk_masked c" for hidden
    using that assms(3) wf_blockD(2) unfolding nulls r(3) by (fastforce simp: nulls_def list_ex_iff)
  ultimately show "wf_block c" unfolding wf_block_def nulls_def by force
qed

text \<open>
  C35. Blocks stay well-formed, with a cell for every field in every row and no hidden value in an unmasked block: from
  well-formed blocks, partitioning, slicing, concatenating any number of blocks of equal or of promoted dtypes,
  a trip over the wire, gathering, merging and packing a key each make well-formed ones. Rows cross the wire
  with their nulls and their mask, and blocks are concatenated with theirs: a null never becomes a value.
\<close>
theorem blocks_well_formed:
  assumes "numpy_documented np" "numpy_promotes np" "wf_block b" "wf_block r" "\<forall>c \<in> set blocks. wf_block c"
  shows "(np_partition np sha b k parts salt = Inr bs \<longrightarrow> (\<forall>c \<in> set bs. wf_block c \<and> bk_masked c = bk_masked b)) \<and>
    wf_block (slice_rows b start stop) \<and> bk_masked (slice_rows b start stop) = bk_masked b \<and>
    (np_concat np blocks = Inr joined \<longrightarrow>
       wf_block joined \<and> bk_masked joined = list_ex bk_masked blocks \<and> nulls joined = concat (map nulls blocks)) \<and>
    (\<exists>w c. to_wire np b = Inr w \<and> from_wire np w = Inr c \<and>
       wf_block c \<and> bk_dtype c = bk_dtype b \<and> bk_masked c = bk_masked b \<and> np_rows c = np_rows b) \<and>
    (take_rows np b idx = Inr taken \<longrightarrow> wf_block taken) \<and>
    (merge_records np b r on = Inr merged \<longrightarrow> wf_block merged) \<and>
    (pack_key np (RecordBlock b) on routed = Inr packed \<longrightarrow> wf_block packed)"
proof (intro conjI impI)
  assume "np_partition np sha b k parts salt = Inr bs"
  then show "\<forall>c \<in> set bs. wf_block c \<and> bk_masked c = bk_masked b"
    using wf_rows_subset [OF assms(3) where_dest_subset] by (auto simp: np_partition_def result_bind_Inr_iff)
next
  show "wf_block (slice_rows b start stop)"
    unfolding slice_rows_def Let_def by (rule wf_rows_subset [OF assms(3)]) (meson order_trans set_drop_subset set_take_subset)
  show "bk_masked (slice_rows b start stop) = bk_masked b" by (simp add: slice_rows_def Let_def)
next
  assume j: "np_concat np blocks = Inr joined"
  show "wf_block joined" "nulls joined = concat (map nulls blocks)" using concat_nulls [OF assms(1,2,5) j] by simp_all
  show "bk_masked joined = list_ex bk_masked blocks" by (rule concat_rows(3) [OF assms(1,2,5) j])
next
  have "np_good np (bk_dtype b) b" using assms(1,3) by (simp add: np_good_def)
  from np_wire_masked [OF this]
  show "\<exists>w c. to_wire np b = Inr w \<and> from_wire np w = Inr c \<and>
       wf_block c \<and> bk_dtype c = bk_dtype b \<and> bk_masked c = bk_masked b \<and> np_rows c = np_rows b"
    by (auto simp: np_good_def)
next
  assume "take_rows np b idx = Inr taken"
  then show "wf_block taken" unfolding take_rows_def by (rule wf_masked_gather [OF assms(3)])
next
  assume "merge_records np b r on = Inr merged"
  then show "wf_block merged" by (rule wf_merge [OF assms(3,4)])
next
  assume "pack_key np (RecordBlock b) on routed = Inr packed"
  then obtain key where st: "structured (AList.update joinkey (np_u64 np, map (np_of_uint64 np) key) (as_columns (RecordBlock b))) = Inr packed"
    by (auto simp: pack_key_def Let_def result_bind_Inr_iff simp del: as_columns.simps split: if_splits)
  have names: "map fst (as_columns (RecordBlock b)) = map fst (bk_dtype b)"
    unfolding as_columns.simps by (rule column_names)
  have "distinct (map fst (as_columns (RecordBlock b)))" unfolding names using assms(3) by (simp add: wf_block_def)
  then have "distinct (map fst (AList.update joinkey (np_u64 np, map (np_of_uint64 np) key) (as_columns (RecordBlock b))))"
    by (rule distinct_update)
  with st show "wf_block packed" by (rule wf_structured)
qed

text \<open>
  C33. An exchange moves rows and changes none: over the destinations of a partition every row of the block is
  there exactly once, the rows of a destination are in their old order, and rows with the same key go
  to the same destination, whichever process routes them.
\<close>
theorem partition_conserves_rows:
  assumes "np_partition np sha b k parts salt = Inr bs" "0 < parts"
  shows "length bs = nat parts \<and> mset (concat (map bk_rows bs)) = mset (bk_rows b) \<and> (\<forall>c \<in> set bs. subseq (bk_rows c) (bk_rows b)) \<and>
    (\<forall>d < nat parts. \<forall>row \<in> set (bk_rows (bs ! d)). \<exists>i. field_index (bk_dtype b) k = Some i \<and>
       route sha (uint (np_uint64 np (fst (row ! i)))) parts salt = Inr (int d))"
proof -
  from assms(1) obtain i dest where i: "field_index (bk_dtype b) k = Some i"
    and d: "dests sha (map (\<lambda>row. np_uint64 np (fst (row ! i))) (bk_rows b)) parts salt = Inr dest"
    and bs: "bs = map (\<lambda>d. b\<lparr>bk_rows := where_dest (bk_rows b) dest d\<rparr>) (py_range parts)"
    by (auto simp: np_partition_def column_def cells_def result_bind_Inr_iff o_def split: option.splits)
  let ?h = "\<lambda>row. projr (route sha (uint (np_uint64 np (fst (row ! i)))) parts salt)"
  have routed: "\<exists>x. route sha (uint (np_uint64 np (fst (row ! i)))) parts salt = Inr x \<and> 0 \<le> x \<and> x < parts" if "row \<in> set (bk_rows b)" for row
  proof -
    have "\<exists>x. route sha (uint (np_uint64 np (fst (row ! i)))) parts salt = Inr x"
      using traverse_all2 [OF d [unfolded dests_def]] that by (force simp: list_all2_conv_all_nth in_set_conv_nth)
    then show ?thesis using assms(2) by (auto simp: route_def result_bind_Inr_iff)
  qed
  have dest: "dest = map ?h (bk_rows b)"
    using traverse_all2 [OF d [unfolded dests_def]] by (auto simp: list_all2_conv_all_nth intro!: nth_equalityI)
  have rows: "map bk_rows bs = map (\<lambda>d. List.filter (\<lambda>row. nat (?h row) = d) (bk_rows b)) [0..<nat parts]"
  proof -
    have "List.filter (\<lambda>row. ?h row = int d) (bk_rows b) = List.filter (\<lambda>row. nat (?h row) = d) (bk_rows b)" for d
      using routed by (intro filter_cong) force+
    then show ?thesis by (simp add: bs py_range_def dest where_dest_map o_def)
  qed
  have len: "length bs = nat parts" by (simp add: bs py_range_def)
  have "mset (concat (map bk_rows bs)) = mset (bk_rows b)"
    unfolding rows
  proof (rule mset_filter_parts)
    fix row assume "row \<in> set (bk_rows b)"
    from routed [OF this] show "nat (?h row) < nat parts" by auto
  qed
  moreover have "\<forall>c \<in> set bs. subseq (bk_rows c) (bk_rows b)" by (auto simp: bs dest where_dest_map)
  moreover have "route sha (uint (np_uint64 np (fst (row ! i)))) parts salt = Inr (int d)" if "d < nat parts" "row \<in> set (bk_rows (bs ! d))" for d row
  proof -
    have "bk_rows (bs ! d) = List.filter (\<lambda>row. nat (?h row) = d) (bk_rows b)" using arg_cong [OF rows, of "\<lambda>xs. xs ! d"] that(1) len by simp
    with that(2) have "row \<in> set (bk_rows b)" "nat (?h row) = d" by auto
    with routed [OF this(1)] show ?thesis by auto
  qed
  ultimately show ?thesis using len i by blast
qed

section \<open>Joins\<close>

text \<open>
  C32. Joining two numpy blocks is the relational join: the rows of the result are, in this order, each pair of rows
  with equal keys, then for a left or outer join the left rows without a match, then for a right or outer
  join the right ones, with the missing side's fields null and the key kept from the side that is present.
\<close>
theorem join_is_relational:
  assumes "numpy_documented np" "wf_block l" "wf_block r" "np_keyed l on" "np_keyed r on"
    and "np_joinable (bk_dtype l) (bk_dtype r) on" "how \<noteq> ''positional''"
  shows "\<exists>c. join_blocks (numpy_ops np sha) l r on how = Inr c \<and> wf_block c \<and>
    bk_dtype c = np_merged (bk_dtype l) (bk_dtype r) on \<and>
    np_rows c = join_rows (np_merge (bk_dtype l) (bk_dtype r) on) (np_null (bk_dtype l)) (np_null (bk_dtype r))
      (np_key (bk_dtype l) on) (np_key (bk_dtype r) on) how (np_rows l) (np_rows r)"
proof -
  have "np_good np (bk_dtype l) l" "np_good np (bk_dtype r) r" using assms(1-3) by (simp_all add: np_good_def)
  from np.join_blocks_rows [OF this assms(4-7)] show ?thesis by (auto simp: np_good_def)
qed

definition left_block :: "(unit, int) block" where
  "left_block = \<lparr>bk_dtype = [(joinkey, ()), (''x'', ())],
     bk_rows = [[(1, False), (10, False)], [(2, False), (20, False)], [(2, False), (21, False)]], bk_masked = False\<rparr>"

definition right_block :: "(unit, int) block" where
  "right_block = \<lparr>bk_dtype = [(joinkey, ()), (''y'', ())], bk_rows = [[(2, False), (200, False)], [(3, False), (300, False)]], bk_masked = False\<rparr>"

lemma sample_blocks:
  "wf_block left_block" "wf_block right_block" "np_keyed left_block [joinkey]" "np_keyed right_block [joinkey]"
  "np_joinable (bk_dtype left_block) (bk_dtype right_block) [joinkey]"
  by (auto simp: wf_block_def left_block_def right_block_def np_keyed_def np_rows_def visible_def np_joinable_def joinkey_def)

theorem join_is_relational_witness:
  "\<exists>c. join_blocks (numpy_ops sample_numpy (\<lambda>s. s)) left_block right_block [joinkey] ''outer'' = Inr c \<and>
     np_rows c = [[Some 2, Some 20, Some 200], [Some 2, Some 21, Some 200], [Some 1, Some 10, None], [Some 3, None, Some 300]]"
proof -
  have "join_rows (np_merge (bk_dtype left_block) (bk_dtype right_block) [joinkey]) (np_null (bk_dtype left_block)) (np_null (bk_dtype right_block))
      (np_key (bk_dtype left_block) [joinkey]) (np_key (bk_dtype right_block) [joinkey]) ''outer'' (np_rows left_block) (np_rows right_block) =
    [[Some 2, Some 20, Some 200], [Some 2, Some 21, Some 200], [Some 1, Some 10, None], [Some 3, None, Some 300]]"
    by code_simp
  with join_is_relational [OF sample_documented sample_blocks, of "''outer''" "\<lambda>s. s"] show ?thesis by auto
qed

text \<open>
  C31. The exchange-based join is the join: when both sides are partitioned by the hash of a key field over any positive
  number of destinations and each destination joined by itself, the rows of the parts put together are
  the rows of the join of the whole, none lost and none doubled, whatever the hash function.
\<close>
theorem radix_join_whole:
  assumes "numpy_documented np" "wf_block l" "wf_block r" "np_keyed l on" "np_keyed r on"
    and "np_joinable (bk_dtype l) (bk_dtype r) on" "how \<noteq> ''positional''" "k \<in> set on" "0 < parts"
  shows "\<exists>ls rs js j. np_partition np sha l k parts 0 = Inr ls \<and> np_partition np sha r k parts 0 = Inr rs \<and>
    traverse (\<lambda>(a, b). join_blocks (numpy_ops np sha) a b on how) (zip ls rs) = Inr js \<and>
    join_blocks (numpy_ops np sha) l r on how = Inr j \<and> mset (concat (map np_rows js)) = mset (np_rows j)"
proof -
  have g: "np_good np (bk_dtype l) l" "np_good np (bk_dtype r) r" using assms(1-3) by (simp_all add: np_good_def)
  have "np_keyed l [k]" "np_keyed r [k]" using assms(4,5,8) by (auto simp: np_keyed_def)
  from np.radix_join [OF g assms(4,5) this assms(6-9), of sha] show ?thesis by (simp add: numpy_ops_def)
qed

theorem radix_join_whole_witness:
  "\<exists>ls js. np_partition sample_numpy (\<lambda>s. s) left_block joinkey 2 0 = Inr ls \<and> map np_rows ls = [[[Some 2, Some 20], [Some 2, Some 21]], [[Some 1, Some 10]]] \<and>
     mset (concat (map np_rows (js :: (unit, int) block list))) = {#[Some 2, Some 20, Some 200], [Some 2, Some 21, Some 200]#}"
proof -
  have "''inner'' \<noteq> ''positional''" "joinkey \<in> set [joinkey]" "(0 :: int) < 2" by simp_all
  from radix_join_whole [OF sample_documented sample_blocks this, of "\<lambda>s. s"] obtain ls rs js j where
    j: "np_partition sample_numpy (\<lambda>s. s) left_block joinkey 2 0 = Inr ls"
       "join_blocks (numpy_ops sample_numpy (\<lambda>s. s)) left_block right_block [joinkey] ''inner'' = Inr j"
       "mset (concat (map np_rows (js :: (unit, int) block list))) = mset (np_rows j)"
    by blast
  have "map_sum (\<lambda>_. ()) (map np_rows) (np_partition sample_numpy (\<lambda>s. s) left_block joinkey 2 0) = Inr [[[Some 2, Some 20], [Some 2, Some 21]], [[Some 1, Some 10]]]"
    by code_simp
  moreover have "map_sum (\<lambda>_. ()) np_rows (join_blocks (numpy_ops sample_numpy (\<lambda>s. s)) left_block right_block [joinkey] ''inner'') =
      Inr [[Some 2, Some 20, Some 200], [Some 2, Some 21, Some 200]]"
    by code_simp
  ultimately have "map np_rows ls = [[[Some 2, Some 20], [Some 2, Some 21]], [[Some 1, Some 10]]]" "np_rows j = [[Some 2, Some 20, Some 200], [Some 2, Some 21, Some 200]]"
    using j(1,2) by simp_all
  with j(1,3) show ?thesis by (intro exI [of _ ls] exI [of _ js]) simp
qed

text \<open>The sample numpy with fields of several widths: a width is written before its field's name.\<close>

definition widen :: "string \<times> nat \<Rightarrow> string" where
  "widen field = replicate (snd field) (CHR ''+'') @ CHR '':'' # fst field"

definition unwiden :: "string \<Rightarrow> string \<times> nat" where
  "unwiden s = (tl (dropWhile (\<lambda>c. c = CHR ''+'') s), length (takeWhile (\<lambda>c. c = CHR ''+'') s))"

definition wide_numpy :: "(nat, int) numpy" where
  "wide_numpy = \<lparr>np_argsort = np_argsort sample_numpy, np_sort = sort, np_searchsorted = np_searchsorted sample_numpy,
     np_zero = (\<lambda>_. 0), np_common = max, np_cast = (\<lambda>_ _ v. v), np_itemsize = (\<lambda>d. d),
     np_uint64 = of_int, np_of_uint64 = uint, np_u64 = 8,
     np_promoted = (\<lambda>bs. case bs of [] \<Rightarrow> Inl (TypeError [])
       | b # rest \<Rightarrow> if list_all (\<lambda>c. map fst (bk_dtype c) = map fst (bk_dtype b)) rest
           then Inr \<lparr>bk_dtype = foldl (\<lambda>dt c. map2 (\<lambda>(n, d) (_, d'). (n, max d d')) dt (bk_dtype c)) (bk_dtype b) rest,
             bk_rows = concat (map bk_rows bs), bk_masked = list_ex bk_masked bs\<rparr>
           else Inl (TypeError [])),
     np_save = (\<lambda>dt. sample_save (map (\<lambda>f. (widen f, ())) dt)),
     np_load = (\<lambda>data. result_bind (sample_load data) (\<lambda>(dt, rows). Inr (map (\<lambda>(n, _). unwiden n) dt, rows))),
     pa_write = (\<lambda>cols. sample_write (map (\<lambda>(n, d, vs). (widen (n, d), (), vs)) cols)),
     pa_read = (\<lambda>data. result_bind (sample_read data) (\<lambda>cols. Inr (map (\<lambda>(n, _, cs). (fst (unwiden n), snd (unwiden n), cs)) cols)))\<rparr>"

lemma unwiden_widen [simp]: "unwiden (widen f) = f"
proof -
  have "dropWhile (\<lambda>c. c = CHR ''+'') (replicate n (CHR ''+'') @ CHR '':'' # s) = CHR '':'' # s"
    "takeWhile (\<lambda>c. c = CHR ''+'') (replicate n (CHR ''+'') @ CHR '':'' # s) = replicate n (CHR ''+'')" for n s
    by (induction n) simp_all
  then show ?thesis by (simp add: unwiden_def widen_def)
qed

lemma wide_documented: "numpy_documented wide_numpy"
  unfolding numpy_documented_def
proof (intro conjI allI impI)
  fix dt :: "(string \<times> nat) list" and rows
  show "np_load wide_numpy (np_save wide_numpy dt rows) = Inr (dt, rows)" by (simp add: wide_numpy_def sample_load_save o_def)
  show "take 6 (np_save wide_numpy dt rows) = npy_magic" by (simp add: wide_numpy_def sample_save_def npy_magic_def)
next
  fix cols :: "(string \<times> nat \<times> int option list) list"
  let ?cols = "map (\<lambda>(n, d, vs). (widen (n, d), (), vs)) cols"
  from sample_read_write [of ?cols] obtain w cs where w: "sample_write ?cols = Inr w" "take 6 w \<noteq> npy_magic" "sample_read w = Inr cs"
    "list_all2 (\<lambda>(n, d, vs) (n', d', cells). n' = n \<and> d' = d \<and> map visible cells = vs) ?cols cs" by blast
  have "list_all2 (\<lambda>(n, d, vs) (n', d', cs). n' = n \<and> d' = d \<and> map visible cs = vs) cols
      (map (\<lambda>(n, _, cs). (fst (unwiden n), snd (unwiden n), cs)) cs)"
    using w(4) by (auto simp: list_all2_conv_all_nth case_prod_unfold)
  then show "\<exists>w read. pa_write wide_numpy cols = Inr w \<and> take 6 w \<noteq> npy_magic \<and> pa_read wide_numpy w = Inr read \<and>
        list_all2 (\<lambda>(n, d, vs) (n', d', cs). n' = n \<and> d' = d \<and> map visible cs = vs) cols read"
    using w(1-3) by (auto simp: wide_numpy_def)
qed (simp_all add: wide_numpy_def sample_numpy_def)

lemma widths_names:
  "list_all (\<lambda>c. map fst (bk_dtype c) = map fst dt) rest \<Longrightarrow>
     map fst (foldl (\<lambda>dt c. map2 (\<lambda>(n, d) (_, d'). (n, max d d')) dt (bk_dtype c)) dt rest) = map fst (dt :: (string \<times> nat) list)"
proof (induction rest arbitrary: dt)
  case (Cons c rest)
  have "length (bk_dtype c) = length dt" by (rule map_eq_imp_length_eq [of fst _ fst]) (use Cons.prems in simp)
  then have "map fst (map2 (\<lambda>(n, d) (_, d'). (n, max d d')) dt (bk_dtype c)) = map fst dt"
    by (auto intro!: nth_equalityI simp: case_prod_unfold)
  with Cons show ?case by simp
qed simp

lemma wide_promotes: "numpy_promotes wide_numpy"
  unfolding numpy_promotes_def
proof (intro allI impI)
  fix bs and c :: "(nat, int) block"
  assume wf: "\<forall>b \<in> set bs. wf_block b" and c: "np_promoted wide_numpy bs = Inr c"
  from c obtain b rest where bs: "bs = b # rest" by (cases bs) (auto simp: wide_numpy_def)
  with c have same: "list_all (\<lambda>c. map fst (bk_dtype c) = map fst (bk_dtype b)) rest"
    and cc: "c = \<lparr>bk_dtype = foldl (\<lambda>dt c. map2 (\<lambda>(n, d) (_, d'). (n, max d d')) dt (bk_dtype c)) (bk_dtype b) rest,
      bk_rows = concat (map bk_rows bs), bk_masked = list_ex bk_masked bs\<rparr>"
    by (auto simp: wide_numpy_def split: if_splits)
  from widths_names [OF same] have "map fst (bk_dtype c) = map fst (bk_dtype b)" by (simp add: cc)
  with same have names: "map fst (bk_dtype c) = map fst (bk_dtype x)" if "x \<in> set bs" for x
    using that by (auto simp: bs list_all_iff)
  have "map (cast_row wide_numpy (bk_dtype x) (bk_dtype c)) (bk_rows x) = bk_rows x" if x: "x \<in> set bs" for x
  proof (rule map_idI)
    fix row assume "row \<in> set (bk_rows x)"
    with wf x have "length row = length (bk_dtype x)" using wf_blockD(1) by blast
    moreover have "length (bk_dtype c) = length (bk_dtype x)" using arg_cong [OF names [OF x], of length] by simp
    ultimately show "cast_row wide_numpy (bk_dtype x) (bk_dtype c) row = row"
      by (auto simp: cast_row_def wide_numpy_def intro!: nth_equalityI split: prod.split)
  qed
  then have "map (\<lambda>b. map (cast_row wide_numpy (bk_dtype b) (bk_dtype c)) (bk_rows b)) bs = map bk_rows bs" by simp
  moreover have "bk_rows c = concat (map bk_rows bs)" "bk_masked c = list_ex bk_masked bs" by (simp_all add: cc)
  ultimately show "(\<forall>b \<in> set bs. map fst (bk_dtype c) = map fst (bk_dtype b)) \<and>
     bk_rows c = concat (map (\<lambda>b. map (cast_row wide_numpy (bk_dtype b) (bk_dtype c)) (bk_rows b)) bs) \<and> bk_masked c = list_ex bk_masked bs"
    using names by (simp only:) blast
qed

definition narrow_block :: "(nat, int) block" where
  "narrow_block = \<lparr>bk_dtype = [(joinkey, 8), (''x'', 4)], bk_rows = [[(1, False), (10, True)]], bk_masked = True\<rparr>"

definition wide_block :: "(nat, int) block" where
  "wide_block = \<lparr>bk_dtype = [(joinkey, 8), (''x'', 8)], bk_rows = [[(2, False), (20, False)]], bk_masked = False\<rparr>"

text \<open>Three blocks of two dtypes, the first with a null, become one; the null crosses the wire.\<close>

theorem blocks_well_formed_witness:
  "\<exists>c w d. np_concat wide_numpy [narrow_block, wide_block, wide_block] = Inr c \<and> wf_block c \<and> bk_masked c \<and>
     nulls c = [[False, True], [False, False], [False, False]] \<and>
     to_wire wide_numpy narrow_block = Inr w \<and> from_wire wide_numpy w = Inr d \<and> np_rows d = [[Some 1, None]]"
proof -
  have blocks: "wf_block narrow_block" "wf_block wide_block" "\<forall>c \<in> set [narrow_block, wide_block, wide_block]. wf_block c"
    by (auto simp: wf_block_def narrow_block_def wide_block_def joinkey_def)
  let ?joined = "\<lparr>bk_dtype = [(joinkey, 8), (''x'', 8)],
    bk_rows = [[(1, False), (10, True)], [(2, False), (20, False)], [(2, False), (20, False)]], bk_masked = True\<rparr> :: (nat, int) block"
  have c: "np_concat wide_numpy [narrow_block, wide_block, wide_block] = Inr ?joined"
    by (simp add: np_concat_def wide_numpy_def narrow_block_def wide_block_def)
  note w = blocks_well_formed [OF wide_documented wide_promotes blocks, of "\<lambda>s. s" joinkey 2 0 "[]" 0 1 ?joined "[]" narrow_block "[]" narrow_block False narrow_block]
  from w c have "wf_block ?joined" "nulls ?joined = concat (map nulls [narrow_block, wide_block, wide_block])" by blast+
  moreover have "bk_masked ?joined" by simp
  moreover from w obtain x d where "to_wire wide_numpy narrow_block = Inr x" "from_wire wide_numpy x = Inr d" "np_rows d = np_rows narrow_block"
    by blast
  moreover have "np_rows narrow_block = [[Some 1, None]]" by (simp add: np_rows_def visible_def narrow_block_def)
  moreover have "concat (map nulls [narrow_block, wide_block, wide_block]) = [[False, True], [False, False], [False, False]]"
    by (simp add: nulls_def narrow_block_def wide_block_def)
  ultimately show ?thesis using c by metis
qed

theorem partition_conserves_rows_witness:
  "\<exists>bs. np_partition sample_numpy (\<lambda>s. s) left_block joinkey 2 0 = Inr bs \<and> mset (concat (map bk_rows bs)) = mset (bk_rows left_block)"
proof -
  have "map_sum (\<lambda>_. ()) length (np_partition sample_numpy (\<lambda>s. s) left_block joinkey 2 0) = Inr 2" by code_simp
  then obtain bs where bs: "np_partition sample_numpy (\<lambda>s. s) left_block joinkey 2 0 = Inr bs"
    by (cases "np_partition sample_numpy (\<lambda>s. s) left_block joinkey 2 0") auto
  from partition_conserves_rows [OF this] bs show ?thesis by simp
qed

end
