(* ===== verification/Shuffle_Exchange.thy ===== *)
theory Shuffle_Exchange
  imports Shuffle_Stages Numpy_Exchange
begin

text \<open>
  What the stages of a shuffle make together: the map stage's blocks, through their wire form, are what the
  gather stage of each destination puts together, and joining destination by destination is joining the
  whole. Proved once for every backend that keeps the contract \<open>exchange\<close>, then for the numpy backend.
\<close>

section \<open>Traversing\<close>

lemma traverse_append: "traverse f xs = Inr us \<Longrightarrow> traverse f ys = Inr vs \<Longrightarrow> traverse f (xs @ ys) = Inr (us @ vs)"
  by (induction xs arbitrary: us) (auto simp: result_bind_Inr_iff)

lemma traverse_choice:
  assumes "\<forall>x \<in> set xs. \<exists>y. f x = Inr y \<and> P x y"
  shows "\<exists>ys. traverse f xs = Inr ys \<and> list_all2 P xs ys"
  using assms
proof (induction xs)
  case (Cons x xs)
  from Cons.prems obtain y where "f x = Inr y" "P x y" by auto
  moreover from Cons obtain ys where "traverse f xs = Inr ys" "list_all2 P xs ys" by auto
  ultimately show ?case by (intro exI [of _ "y # ys"]) simp
qed simp

lemma map_of_enumerate: "d < length ys \<Longrightarrow> map_of (py_enumerate ys) (int d) = Some (ys ! d)"
  using map_of_zip_nth [of "map int [0..<length ys]" ys d] by (simp add: py_enumerate_def distinct_map)

section \<open>The payloads of a side\<close>

text \<open>What the map stage writes for the values of its tasks, task \<open>i\<close> having the \<open>i\<close>-th.\<close>

definition side_payloads :: "('f, 'v) worker_env \<Rightarrow> 'v worker_backend \<Rightarrow> string \<times> string \<times> int \<Rightarrow> 'v list \<Rightarrow> string list result" where
  "side_payloads en backend rt vs =
     traverse (\<lambda>(i, v). result_bind (route_blocks backend rt i v) (write_blocks en backend)) (py_enumerate vs)"

definition pickles_blocks :: "('f, 'v) worker_env \<Rightarrow> bool" where
  "pickles_blocks en \<longleftrightarrow> (\<forall>m. en_loads_blocks en (en_dumps_blocks en m) = Inr m)"

lemma dest_blocks_dumps:
  "pickles_blocks en \<Longrightarrow> dest_blocks en backend d (map (en_dumps_blocks en) ms) =
     traverse (bo_from_wire (wb_blocks backend)) (List.map_filter (\<lambda>m. map_of m d) ms)"
  using traverse_map_cong [of ms "split_blocks en" "en_dumps_blocks en" "\<lambda>m. m"]
  by (simp add: dest_blocks_def split_blocks_def pickles_blocks_def)

lemma dest_blocks_append:
  "dest_blocks en backend d xs = Inr us \<Longrightarrow> dest_blocks en backend d ys = Inr vs \<Longrightarrow> dest_blocks en backend d (xs @ ys) = Inr (us @ vs)"
  by (auto simp: dest_blocks_def result_bind_Inr_iff map_filter_def
      dest: traverse_append [where f = "split_blocks en"] intro!: traverse_append)

context exchange
begin

lemma payload_blocks:
  assumes "wb_blocks backend = ops" "good f v" "keyed v [k]" "0 < parts"
  shows "\<exists>m. result_bind (route_blocks backend (''hash'', k, parts) tk v) (write_blocks en backend) = Inr (en_dumps_blocks en m) \<and>
    (\<forall>d < nat parts. \<exists>w b. map_of m (int d) = Some w \<and> bo_from_wire ops w = Inr b \<and> good f b \<and>
       rows b = List.filter (\<lambda>r. dest f k parts r = d) (rows v) \<and> (\<forall>on. keyed v on \<longrightarrow> keyed b on))"
proof -
  from partition_law [OF assms(2-4)] obtain bs where bs: "bo_partition ops v k parts = Inr bs" "length bs = nat parts"
    "\<forall>d < nat parts. good f (bs ! d) \<and> rows (bs ! d) = List.filter (\<lambda>r. dest f k parts r = d) (rows v) \<and> (\<forall>on. keyed v on \<longrightarrow> keyed (bs ! d) on)"
    by blast
  have wire: "\<exists>w. bo_to_wire ops b = Inr w \<and> (\<exists>c. bo_from_wire ops w = Inr c \<and> good f c \<and> rows c = rows b \<and> (\<forall>on. keyed b on \<longrightarrow> keyed c on))"
    if "b \<in> set bs" for b
  proof -
    from that obtain d where "d < nat parts" "b = bs ! d" using bs(2) by (auto simp: in_set_conv_nth)
    then have "good f b" using bs(3) by simp
    from wire_law [OF this] show ?thesis by blast
  qed
  from wire have "\<forall>b \<in> set bs. \<exists>w. bo_to_wire ops b = Inr w \<and> (\<exists>c. bo_from_wire ops w = Inr c \<and> good f c \<and> rows c = rows b \<and> (\<forall>on. keyed b on \<longrightarrow> keyed c on))"
    by blast
  from traverse_choice [OF this] obtain ws where ws: "traverse (bo_to_wire ops) bs = Inr ws"
    "list_all2 (\<lambda>b w. \<exists>c. bo_from_wire ops w = Inr c \<and> good f c \<and> rows c = rows b \<and> (\<forall>on. keyed b on \<longrightarrow> keyed c on)) bs ws" by blast
  have e: "traverse (\<lambda>(d, b). result_bind (bo_to_wire ops b) (\<lambda>w. Inr (d, w))) (zip ds bs) = Inr (zip ds ws)"
    if "length ds = length bs" for ds :: "int list"
    using that ws(1) by (induction ds bs arbitrary: ws rule: list_induct2) (auto simp: result_bind_Inr_iff)
  have len: "length ws = length bs" using ws(2) by (simp add: list_all2_lengthD)
  then have "result_bind (route_blocks backend (''hash'', k, parts) tk v) (write_blocks en backend) = Inr (en_dumps_blocks en (py_enumerate ws))"
    using e [of "map int [0..<length bs]"] by (simp add: route_blocks_def write_blocks_def assms(1) bs(1) py_enumerate_def)
  moreover have "\<exists>w b. map_of (py_enumerate ws) (int d) = Some w \<and> bo_from_wire ops w = Inr b \<and> good f b \<and>
       rows b = List.filter (\<lambda>r. dest f k parts r = d) (rows v) \<and> (\<forall>on. keyed v on \<longrightarrow> keyed b on)" if "d < nat parts" for d
    using list_all2_nthD [OF ws(2), of d] that bs(2,3) len by (fastforce simp: map_of_enumerate)
  ultimately show ?thesis by blast
qed

lemma side_blocks:
  assumes "wb_blocks backend = ops" "pickles_blocks en" "\<forall>v \<in> set vs. good f v \<and> keyed v [k]" "0 < parts"
  shows "\<exists>ps. side_payloads en backend (''hash'', k, parts) vs = Inr ps \<and>
    (\<forall>d < nat parts. \<exists>bs. dest_blocks en backend (int d) ps = Inr bs \<and> length bs = length vs \<and>
       (\<forall>b \<in> set bs. good f b \<and> (\<forall>on. (\<forall>v \<in> set vs. keyed v on) \<longrightarrow> keyed b on)) \<and>
       concat (map rows bs) = List.filter (\<lambda>r. dest f k parts r = d) (concat (map rows vs)))"
proof -
  let ?Q = "\<lambda>v m. \<forall>d < nat parts. \<exists>w b. map_of m (int d) = Some w \<and> bo_from_wire ops w = Inr b \<and> good f b \<and>
       rows b = List.filter (\<lambda>r. dest f k parts r = d) (rows v) \<and> (\<forall>on. keyed v on \<longrightarrow> keyed b on)"
  have one: "\<forall>x \<in> set (py_enumerate vs). \<exists>p. (case x of (i, v) \<Rightarrow> result_bind (route_blocks backend (''hash'', k, parts) i v) (write_blocks en backend)) = Inr p \<and>
      (\<exists>m. p = en_dumps_blocks en m \<and> ?Q (snd x) m)"
  proof
    fix x assume xin: "x \<in> set (py_enumerate vs)"
    obtain i v where x: "x = (i, v)" by (cases x)
    with xin assms(3) have "good f v" "keyed v [k]" by (auto simp: py_enumerate_def dest: set_zip_rightD)
    from payload_blocks [OF assms(1) this assms(4), of i en]
    show "\<exists>p. (case x of (i, v) \<Rightarrow> result_bind (route_blocks backend (''hash'', k, parts) i v) (write_blocks en backend)) = Inr p \<and>
      (\<exists>m. p = en_dumps_blocks en m \<and> ?Q (snd x) m)" by (auto simp: x)
  qed
  from traverse_choice [OF one] obtain ps where ps: "side_payloads en backend (''hash'', k, parts) vs = Inr ps"
    "list_all2 (\<lambda>x p. \<exists>m. p = en_dumps_blocks en m \<and> ?Q (snd x) m) (py_enumerate vs) ps"
    unfolding side_payloads_def by blast
  then have "list_all2 (\<lambda>v p. \<exists>m. p = en_dumps_blocks en m \<and> ?Q v m) vs ps"
    using list_all2_map1 [of "\<lambda>v p. \<exists>m. p = en_dumps_blocks en m \<and> ?Q v m" snd "py_enumerate vs" ps] by simp
  then obtain ms where ms: "ps = map (en_dumps_blocks en) ms" "list_all2 ?Q vs ms"
  proof (induction arbitrary: thesis rule: list_all2_induct)
    case (Cons v vs p ps)
    from Cons.IH obtain ms where "ps = map (en_dumps_blocks en) ms" "list_all2 ?Q vs ms" by blast
    moreover from Cons.hyps(1) obtain m where "p = en_dumps_blocks en m" "?Q v m" by blast
    ultimately show ?case by (intro Cons.prems [of "m # ms"]) simp_all
  qed simp
  have "\<exists>bs. dest_blocks en backend (int d) ps = Inr bs \<and> length bs = length vs \<and>
       (\<forall>b \<in> set bs. good f b \<and> (\<forall>on. (\<forall>v \<in> set vs. keyed v on) \<longrightarrow> keyed b on)) \<and>
       concat (map rows bs) = List.filter (\<lambda>r. dest f k parts r = d) (concat (map rows vs))" if d: "d < nat parts" for d
    unfolding ms(1) dest_blocks_dumps [OF assms(2)] assms(1) using ms(2)
  proof (induction rule: list_all2_induct)
    case Nil
    show ?case by (simp add: map_filter_simps)
  next
    case (Cons v vs m ms)
    from Cons.IH obtain bs where bs: "traverse (bo_from_wire ops) (List.map_filter (\<lambda>m. map_of m (int d)) ms) = Inr bs" "length bs = length vs"
      "\<forall>b \<in> set bs. good f b \<and> (\<forall>on. (\<forall>v \<in> set vs. keyed v on) \<longrightarrow> keyed b on)"
      "concat (map rows bs) = List.filter (\<lambda>r. dest f k parts r = d) (concat (map rows vs))" by blast
    from Cons.hyps(1) d obtain w b where b: "map_of m (int d) = Some w" "bo_from_wire ops w = Inr b" "good f b"
       "rows b = List.filter (\<lambda>r. dest f k parts r = d) (rows v)" "\<forall>on. keyed v on \<longrightarrow> keyed b on" by blast
    show ?case using bs b by (intro exI [of _ "b # bs"]) (simp add: map_filter_simps)
  qed
  with ps(1) show ?thesis by blast
qed

text \<open>The gather's input of one side: every row its destination is meant to get, in the order of the map tasks.\<close>

lemma gathered_side:
  assumes "vs \<noteq> []" "length bs = length vs" "\<forall>b \<in> set bs. good f b \<and> (\<forall>on. (\<forall>v \<in> set vs. keyed v on) \<longrightarrow> keyed b on)"
    and "concat (map rows bs) = R"
  shows "\<exists>c. bo_concat ops bs = Inr c \<and> good f c \<and> rows c = R \<and> (\<forall>on. (\<forall>v \<in> set vs. keyed v on) \<longrightarrow> keyed c on)"
proof -
  from assms(1,2) have "bs \<noteq> []" by auto
  from concat_law [OF this, of f] assms(3,4) show ?thesis by blast
qed

text \<open>Routed, gathered and joined destination by destination: the join of the two sides, each put together whole.\<close>

lemma staged_join:
  assumes "wb_blocks backend = ops" "pickles_blocks en" "ls \<noteq> []" "rs \<noteq> []"
    and l: "\<forall>v \<in> set ls. good f v \<and> keyed v [k] \<and> keyed v on" and r: "\<forall>v \<in> set rs. good g v \<and> keyed v [k] \<and> keyed v on"
    and j: "joinable f g on" "how \<noteq> ''positional''" "k \<in> set on" "0 < parts" and ab: "a \<noteq> b"
  shows "\<exists>lp rp L R J js. side_payloads en backend (''hash'', k, parts) ls = Inr lp \<and> side_payloads en backend (''hash'', k, parts) rs = Inr rp \<and>
    bo_concat ops ls = Inr L \<and> bo_concat ops rs = Inr R \<and> join_blocks ops L R on how = Inr J \<and> length js = nat parts \<and>
    (\<forall>d < nat parts. \<exists>x y. result_bind (dest_blocks en backend (int d) (lp @ rp))
         (\<lambda>bs. gathered backend [a, b] (gather_sides (Some (int (length ls))) bs)) = Inr [(a, x), (b, y)] \<and>
       join_blocks ops x y on how = Inr (js ! d)) \<and>
    mset (concat (map rows js)) = mset (rows J)"
proof -
  let ?join = "join_rows (merge f g on) (null f) (null g) (key f on) (key g on) how"
  let ?L = "concat (map rows ls)" and ?R = "concat (map rows rs)"
  let ?fl = "\<lambda>d. List.filter (\<lambda>x. dest f k parts x = d) ?L" and ?fr = "\<lambda>d. List.filter (\<lambda>x. dest g k parts x = d) ?R"
  from side_blocks [OF assms(1,2) _ j(4), of ls f k] l obtain lp where lp: "side_payloads en backend (''hash'', k, parts) ls = Inr lp"
    "\<forall>d < nat parts. \<exists>bs. dest_blocks en backend (int d) lp = Inr bs \<and> length bs = length ls \<and>
       (\<forall>b \<in> set bs. good f b \<and> (\<forall>on. (\<forall>v \<in> set ls. keyed v on) \<longrightarrow> keyed b on)) \<and> concat (map rows bs) = ?fl d" by blast
  from side_blocks [OF assms(1,2) _ j(4), of rs g k] r obtain rp where rp: "side_payloads en backend (''hash'', k, parts) rs = Inr rp"
    "\<forall>d < nat parts. \<exists>bs. dest_blocks en backend (int d) rp = Inr bs \<and> length bs = length rs \<and>
       (\<forall>b \<in> set bs. good g b \<and> (\<forall>on. (\<forall>v \<in> set rs. keyed v on) \<longrightarrow> keyed b on)) \<and> concat (map rows bs) = ?fr d" by blast
  from concat_law [OF assms(3), of f] l obtain L where L: "bo_concat ops ls = Inr L" "good f L" "rows L = ?L" "keyed L on" by blast
  from concat_law [OF assms(4), of g] r obtain R where R: "bo_concat ops rs = Inr R" "good g R" "rows R = ?R" "keyed R on" by blast
  from join_blocks_rows [OF L(2) R(2) L(4) R(4) j(1,2)] L(3) R(3) obtain J where J: "join_blocks ops L R on how = Inr J" "rows J = ?join ?L ?R" by auto
  have one: "\<exists>c x y. result_bind (dest_blocks en backend (int d) (lp @ rp))
         (\<lambda>bs. gathered backend [a, b] (gather_sides (Some (int (length ls))) bs)) = Inr [(a, x), (b, y)] \<and>
       join_blocks ops x y on how = Inr c \<and> rows c = ?join (?fl d) (?fr d)" if d: "d < nat parts" for d
  proof -
    from lp(2) d obtain lb where lb: "dest_blocks en backend (int d) lp = Inr lb" "length lb = length ls"
      "\<forall>b \<in> set lb. good f b \<and> (\<forall>on. (\<forall>v \<in> set ls. keyed v on) \<longrightarrow> keyed b on)" "concat (map rows lb) = ?fl d" by blast
    from rp(2) d obtain rb where rb: "dest_blocks en backend (int d) rp = Inr rb" "length rb = length rs"
      "\<forall>b \<in> set rb. good g b \<and> (\<forall>on. (\<forall>v \<in> set rs. keyed v on) \<longrightarrow> keyed b on)" "concat (map rows rb) = ?fr d" by blast
    from gathered_side [OF assms(3) lb(2-4)] l obtain x where x: "bo_concat ops lb = Inr x" "good f x" "rows x = ?fl d" "keyed x on" by blast
    from gathered_side [OF assms(4) rb(2-4)] r obtain y where y: "bo_concat ops rb = Inr y" "good g y" "rows y = ?fr d" "keyed y on" by blast
    have "gathered backend [a, b] (gather_sides (Some (int (length ls))) (lb @ rb)) = Inr [(a, x), (b, y)]"
      using ab by (simp add: gathered_def gather_sides_def slice_at_def lb(2) [symmetric] assms(1) x(1) y(1) dict_merge_def)
    with dest_blocks_append [OF lb(1) rb(1)] join_blocks_rows [OF x(2) y(2) x(4) y(4) j(1,2)] x(3) y(3) show ?thesis by auto
  qed
  then have "\<forall>d. \<exists>c. d < nat parts \<longrightarrow> (\<exists>x y. result_bind (dest_blocks en backend (int d) (lp @ rp))
         (\<lambda>bs. gathered backend [a, b] (gather_sides (Some (int (length ls))) bs)) = Inr [(a, x), (b, y)] \<and>
       join_blocks ops x y on how = Inr c) \<and> rows c = ?join (?fl d) (?fr d)" by blast
  from choice [OF this] obtain C where C: "\<And>d. d < nat parts \<Longrightarrow> (\<exists>x y. result_bind (dest_blocks en backend (int d) (lp @ rp))
         (\<lambda>bs. gathered backend [a, b] (gather_sides (Some (int (length ls))) bs)) = Inr [(a, x), (b, y)] \<and>
       join_blocks ops x y on how = Inr (C d))" "\<And>d. d < nat parts \<Longrightarrow> rows (C d) = ?join (?fl d) (?fr d)" by blast
  have "map rows (map C [0..<nat parts]) = map (\<lambda>d. ?join (?fl d) (?fr d)) [0..<nat parts]" using C(2) by simp
  moreover have "mset (concat (map (\<lambda>d. ?join (?fl d) (?fr d)) [0..<nat parts])) = mset (?join ?L ?R)"
    by (rule join_rows_parts) (rule dest_less [OF j(4)], rule dest_less [OF j(4)], rule key_dest [OF j(1,3)])
  ultimately have "mset (concat (map rows (map C [0..<nat parts]))) = mset (rows J)" by (simp only: J(2))
  with lp(1) rp(1) L(1) R(1) J(1) C(1) show ?thesis
    by (intro exI [of _ lp] exI [of _ rp] exI [of _ L] exI [of _ R] exI [of _ J] exI [of _ "map C [0..<nat parts]"]) simp
qed

end

section \<open>The staged join of the numpy backend\<close>

text \<open>
  C36. The staged join is the join. Whatever the two sides' map tasks evaluated to, when they write their
  blocks for the hash of a join key and the gather of each destination reads them back, the joins of the
  destinations hold together exactly the rows of the join of the two sides, each taken whole: no row lost
  on the way, none joined twice, whatever the hash function and however the rows were spread over the tasks.
\<close>
theorem staged_join_is_the_join:
  assumes "numpy_documented np" "wb_blocks backend = numpy_ops np sha" "pickles_blocks en"
    and "ga_barrier_inputs g = [a, b]" "a \<noteq> b" "ga_n_left g = Some (int (length ls))" "resolve_backend en (ga_backend g) = Inr backend"
    and "ls \<noteq> []" "\<forall>v \<in> set ls. wf_block v \<and> bk_dtype v = lt \<and> np_keyed v on"
    and "rs \<noteq> []" "\<forall>v \<in> set rs. wf_block v \<and> bk_dtype v = rt \<and> np_keyed v on"
    and "np_joinable lt rt on" "how \<noteq> ''positional''" "k \<in> set on" "0 < parts"
  shows "\<exists>lp rp L R J js. side_payloads en backend (''hash'', k, parts) ls = Inr lp \<and> side_payloads en backend (''hash'', k, parts) rs = Inr rp \<and>
    bo_concat (numpy_ops np sha) ls = Inr L \<and> bo_concat (numpy_ops np sha) rs = Inr R \<and>
    join_blocks (numpy_ops np sha) L R on how = Inr J \<and> length js = nat parts \<and>
    (\<forall>d < nat parts. \<exists>x y. join_blocks (numpy_ops np sha) x y on how = Inr (js ! d) \<and>
       result_bind (dest_blocks en backend (int d) (lp @ rp))
         (\<lambda>bs. gathered backend [a, b] (gather_sides (ga_n_left g) bs)) = Inr [(a, x), (b, y)] \<and>
       (\<forall>p. gather_call en g \<lparr>task_key = int d, task_partition = p\<rparr> (lp @ rp) =
          result_bind (gather_value en g backend (int d) [(a, x), (b, y)]) (en_dumps en))) \<and>
    mset (concat (map np_rows js)) = mset (np_rows J)"
proof -
  have l: "\<forall>v \<in> set ls. np_good np lt v \<and> np_keyed v [k] \<and> np_keyed v on" and r: "\<forall>v \<in> set rs. np_good np rt v \<and> np_keyed v [k] \<and> np_keyed v on"
    using assms(1,9,11,14) by (auto simp: np_good_def np_keyed_def)
  have "gather_call en g \<lparr>task_key = int d, task_partition = p\<rparr> ps = result_bind (gather_value en g backend (int d) given) (en_dumps en)"
    if "result_bind (dest_blocks en backend (int d) ps) (\<lambda>bs. gathered backend [a, b] (gather_sides (Some (int (length ls))) bs)) = Inr given" for d p ps given
    using that assms(4,6,7) by (auto simp: gather_call_def result_bind_Inr_iff)
  with np.staged_join [OF assms(2,3,8,10) l r assms(12-15,5)] show ?thesis unfolding assms(6) by meson
qed

text \<open>A worker whose pickle is JSON and whose code objects are names.\<close>

definition sample_dumps :: "(int \<times> string) list \<Rightarrow> string" where
  "sample_dumps m = dumps (JArr (map (\<lambda>(d, w). JArr [JInt d, JStr w]) m))"

definition sample_loads :: "string \<Rightarrow> (int \<times> string) list result" where
  "sample_loads data =
     (case loads data of
        Some doc \<Rightarrow> Inr (map (\<lambda>e. case json_items e of
            [JInt d, JStr w] \<Rightarrow> (d, w) | _ \<Rightarrow> (0, [])) (json_items doc))
      | None \<Rightarrow> Inl (ValueError []))"

lemma sample_loads_dumps: "sample_loads (sample_dumps m) = Inr m"
proof -
  let ?xs = "map (\<lambda>(d, w). JArr [JInt d, JStr w]) m"
  have "wf_json x \<and> sort_json x = x" if "x \<in> set ?xs" for x
  proof -
    from that obtain d w where x: "x = JArr [JInt d, JStr w]" by auto
    show ?thesis unfolding x by (rule flat_array) auto
  qed
  then have "loads (sample_dumps m) = Some (JArr ?xs)" using array_round_trip [of ?xs] by (simp add: sample_dumps_def)
  then show ?thesis by (simp add: sample_loads_def o_def case_prod_unfold)
qed

definition sample_backend :: "(unit, int) block worker_backend" where
  "sample_backend = \<lparr>wb_arrays = \<lparr>ab_eval = (\<lambda>op ins params. case ins of [Some x] \<Rightarrow> Inr x | _ \<Rightarrow> Inl (TypeError op)), ab_unaligned = [],
       ab_rows = (\<lambda>b. Some (length (bk_rows b)))\<rparr>,
     wb_blocks = numpy_ops sample_numpy (\<lambda>s. s), wb_adopt = None, wb_identity = ''numpy/1''\<rparr>"

definition sample_worker :: "(string, (unit, int) block) worker_env" where
  "sample_worker = \<lparr>en_interpreter = sample_interpreter, en_callable = (\<lambda>_. True), en_make = Inr, en_resolved_from = (\<lambda>_. None),
     en_backend = (\<lambda>_. sample_backend), en_graph = (\<lambda>_. Inr (sample_graph, [3])),
     en_external = (\<lambda>f ins. Inl (TypeError f)), en_reduce = (\<lambda>f vs. Inr (hd vs)), en_combine = (\<lambda>f a b. Inr b), en_empty = (\<lambda>f. Inr None),
     en_hooks = \<lparr>hk_bind = (\<lambda>_. None), hk_resolve = (\<lambda>_. None)\<rparr>,
     en_sight = \<lparr>is_typestr = (\<lambda>_. ''block''), is_raised_at = (\<lambda>_. None)\<rparr>,
     en_dumps = (\<lambda>_. Inr []), en_loads = (\<lambda>_. Inr None), en_dumps_blocks = sample_dumps, en_loads_blocks = sample_loads\<rparr>"

definition sample_gather :: "string gather" where
  "sample_gather = \<lparr>ga_ir = ''ir'', ga_barrier_inputs = [1, 2], ga_backend = FactoryRef ''numpy'', ga_externals = [], ga_frames = [],
     ga_n_left = Some 1, ga_reduce = None, ga_labels = None\<rparr>"

theorem staged_join_is_the_join_witness:
  "\<exists>lp rp js. side_payloads sample_worker sample_backend (''hash'', joinkey, 2) [left_block] = Inr lp \<and>
     side_payloads sample_worker sample_backend (''hash'', joinkey, 2) [right_block] = Inr rp \<and> length js = nat 2 \<and>
     (\<forall>d < nat 2. \<exists>x y. join_blocks (numpy_ops sample_numpy (\<lambda>s. s)) x y [joinkey] ''outer'' = Inr (js ! d) \<and>
        result_bind (dest_blocks sample_worker sample_backend (int d) (lp @ rp))
          (\<lambda>bs. gathered sample_backend [1, 2] (gather_sides (Some 1) bs)) = Inr [(1, x), (2, y)]) \<and>
     mset (concat (map np_rows js)) =
       {#[Some 2, Some 20, Some 200], [Some 2, Some 21, Some 200], [Some 1, Some 10, None], [Some 3, None, Some 300]#}"
proof -
  have c: "bo_concat (numpy_ops sample_numpy (\<lambda>s. s)) [left_block] = Inr left_block"
    "bo_concat (numpy_ops sample_numpy (\<lambda>s. s)) [right_block] = Inr right_block" by code_simp+
  have j: "map_sum (\<lambda>_. ()) np_rows (join_blocks (numpy_ops sample_numpy (\<lambda>s. s)) left_block right_block [joinkey] ''outer'') =
      Inr [[Some 2, Some 20, Some 200], [Some 2, Some 21, Some 200], [Some 1, Some 10, None], [Some 3, None, Some 300]]" by code_simp
  have e: "wb_blocks sample_backend = numpy_ops sample_numpy (\<lambda>s. s)" "pickles_blocks sample_worker" "ga_barrier_inputs sample_gather = [1, 2]"
    "(1 :: nat) \<noteq> 2" "ga_n_left sample_gather = Some (int (length [left_block]))" "resolve_backend sample_worker (ga_backend sample_gather) = Inr sample_backend"
    "[left_block] \<noteq> []" "[right_block] \<noteq> []" "''outer'' \<noteq> ''positional''" "joinkey \<in> set [joinkey]" "(0 :: int) < 2"
    by (simp_all add: sample_backend_def pickles_blocks_def sample_worker_def sample_gather_def sample_loads_dumps resolve_backend_def)
  have b: "\<forall>v \<in> set [left_block]. wf_block v \<and> bk_dtype v = bk_dtype left_block \<and> np_keyed v [joinkey]"
    "\<forall>v \<in> set [right_block]. wf_block v \<and> bk_dtype v = bk_dtype right_block \<and> np_keyed v [joinkey]"
    using sample_blocks by simp_all
  from staged_join_is_the_join [OF sample_documented e(1-7) b(1) e(8) b(2) sample_blocks(5) e(9-11)] c j show ?thesis
    by (auto simp: sample_gather_def) blast
qed

end
