(* ===== verification/Shuffle_Plan.thy ===== *)
theory Shuffle_Plan
  imports Shuffle_Stages
begin

text \<open>
  The builders of staged plans (\<open>shuffle.py\<close>): \<open>shuffle_plan\<close> and \<open>join_plan\<close>, the refusals, the barrier and its
  sides, the routing and the stages. What a recording session knows (the partitioned sources its outputs
  read, their names, the columns a read covers, the source frames and the services) is a record; the graph
  is what the store lists for the compiled IR.
\<close>

section \<open>Routing\<close>

definition broadcast_join_choice :: "int \<Rightarrow> int \<Rightarrow> int \<Rightarrow> bool" where
  "broadcast_join_choice build_size probe_size n \<longleftrightarrow> build_size * n < build_size + probe_size"

definition scheme_params :: "string option \<Rightarrow> int option \<Rightarrow> int option \<Rightarrow> params result" where
  "scheme_params by n target_bytes =
     (case by of
        Some k \<Rightarrow> Inr [(''scheme'', JStr ''hash''), (''key'', JStr k)]
      | None \<Rightarrow> (case target_bytes of
            Some b \<Rightarrow> Inr [(''scheme'', JStr ''coalesce''), (''target_bytes'', JInt b)]
          | None \<Rightarrow> (case n of
                Some p \<Rightarrow> Inr [(''scheme'', JStr ''count''), (''parts'', JInt p)]
              | None \<Rightarrow> Inl (TypeError ''repartition needs one of by=, n=, or target_bytes=''))))"

text \<open>
  \<open>int(x)\<close> of a parameter's scalar. A float written without an exponent loses its fraction; one written
  with an exponent, which no recorded count is, is refused here.
\<close>

fun json_int :: "json \<Rightarrow> int result" where
  "json_int (JInt i) = Inr i"
| "json_int (JBool b) = Inr (if b then 1 else 0)"
| "json_int (JStr s) = py_int s"
| "json_int (JFloat s) = (if CHR ''e'' \<in> set s \<or> CHR ''n'' \<in> set s then Inl (ValueError s) else py_int (takeWhile (\<lambda>c. c \<noteq> CHR ''.'') s))"
| "json_int _ = Inl (TypeError ''int() argument must be a string or a number'')"

fun node_params :: "node_body \<Rightarrow> params" where
  "node_params (OpNode _ ps) = ps"
| "node_params (ReductionNode _ ps) = ps"
| "node_params (ExchangeNode ps) = ps"
| "node_params (JoinNode ps) = ps"
| "node_params (ExternalNode _ _ ps) = ps"
| "node_params _ = []"

fun node_name :: "node_body \<Rightarrow> string" where
  "node_name (SourceNode n) = n"
| "node_name (OpNode n _) = n"
| "node_name (ReductionNode n _) = n"
| "node_name _ = []"

definition joinkey_field :: string where "joinkey_field = ''__joinkey__''"

definition parts_of :: "params \<Rightarrow> int \<Rightarrow> int result" where
  "parts_of ps steps = (case map_of ps ''parts'' of Some v \<Rightarrow> json_int v | None \<Rightarrow> Inr steps)"

definition routing ::
  "bool \<Rightarrow> ir_node list \<Rightarrow> params \<Rightarrow> int \<Rightarrow> string \<Rightarrow> (int \<times> (string \<times> string \<times> int) \<times> params) result" where
  "routing is_join nodes ps steps backend_id =
     (if is_join then
        result_bind (case List.filter (\<lambda>nd. node_kind (nd_body nd) = ''exchange'') nodes of
            [] \<Rightarrow> Inr steps
          | nd # _ \<Rightarrow> parts_of (node_params (nd_body nd)) steps) (\<lambda>parts.
          Inr (parts, (''hash'', joinkey_field, parts),
            [(''scheme'', JStr ''hash''), (''key'', JStr joinkey_field), (''parts'', JInt parts), (''backend_id'', JStr backend_id)]))
      else
        result_bind (parts_of ps steps) (\<lambda>parts.
        result_bind (case map_of ps ''scheme'' of Some v \<Rightarrow> Inr (py_str v) | None \<Rightarrow> Inl (KeyError (py_repr ''scheme''))) (\<lambda>scheme.
          Inr (parts, (scheme, (case map_of ps ''key'' of Some v \<Rightarrow> py_str v | None \<Rightarrow> []), parts),
            dict_merge ps [(''parts'', JInt parts), (''backend_id'', JStr backend_id)]))))"

definition gather_routing :: "params \<Rightarrow> int \<Rightarrow> string \<Rightarrow> 'p stage_spec list \<Rightarrow> bool \<Rightarrow> params" where
  "gather_routing ps parts backend_id map_stages is_join =
     (let base = [(''parts'', JInt parts), (''backend_id'', JStr backend_id)]
      in if is_join then
           base @ [(''how'', JStr (case map_of ps ''how'' of Some v \<Rightarrow> py_str v | None \<Rightarrow> ''inner'')),
             (''broadcast'', JBool (broadcast_join_choice (int (length (ss_tasks (map_stages ! 0))))
                (int (length (ss_tasks (map_stages ! 1)))) parts))]
         else base)"

section \<open>The barrier and its sides\<close>

record ('f, 'v, 'r, 'w) session_view =
  sv_partitioned :: "(nat \<times> ('v, 'r, 'w) reader) list"
  sv_source_name :: "nat \<Rightarrow> string"
  sv_read_columns :: "nat \<Rightarrow> string list option result"
  sv_frames :: "(node_key \<times> source_frame) list"
  sv_externals :: "(string \<times> 'f) list"
  sv_services :: "service_spec list result"

text \<open>The parts of a join that no destination can do by itself, and a size that is not known yet.\<close>

definition unplannable :: "params \<Rightarrow> string option" where
  "unplannable ps =
     (let how = (case map_of ps ''how'' of Some v \<Rightarrow> py_str v | None \<Rightarrow> ''inner'')
      in if map_of ps ''scheme'' = Some (JStr ''coalesce'')
         then Some (''shuffle_plan cannot run repartition(target_bytes=): its dest count comes from sizes '' @
           ''measured at run time; run it with graphed-executors' run_repartition_by_size'')
         else if truthy (map_of ps ''grouped'') \<and> (how = ''right'' \<or> how = ''outer'')
         then Some (''join_plan cannot run gak.join(grouped=True, how='' @ py_repr how @ '') per dest: its unmatched '' @
           ''build rows regroup across dests; use how='' @ py_repr ''inner'' @ '' or '' @ py_repr ''left'' @ '', or grouped=False'')
         else None)"

text \<open>The one partitioned source a side reads.\<close>

definition side_of ::
  "string \<Rightarrow> string \<Rightarrow> ir_node list \<Rightarrow> (string \<rightharpoonup> nat \<times> ('v, 'r, 'w) reader) \<Rightarrow> nat \<Rightarrow> (string \<times> nat \<times> ('v, 'r, 'w) reader) result" where
  "side_of builder kind nodes by_name target =
     result_bind (ir_cone nodes [target] {}) (\<lambda>cone.
       let sources = map (\<lambda>i. node_name (nd_body (nodes ! i))) (List.filter (\<lambda>i. is_source (nodes ! i)) (sorted_list_of_set cone));
           refused = Inl (TypeError (builder @ '': each side of the '' @ kind @ '' must read exactly one partitioned source; one reads '' @
             json_repr (JArr (map JStr (sort sources)))))
       in case sources of
            [name] \<Rightarrow> (case by_name name of Some (nid, rd) \<Rightarrow> Inr (name, nid, rd) | None \<Rightarrow> refused)
          | _ \<Rightarrow> refused)"

definition barrier_sides ::
  "string \<Rightarrow> ('f, 'v, 'r, 'w) session_view \<Rightarrow> ir_node list \<Rightarrow> nat list \<Rightarrow>
   (nat \<times> nat list \<times> (string \<times> nat \<times> ('v, 'r, 'w) reader) list \<times> nat set) result" where
  "barrier_sides builder sv nodes marked =
     (let is_join = (builder = ''join_plan'');
          kind = (if is_join then ''join'' else ''exchange'');
          n_read = length (sv_partitioned sv)
      in case List.filter (\<lambda>i. node_kind (nd_body (nodes ! i)) = kind) [0..<length nodes] of
           [] \<Rightarrow> Inl (TypeError (if is_join then ''join_plan needs a Join boundary in the graph (use graphed.join)''
                  else ''shuffle_plan needs a repartition Exchange in the graph (use graphed.repartition)''))
         | barrier # _ \<Rightarrow>
             if n_read \<noteq> (if is_join then 2 else 1)
             then Inl (TypeError (builder @ '' needs exactly '' @ (if is_join then ''two'' else ''one'') @ '' partitioned source'' @
               (if is_join then ''s'' else []) @ ''; the output reads '' @ dec (int n_read)))
             else case unplannable (node_params (nd_body (nodes ! barrier))) of
               Some message \<Rightarrow> Inl (TypeError message)
             | None \<Rightarrow>
                 result_bind (ir_cone nodes marked {barrier}) (\<lambda>post.
                   if \<exists>i \<in> post. is_source (nodes ! i)
                   then Inl (TypeError (builder @ '': an operation after the '' @ kind @ '' reads a source directly, '' @
                     ''so its rows would not line up with the barrier's; compute it before the barrier''))
                   else
                     let by_name = map_of (rev (map (\<lambda>(nid, rd). (sv_source_name sv nid, nid, rd)) (sv_partitioned sv)));
                         targets = nd_inputs (nodes ! barrier)
                     in result_bind (traverse (side_of builder kind nodes by_name) targets) (\<lambda>sides. Inr (barrier, targets, sides, post))))"

section \<open>External evaluators\<close>

text \<open>\<open>external_evaluators\<close> (\<open>aggregate.py\<close>): recorded evaluators by key, then those of the compiled graph's nodes.\<close>

fun node_external_key :: "node_body \<Rightarrow> string option" where
  "node_external_key (ExternalNode chash kind ps) = Some (external_key chash ps)"
| "node_external_key _ = None"

definition external_evaluators :: "(node_body \<times> 'f) list \<Rightarrow> ir_node list \<Rightarrow> (string \<times> 'f) list" where
  "external_evaluators recorded nodes =
     (let by_key = map_of (rev (List.map_filter (\<lambda>(body, fn). map_option (\<lambda>k. (k, fn)) (node_external_key body)) recorded))
      in dict_merge [] (List.map_filter (\<lambda>nd. case node_external_key (nd_body nd) of
           None \<Rightarrow> None | Some k \<Rightarrow> map_option (\<lambda>fn. (k, fn)) (by_key k)) nodes))"

definition cone_externals :: "ir_node list \<Rightarrow> nat set \<Rightarrow> (string \<times> 'f) list \<Rightarrow> (string \<times> 'f) list" where
  "cone_externals nodes cone wired =
     List.filter (\<lambda>(key, fn). \<exists>i \<in> cone. node_external_key (nd_body (nodes ! i)) = Some key) wired"

section \<open>Building a plan\<close>

definition steps_for :: "('v, 'r, 'w) reader \<Rightarrow> int option \<Rightarrow> int" where
  "steps_for rd steps = (case steps of Some n \<Rightarrow> n | None \<Rightarrow> (case rd_steps rd of Some n \<Rightarrow> n | None \<Rightarrow> 1))"

text \<open>\<open>(reduce, combine, empty)\<close>\<close>

type_synonym 'f fold_parts = "'f \<times> 'f \<times> 'f"

definition reduce_stage ::
  "('f, 'v, 'r, 'w) stage_process interpreter \<Rightarrow> 'f fold_parts \<Rightarrow> 'f backend_ref \<Rightarrow> ('f \<Rightarrow> bool) \<Rightarrow> string \<Rightarrow> int \<Rightarrow> ('f, 'v, 'r, 'w) stage_process stage_spec result" where
  "reduce_stage env trio factory is_partial backend_id gather_index =
     (case trio of (_, combine, unit) \<Rightarrow>
        let adopts = (case factory of ImportRef _ \<Rightarrow> True | FactoryRef f \<Rightarrow> is_partial f)
        in result_bind (op_from_callable env (FoldStage \<lparr>fo_combine = combine, fo_empty = unit,
               fo_backend = (if adopts then Some factory else None)\<rparr>) True) (\<lambda>process.
             Inr \<lparr>ss_kind = ''reduce'', ss_inputs = [gather_index], ss_process = process,
               ss_routing = [(''backend_id'', JStr backend_id)], ss_tasks = [\<lparr>task_key = 0, task_partition = mk_partition ''reduce'' [] 0 1\<rparr>]\<rparr>))"

definition map_stage ::
  "('f, 'v, 'r, 'w) stage_process interpreter \<Rightarrow> ('f, 'v, 'r, 'w) session_view \<Rightarrow> string \<Rightarrow> ir_node list \<Rightarrow> 'f backend_ref \<Rightarrow> (string \<times> 'f) list \<Rightarrow>
   string \<times> string \<times> int \<Rightarrow> params \<Rightarrow> (node_key \<times> string list \<times> source_frame) list option \<Rightarrow>
   nat \<times> (string \<times> nat \<times> ('v, 'r, 'w) reader) \<times> partition list \<Rightarrow> ('f, 'v, 'r, 'w) stage_process stage_spec result" where
  "map_stage env sv ir nodes factory wired route record labels side =
     (case side of (target, (name, nid, rd), parts) \<Rightarrow>
        result_bind (rd_columns rd) (\<lambda>declared.
        result_bind (case declared of Some cols \<Rightarrow> Inr (Some cols) | None \<Rightarrow> sv_read_columns sv nid) (\<lambda>columns.
        result_bind (ir_cone nodes [target] {}) (\<lambda>cone.
        result_bind (op_from_callable env (MapWriteStage
            \<lparr>mw_ir = ir, mw_target = target, mw_source_name = name, mw_reader = rd, mw_columns = columns, mw_backend = factory,
             mw_externals = cone_externals nodes cone wired, mw_frames = sv_frames sv, mw_route = route, mw_labels = labels\<rparr>) True) (\<lambda>process.
          Inr \<lparr>ss_kind = ''map_write'', ss_inputs = [], ss_process = process, ss_routing = record,
            ss_tasks = map (\<lambda>(i, p). \<lparr>task_key = i, task_partition = p\<rparr>) (py_enumerate parts)\<rparr>)))))"

text \<open>Block \<open>i\<close> pairs with block \<open>i\<close> in a positional join: the destinations are the partitions of either side.\<close>

definition route_of ::
  "bool \<Rightarrow> ir_node list \<Rightarrow> params \<Rightarrow> int option \<Rightarrow> string \<Rightarrow> (string \<times> nat \<times> ('v, 'r, 'w) reader) list \<Rightarrow> partition list list \<Rightarrow>
   (int \<times> (string \<times> string \<times> int) \<times> params) result" where
  "route_of is_join nodes ps steps backend_id sides side_parts =
     (if map_of ps ''how'' = Some (JStr ''positional'') then
        (case (sides, side_parts) of
           ([(lname, _, _), (rname, _, _)], [lp, rp]) \<Rightarrow>
             if length lp \<noteq> length rp
             then Inl (TypeError (''join_plan: how='' @ py_repr ''positional'' @ '' needs one partition per partition, and '' @
               py_repr lname @ '' has '' @ dec (int (length lp)) @ '' and '' @ py_repr rname @ '' '' @ dec (int (length rp))))
             else routing False nodes [(''scheme'', JStr ''position'')] (int (length lp)) backend_id
         | _ \<Rightarrow> Inl (ValueError ''too many values to unpack (expected 2)''))
      else routing is_join nodes ps (case steps of None \<Rightarrow> 1 | Some n \<Rightarrow> n) backend_id)"

definition build ::
  "('f, 'v) worker_env \<Rightarrow> ('f, 'v, 'r, 'w) stage_process interpreter \<Rightarrow> string \<Rightarrow> ('f, 'v, 'r, 'w) session_view \<Rightarrow> string \<Rightarrow> 'f fold_parts option \<Rightarrow>
   'f backend_ref \<Rightarrow> ('f \<Rightarrow> bool) \<Rightarrow> string \<Rightarrow> int option \<Rightarrow> (unit \<Rightarrow> (node_key \<times> string list \<times> source_frame) list option result) \<Rightarrow>
   ('f, 'v, 'r, 'w) stage_process op_spec option \<Rightarrow> ('f, 'v, 'r, 'w) stage_process durable_plan_v2 result" where
  "build en env builder sv ir trio factory is_partial backend_id steps on_compiled fin =
     (let is_join = (builder = ''join_plan'')
      in result_bind (en_graph en ir) (\<lambda>(nodes, marked).
         result_bind (barrier_sides builder sv nodes marked) (\<lambda>(barrier, targets, sides, post).
         let ps = node_params (nd_body (nodes ! barrier))
         in result_bind (refuse_chunk_partials nodes marked (if trio = None then AllOutputs else NoOutputs)) (\<lambda>_.
            result_bind (traverse (\<lambda>(_, _, rd). rd_partitions rd (steps_for rd steps)) sides) (\<lambda>side_parts.
            result_bind (route_of is_join nodes ps steps backend_id sides side_parts) (\<lambda>(parts, rt, record).
            result_bind (on_compiled ()) (\<lambda>labels.
            result_bind (traverse (map_stage env sv ir nodes factory (sv_externals sv) rt record labels)
                (zip targets (zip sides side_parts))) (\<lambda>map_stages.
            let gatherer = \<lparr>ga_ir = ir, ga_barrier_inputs = targets, ga_backend = factory,
                  ga_externals = cone_externals nodes post (sv_externals sv), ga_frames = sv_frames sv,
                  ga_n_left = (if \<not> is_join then None else if fst rt = ''position'' then Some 1
                    else Some (int (length (ss_tasks (map_stages ! 0))))),
                  ga_reduce = map_option fst trio, ga_labels = labels\<rparr>
            in result_bind (op_from_callable env (GatherStage gatherer) True) (\<lambda>gprocess.
               let gather_stage = \<lparr>ss_kind = (if is_join then ''gather_join'' else ''gather''),
                     ss_inputs = map int [0..<length map_stages], ss_process = gprocess,
                     ss_routing = gather_routing ps parts backend_id map_stages is_join,
                     ss_tasks = map (\<lambda>d. \<lparr>task_key = d, task_partition = mk_partition ''dest'' ''p'' d (d + 1)\<rparr>) (map int [0..<nat parts])\<rparr>
               in result_bind (case trio of None \<Rightarrow> Inr []
                     | Some m \<Rightarrow> result_bind (reduce_stage env m factory is_partial backend_id (int (length map_stages))) (\<lambda>s. Inr [s])) (\<lambda>tail_stages.
                  result_bind (sv_services sv) (\<lambda>services.
                    Inr \<lparr>v2_ir = ir, v2_stages = map_stages @ gather_stage # tail_stages, v2_format_version = format_version_v2,
                         v2_services = services, v2_finalize = fin\<rparr>)))))))))))"

definition shuffle_plan where
  "shuffle_plan en env sv ir trio = build en env ''shuffle_plan'' sv ir (Some trio)"

text \<open>\<open>join_plan\<close>: reduce, combine and empty together or none of them; several outputs need them.\<close>

definition join_plan where
  "join_plan en env sv ir n_outputs red comb unit factory is_partial backend_id steps =
     (let go = (\<lambda>trio. build en env ''join_plan'' sv ir trio factory is_partial backend_id steps (\<lambda>_. Inr None) None)
      in if (red = None) \<noteq> (comb = None) \<or> (comb = None) \<noteq> (unit = None)
         then Inl (TypeError ''join_plan takes reduce, combine and empty together, or none of them'')
         else if n_outputs = (0 :: nat) \<or> (n_outputs > 1 \<and> red = None)
         then Inl (TypeError ''join_plan takes one output, or several with reduce, combine and empty'')
         else go (case (red, comb, unit) of (Some r, Some c, Some e) \<Rightarrow> Some (r, c, e) | _ \<Rightarrow> None))"

section \<open>The shape of a built plan\<close>

lemma routing_parts: "routing is_join nodes ps steps b = Inr (parts, rt, record) \<Longrightarrow> snd (snd rt) = parts"
  by (auto simp: routing_def result_bind_Inr_iff split: if_splits list.splits)

lemma route_of_parts: "route_of is_join nodes ps steps b sides side_parts = Inr (parts, rt, record) \<Longrightarrow> snd (snd rt) = parts"
  unfolding route_of_def by (split if_split_asm; (split list.splits prod.splits if_splits | simp | erule routing_parts | clarsimp)+)

lemma barrier_sides_length:
  "barrier_sides builder sv nodes marked = Inr (barrier, targets, sides, post) \<Longrightarrow> length sides = length targets"
  by (auto simp: barrier_sides_def Let_def result_bind_Inr_iff dest: traverse_length split: list.splits if_splits option.splits)

lemma task_keys_enumerate: "map task_key (map (\<lambda>(i, p). \<lparr>task_key = i, task_partition = p\<rparr>) (py_enumerate xs)) = map int [0..<length xs]"
  by (simp add: o_def case_prod_unfold map_fst_py_enumerate [symmetric])

lemma traverse_nth: "traverse f xs = Inr ys \<Longrightarrow> i < length xs \<Longrightarrow> f (xs ! i) = Inr (ys ! i)"
proof (induction xs arbitrary: ys i)
  case (Cons x xs)
  then show ?case by (cases i) (auto simp: result_bind_Inr_iff)
qed simp

lemma map_stage_shape:
  assumes "map_stage env sv ir nodes factory wired rt record labels (target, side, parts) = Inr s"
  shows "ss_inputs s = [] \<and> map task_key (ss_tasks s) = map int [0..<length (ss_tasks s)] \<and>
    (\<exists>m. op_from_callable env (MapWriteStage m) True = Inr (ss_process s) \<and> mw_target m = target \<and> mw_route m = rt \<and> mw_ir m = ir)"
proof -
  obtain name nid rd where s: "side = (name, nid, rd)" by (cases side)
  from assms obtain columns cone process where "op_from_callable env (MapWriteStage
      \<lparr>mw_ir = ir, mw_target = target, mw_source_name = name, mw_reader = rd, mw_columns = columns, mw_backend = factory,
       mw_externals = cone_externals nodes cone wired, mw_frames = sv_frames sv, mw_route = rt, mw_labels = labels\<rparr>) True = Inr process"
    and e: "s = \<lparr>ss_kind = ''map_write'', ss_inputs = [], ss_process = process, ss_routing = record,
            ss_tasks = map (\<lambda>(i, p). \<lparr>task_key = i, task_partition = p\<rparr>) (py_enumerate parts)\<rparr>"
    by (auto simp: map_stage_def s result_bind_Inr_iff)
  then show ?thesis using task_keys_enumerate [of parts] by (auto simp: e intro!: exI)
qed

lemma build_shape:
  assumes "build en env builder sv ir trio factory is_partial backend_id steps on_compiled fin = Inr plan"
  obtains map_stages gather tail_stages g rt where
    "v2_stages plan = map_stages @ gather # tail_stages"
    "\<forall>i < length map_stages. ss_inputs (map_stages ! i) = [] \<and>
       map task_key (ss_tasks (map_stages ! i)) = map int [0..<length (ss_tasks (map_stages ! i))] \<and>
       (\<exists>m. op_from_callable env (MapWriteStage m) True = Inr (ss_process (map_stages ! i)) \<and>
          mw_target m = ga_barrier_inputs g ! i \<and> mw_route m = rt \<and> mw_ir m = ga_ir g)"
    "ss_inputs gather = map int [0..<length map_stages]" "map task_key (ss_tasks gather) = map int [0..<nat (snd (snd rt))]"
    "op_from_callable env (GatherStage g) True = Inr (ss_process gather)" "length (ga_barrier_inputs g) = length map_stages"
    "ga_n_left g = (if builder \<noteq> ''join_plan'' then None else if fst rt = ''position'' then Some 1
       else Some (int (length (ss_tasks (map_stages ! 0)))))"
    "if trio = None then tail_stages = []
     else \<exists>s. tail_stages = [s] \<and> ss_kind s = ''reduce'' \<and> ss_inputs s = [int (length map_stages)] \<and> length (ss_tasks s) = 1"
proof -
  from assms obtain nodes marked barrier targets sides post side_parts parts rt table labels map_stages gprocess tail_stages services where
    b: "barrier_sides builder sv nodes marked = Inr (barrier, targets, sides, post)"
    and sp: "traverse (\<lambda>(_, _, rd). rd_partitions rd (steps_for rd steps)) sides = Inr side_parts"
    and r: "route_of (builder = ''join_plan'') nodes (node_params (nd_body (nodes ! barrier))) steps backend_id sides side_parts = Inr (parts, rt, table)"
    and m: "traverse (map_stage env sv ir nodes factory (sv_externals sv) rt table labels) (zip targets (zip sides side_parts)) = Inr map_stages"
    and g: "op_from_callable env (GatherStage \<lparr>ga_ir = ir, ga_barrier_inputs = targets, ga_backend = factory,
                  ga_externals = cone_externals nodes post (sv_externals sv), ga_frames = sv_frames sv,
                  ga_n_left = (if builder \<noteq> ''join_plan'' then None else if fst rt = ''position'' then Some 1
                    else Some (int (length (ss_tasks (map_stages ! 0))))),
                  ga_reduce = map_option fst trio, ga_labels = labels\<rparr>) True = Inr gprocess"
    and t: "(case trio of None \<Rightarrow> Inr [] | Some m \<Rightarrow>
        result_bind (reduce_stage env m factory is_partial backend_id (int (length map_stages))) (\<lambda>s. Inr [s])) = Inr tail_stages"
    and p: "plan = \<lparr>v2_ir = ir, v2_stages = map_stages @ \<lparr>ss_kind = (if builder = ''join_plan'' then ''gather_join'' else ''gather''),
                     ss_inputs = map int [0..<length map_stages], ss_process = gprocess,
                     ss_routing = gather_routing (node_params (nd_body (nodes ! barrier))) parts backend_id map_stages (builder = ''join_plan''),
                     ss_tasks = map (\<lambda>d. \<lparr>task_key = d, task_partition = mk_partition ''dest'' ''p'' d (d + 1)\<rparr>) (map int [0..<nat parts])\<rparr> # tail_stages,
                   v2_format_version = format_version_v2, v2_services = services, v2_finalize = fin\<rparr>"
    unfolding build_def Let_def result_bind_Inr_iff by (auto simp: result_bind_Inr_iff)
  have k: "length map_stages = length targets"
    using traverse_length [OF m] traverse_length [OF sp] barrier_sides_length [OF b] by simp
  have ms: "ss_inputs (map_stages ! i) = [] \<and> map task_key (ss_tasks (map_stages ! i)) = map int [0..<length (ss_tasks (map_stages ! i))] \<and>
      (\<exists>m. op_from_callable env (MapWriteStage m) True = Inr (ss_process (map_stages ! i)) \<and> mw_target m = targets ! i \<and> mw_route m = rt \<and> mw_ir m = ir)"
    if "i < length map_stages" for i
    using map_stage_shape traverse_nth [OF m, of i] that traverse_length [OF sp] barrier_sides_length [OF b] k by simp blast
  have tl: "if trio = None then tail_stages = []
     else \<exists>s. tail_stages = [s] \<and> ss_kind s = ''reduce'' \<and> ss_inputs s = [int (length map_stages)] \<and> length (ss_tasks s) = 1"
    using t by (cases trio) (auto simp: result_bind_Inr_iff reduce_stage_def Let_def)
  from g obtain ga where ga: "op_from_callable env (GatherStage ga) True = Inr gprocess" "ga_barrier_inputs ga = targets" "ga_ir ga = ir"
    "ga_n_left ga = (if builder \<noteq> ''join_plan'' then None else if fst rt = ''position'' then Some 1 else Some (int (length (ss_tasks (map_stages ! 0)))))"
    by (rule that) simp_all
  from route_of_parts [OF r] ms k show ?thesis
    by (intro that [where gather = "v2_stages plan ! length map_stages" and g = ga, OF _ _ _ _ _ _ _ tl]) (simp_all add: p ga nth_append o_def)
qed

text \<open>Stages that read nothing, a stage that reads them all, then at most one stage that reads that one.\<close>

lemma inputs_earlier:
  assumes "\<And>i. i < length ms \<Longrightarrow> ss_inputs (ms ! i) = []" "ss_inputs gather = map int [0..<length ms]"
    and "tail_stages = [] \<or> (\<exists>s. tail_stages = [s] \<and> ss_inputs s = [int (length ms)])"
    and "i < length (ms @ gather # tail_stages)" "j \<in> set (ss_inputs ((ms @ gather # tail_stages) ! i))"
  shows "0 \<le> j \<and> j < int i"
proof -
  consider "i < length ms" | "i = length ms" | s where "i = Suc (length ms)" "tail_stages = [s]" "ss_inputs s = [int (length ms)]"
    using assms(3,4) by fastforce
  then show ?thesis
    by cases (use assms(1,2,5) in \<open>auto simp: nth_append\<close>)
qed

text \<open>
  C39. A built plan is connected. Each stage reads earlier stages only; the stages before the gather read none,
  are numbered task by task and route to exactly as many destinations as the gather has tasks; the gather
  reads all of them, gives what stage \<open>i\<close> wrote to the barrier input that stage \<open>i\<close> evaluated, and for a keyed
  join splits its inputs after the blocks of the left side; a fold adds one stage, of one task, that reads
  the gather.
\<close>
theorem built_plan_connected:
  assumes "build en env builder sv ir trio factory is_partial backend_id steps on_compiled fin = Inr plan"
  shows "let stages = v2_stages plan in
    (\<forall>i < length stages. \<forall>j \<in> set (ss_inputs (stages ! i)). 0 \<le> j \<and> j < int i) \<and>
    (\<exists>k g parts rt. length stages = k + (if trio = None then 1 else 2) \<and> ss_inputs (stages ! k) = map int [0..<k] \<and>
       map task_key (ss_tasks (stages ! k)) = map int [0..<nat parts] \<and> op_from_callable env (GatherStage g) True = Inr (ss_process (stages ! k)) \<and>
       length (ga_barrier_inputs g) = k \<and> snd (snd rt) = parts \<and>
       (\<forall>i < k. ss_inputs (stages ! i) = [] \<and> map task_key (ss_tasks (stages ! i)) = map int [0..<length (ss_tasks (stages ! i))] \<and>
          (\<exists>m. op_from_callable env (MapWriteStage m) True = Inr (ss_process (stages ! i)) \<and>
             mw_target m = ga_barrier_inputs g ! i \<and> mw_route m = rt \<and> mw_ir m = ga_ir g)) \<and>
       (0 < k \<longrightarrow> ga_n_left g = (if builder \<noteq> ''join_plan'' then None else if fst rt = ''position'' then Some 1 else Some (int (length (ss_tasks (stages ! 0)))))) \<and>
       (trio \<noteq> None \<longrightarrow> ss_kind (last stages) = ''reduce'' \<and> ss_inputs (last stages) = [int k] \<and> length (ss_tasks (last stages)) = 1))"
proof -
  from build_shape [OF assms] obtain ms gather tl g rt where p: "v2_stages plan = ms @ gather # tl"
    and m: "\<forall>i < length ms. ss_inputs (ms ! i) = [] \<and> map task_key (ss_tasks (ms ! i)) = map int [0..<length (ss_tasks (ms ! i))] \<and>
       (\<exists>m. op_from_callable env (MapWriteStage m) True = Inr (ss_process (ms ! i)) \<and> mw_target m = ga_barrier_inputs g ! i \<and> mw_route m = rt \<and> mw_ir m = ga_ir g)"
    and g: "ss_inputs gather = map int [0..<length ms]" "map task_key (ss_tasks gather) = map int [0..<nat (snd (snd rt))]"
      "op_from_callable env (GatherStage g) True = Inr (ss_process gather)" "length (ga_barrier_inputs g) = length ms"
      "ga_n_left g = (if builder \<noteq> ''join_plan'' then None else if fst rt = ''position'' then Some 1 else Some (int (length (ss_tasks (ms ! 0)))))"
    and t: "if trio = None then tl = []
      else \<exists>s. tl = [s] \<and> ss_kind s = ''reduce'' \<and> ss_inputs s = [int (length ms)] \<and> length (ss_tasks s) = 1" .
  have "tl = [] \<or> (\<exists>s. tl = [s] \<and> ss_inputs s = [int (length ms)])" using t by (auto split: if_splits)
  from inputs_earlier [OF _ g(1) this] m
  have "\<forall>i < length (v2_stages plan). \<forall>j \<in> set (ss_inputs (v2_stages plan ! i)). 0 \<le> j \<and> j < int i" unfolding p by blast
  moreover have "length (v2_stages plan) = length ms + (if trio = None then 1 else 2)"
    "trio \<noteq> None \<longrightarrow> ss_kind (last (v2_stages plan)) = ''reduce'' \<and> ss_inputs (last (v2_stages plan)) = [int (length ms)] \<and>
       length (ss_tasks (last (v2_stages plan))) = 1" using t by (auto simp: p split: if_splits)
  moreover have "v2_stages plan ! length ms = gather" "\<And>i. i < length ms \<Longrightarrow> v2_stages plan ! i = ms ! i" by (simp_all add: p nth_append)
  ultimately show ?thesis
    unfolding Let_def using g m by (intro conjI exI [of _ "length ms"] exI [of _ g] exI [of _ "snd (snd rt)"] exI [of _ rt]) simp_all
qed

text \<open>A table of one file, repartitioned by a field over two destinations and folded.\<close>

definition exchange_graph :: "ir_node list" where
  "exchange_graph = [\<lparr>nd_body = SourceNode ''x'', nd_inputs = []\<rparr>,
     \<lparr>nd_body = ExchangeNode [(''scheme'', JStr ''hash''), (''key'', JStr ''k''), (''parts'', JInt 2)], nd_inputs = [0]\<rparr>]"

definition exchange_reader :: "(int, unit, unit) reader" where
  "exchange_reader = \<lparr>rd_read = (\<lambda>_ _ _. act_return 1), rd_partitions = (\<lambda>n. Inr [mk_partition ''f'' ''t'' 0 3]),
     rd_steps = None, rd_columns = Inr None, rd_num_entries = (\<lambda>_. Inr 3), rd_length = (\<lambda>_. Inr 3)\<rparr>"

definition exchange_view :: "(string, int, unit, unit) session_view" where
  "exchange_view = \<lparr>sv_partitioned = [(0, exchange_reader)],
     sv_source_name = (\<lambda>_. ''x''), sv_read_columns = (\<lambda>_. Inr (Some [''k''])), sv_frames = [], sv_externals = [], sv_services = Inr []\<rparr>"

definition exchange_worker :: "(string, int) worker_env" where
  "exchange_worker = \<lparr>en_interpreter = sample_interpreter, en_callable = (\<lambda>_. True), en_make = Inr, en_resolved_from = (\<lambda>_. None),
     en_backend = (\<lambda>_. undefined), en_graph = (\<lambda>_. Inr (exchange_graph, [1])),
     en_external = (\<lambda>f ins. Inl (TypeError f)), en_reduce = (\<lambda>f vs. Inr (hd vs)), en_combine = (\<lambda>f a b. Inr b), en_empty = (\<lambda>f. Inr None),
     en_hooks = \<lparr>hk_bind = (\<lambda>_. None), hk_resolve = (\<lambda>_. None)\<rparr>,
     en_sight = \<lparr>is_typestr = (\<lambda>_. ''int''), is_raised_at = (\<lambda>_. None)\<rparr>,
     en_dumps = (\<lambda>_. Inr []), en_loads = (\<lambda>_. Inr None), en_dumps_blocks = (\<lambda>_. []), en_loads_blocks = (\<lambda>_. Inr [])\<rparr>"

definition stage_interpreter :: "'p interpreter" where
  "stage_interpreter = \<lparr>in_import = (\<lambda>_. Inl (ValueError [])), in_getattr = (\<lambda>_ _. Inl (ValueError [])), in_loads = (\<lambda>_. Inl (ValueError [])),
     in_dumps = (\<lambda>_. ''blob''), in_module = (\<lambda>_. None), in_qualname = (\<lambda>_. None)\<rparr>"

lemma exchange_cones:
  "ir_cone exchange_graph [Suc 0] {Suc 0} = Inr {Suc 0}" "ir_cone exchange_graph [0] {} = Inr {0}"
  by code_simp+

lemma exchange_nodes:
  "length exchange_graph = 2" "exchange_graph ! 0 = \<lparr>nd_body = SourceNode ''x'', nd_inputs = []\<rparr>"
  "exchange_graph ! Suc 0 = \<lparr>nd_body = ExchangeNode [(''scheme'', JStr ''hash''), (''key'', JStr ''k''), (''parts'', JInt 2)], nd_inputs = [0]\<rparr>"
  by (simp_all add: exchange_graph_def)

lemma exchange_sides: "barrier_sides ''shuffle_plan'' exchange_view exchange_graph [Suc 0] = Inr (Suc 0, [0], [(''x'', 0, exchange_reader)], {Suc 0})"
proof -
  have b: "List.filter (\<lambda>i. node_kind (nd_body (exchange_graph ! i)) = ''exchange'') [0..<length exchange_graph] = [Suc 0]"
    by (simp add: exchange_nodes(1) upt_rec exchange_nodes)
  have u: "unplannable (node_params (nd_body (exchange_graph ! Suc 0))) = None"
    by (simp add: unplannable_def exchange_nodes)
  have s: "side_of ''shuffle_plan'' ''exchange'' exchange_graph [''x'' \<mapsto> (0, exchange_reader)] 0 = Inr (''x'', 0, exchange_reader)"
    by (simp add: side_of_def exchange_cones exchange_nodes is_source_def)
  show ?thesis
    using u s unfolding barrier_sides_def Let_def by (simp add: b [unfolded exchange_nodes(1)] exchange_view_def exchange_cones exchange_nodes is_source_def)
qed

lemma exchange_partials: "refuse_chunk_partials exchange_graph [Suc 0] NoOutputs = Inr ()"
  by (simp add: refuse_chunk_partials_def exchange_graph_def)

lemma exchange_route: "route_of False exchange_graph (node_params (nd_body (exchange_graph ! Suc 0))) None b sides side_parts =
    Inr (2, (''hash'', ''k'', 2), dict_merge [(''scheme'', JStr ''hash''), (''key'', JStr ''k''), (''parts'', JInt 2)] [(''parts'', JInt 2), (''backend_id'', JStr b)])"
  by (simp add: route_of_def routing_def parts_of_def exchange_nodes)

lemma stage_packs: "op_from_callable stage_interpreter p True = Inr \<lparr>os_kind = ''opaque'', os_ref = [], os_blob_b64 = b64encode ''blob'', os_live = None\<rparr>"
  by (simp add: op_from_callable_def stage_interpreter_def Let_def)

theorem built_plan_connected_witness:
  "\<exists>plan. shuffle_plan exchange_worker stage_interpreter exchange_view ''ir'' (''sum'', ''add'', ''zero'') (ImportRef ''m:b'') (\<lambda>_. False) ''np/1'' None
      (\<lambda>_. Inr None) None = Inr plan \<and> length (v2_stages plan) = 3 \<and>
      (\<forall>i < 3. \<forall>j \<in> set (ss_inputs (v2_stages plan ! i)). 0 \<le> j \<and> j < int i) \<and> ss_inputs (last (v2_stages plan)) = [1]"
proof -
  have "\<exists>plan. build exchange_worker stage_interpreter ''shuffle_plan'' exchange_view ''ir'' (Some (''sum'', ''add'', ''zero'')) (ImportRef ''m:b'') (\<lambda>_. False) ''np/1'' None
      (\<lambda>_. Inr None) None = Inr plan \<and> length (v2_stages plan) = 3 \<and> ss_inputs (last (v2_stages plan)) = [1]"
    unfolding build_def
    by (simp add: exchange_worker_def exchange_sides exchange_partials exchange_route map_stage_def exchange_cones stage_packs reduce_stage_def Let_def)
       (simp add: exchange_reader_def exchange_view_def map_stage_def exchange_cones stage_packs)
  then obtain plan where p: "build exchange_worker stage_interpreter ''shuffle_plan'' exchange_view ''ir'' (Some (''sum'', ''add'', ''zero'')) (ImportRef ''m:b'') (\<lambda>_. False) ''np/1'' None
      (\<lambda>_. Inr None) None = Inr plan" "length (v2_stages plan) = 3" "ss_inputs (last (v2_stages plan)) = [1]" by blast
  from built_plan_connected [OF p(1)] p show ?thesis by (auto simp: shuffle_plan_def Let_def)
qed

end
