(* ===== verification/Joined_Run.thy ===== *)
theory Joined_Run
  imports Staged_Run Shuffle_Exchange Shuffle_Plan
begin

text \<open>
  A staged join from its plan to its value: \<open>SequentialRunner\<close> on the two map stages and the gather that
  \<open>join_plan\<close> builds (\<open>shuffle.py\<close>), with the numpy backend's evaluation of the barrier
  (\<open>numpy/__init__.py\<close>, \<open>eval_stage\<close>).
\<close>

section \<open>Evaluating the barrier\<close>

text \<open>\<open>_decode_on\<close>: the join fields are a list or a comma-joined string.\<close>

fun decode_on :: "json \<Rightarrow> string list result" where
  "decode_on (JStr s) = Inr (List.filter (\<lambda>f. f \<noteq> []) (str_split (CHR '','') s))"
| "decode_on (JArr xs) = Inr (map py_str xs)"
| "decode_on (JObj kvs) = Inr (map fst kvs)"
| "decode_on _ = Inl (TypeError ''object is not iterable'')"

definition join_fields :: "params \<Rightarrow> string list result" where
  "join_fields ps = (case map_of ps ''on'' of Some v \<Rightarrow> decode_on v | None \<Rightarrow> Inl (KeyError (py_repr ''on'')))"

definition join_how :: "params \<Rightarrow> string" where
  "join_how ps = (case map_of ps ''how'' of Some v \<Rightarrow> py_str v | None \<Rightarrow> ''inner'')"

text \<open>\<open>eval_stage\<close> on blocks; what the other operations do is numpy's.\<close>

definition eval_stage ::
  "('d, 'v) numpy \<Rightarrow> (string \<Rightarrow> string) \<Rightarrow> (string \<Rightarrow> ('d, 'v) block option list \<Rightarrow> params \<Rightarrow> ('d, 'v) block result) \<Rightarrow>
   string \<Rightarrow> ('d, 'v) block option list \<Rightarrow> params \<Rightarrow> ('d, 'v) block result" where
  "eval_stage np sha elementwise op ins ps =
     (let input = (\<lambda>i. result_bind (slot ins i) as_array)
      in if op = ''exchange'' then input 0
         else if op = ''pack_key'' then
           result_bind (input 0) (\<lambda>b. result_bind (join_fields ps) (\<lambda>on. pack_key np (RecordBlock b) on (truthy (map_of ps ''route''))))
         else if op = ''join'' then
           result_bind (input 0) (\<lambda>l. result_bind (input 1) (\<lambda>r. result_bind (join_fields ps) (\<lambda>on.
             join_blocks (numpy_ops np sha) l r on (join_how ps))))
         else elementwise op ins ps)"

lemma eval_join:
  "join_fields ps = Inr on \<Longrightarrow> eval_stage np sha elementwise ''join'' [Some l, Some r] ps = join_blocks (numpy_ops np sha) l r on (join_how ps)"
  by (simp add: eval_stage_def slot_def as_array_def)

text \<open>A graph whose only output is the join, given both sides: the evaluation is the join.\<close>

lemma barrier_value:
  assumes "ordered nodes" "j < length nodes" "nodes ! j = \<lparr>nd_body = JoinNode ps, nd_inputs = [a, b]\<rparr>"
    and "ab_eval (ev_backend ev) ''join'' [Some x, Some y] ps = Inr v" "a \<noteq> b"
  shows "evaluate_ir ev nodes [j] None (Some [(a, x), (b, y)]) = Inr [Some v]"
proof -
  let ?known = "the_known (Some [(a, x), (b, y)])"
  have ab: "a < j" "b < j" using assms(1-3) by (force simp: ordered_def)+
  then have k: "?known a = Some x" "?known b = Some y" "?known j = None" using assms(5) by auto
  have vj: "node_value ev nodes ?known j = Inr (Some v)"
    unfolding node_value_step [OF assms(1,2), of ?known, OF k(3)]
    using k assms(3,4) by (simp add: node_value_known plain_node_def evaluate_node_def dispatch_def)
  have cone: "n \<in> {j, a, b}" if "in_cone nodes (dom ?known) (set [j]) n" for n
    using that
  proof induction
    case (step n i)
    then have "n = j" using k(1,2) by auto
    with step assms(3) show ?case by simp
  qed simp
  have "\<exists>w. node_value ev nodes ?known n = Inr w" if "n \<in> {j, a, b}" for n
    using that vj node_value_known [of ?known a] node_value_known [of ?known b] k(1,2) by blast
  then have ok: "\<exists>w. node_value ev nodes ?known n = Inr w" if "needed nodes [j] None (Some [(a, x), (b, y)]) n" for n
    using that cone [of n] unfolding needed_def the_outputs_simps by blast
  have "\<forall>n \<in> set (the_outputs [j] None). n < length nodes" using assms(2) by simp
  from evaluate_ir_cases [OF assms(1) this, of ev "Some [(a, x), (b, y)]"] vj ok show ?thesis
    by (cases "evaluate_ir ev nodes [j] None (Some [(a, x), (b, y)])") (fastforce simp: first_failure_def)+
qed

section \<open>The stages of a join\<close>

text \<open>A map task evaluates to \<open>v\<close>, whatever files its worker has open.\<close>

definition map_evaluates ::
  "('f, 'v) worker_env \<Rightarrow> ('f, 'v, unit, 'h resources) map_write \<Rightarrow> 'v worker_backend \<Rightarrow> task \<Rightarrow> 'v \<Rightarrow> bool" where
  "map_evaluates en m backend t v \<longleftrightarrow>
     (\<forall>r. \<exists>c r'. rd_read (mw_reader m) (task_partition t) (mw_columns m) () r = (Inr c, r') \<and>
        map_value en m backend (task_partition t) c = Inr (Some v))"

lemma map_write_payload:
  assumes "resolve_backend en (mw_backend m) = Inr backend" "map_evaluates en m backend t v"
  shows "fst (map_write_call en m t () r) = result_bind (route_blocks backend (mw_route m) (task_key t) v) (write_blocks en backend)"
proof -
  from assms(2) obtain c r' where "rd_read (mw_reader m) (task_partition t) (mw_columns m) () r = (Inr c, r')"
      "map_value en m backend (task_partition t) c = Inr (Some v)" unfolding map_evaluates_def by blast
  with assms(1) show ?thesis by (simp add: map_write_call_def act_eval map_payload_def as_array_def)
qed

lemma traverse_pairs: "list_all2 (\<lambda>x y. f x = g y) xs ys \<Longrightarrow> traverse f xs = traverse g ys"
  by (induction rule: list_all2_induct) simp_all

lemma stage_payloads:
  assumes "resolve_backend en (mw_backend m) = Inr backend" "list_all2 (map_evaluates en m backend) ts vs"
    and "map task_key ts = map int [0..<length ts]"
  shows "traverse (\<lambda>t. fst (map_write_call en m t () r)) ts = side_payloads en backend (mw_route m) vs"
proof -
  have k: "task_key (ts ! i) = int i" if "i < length ts" for i
    using arg_cong [OF assms(3), of "\<lambda>ks. ks ! i"] that by simp
  have "list_all2 (\<lambda>t iv. fst (map_write_call en m t () r) =
      (case iv of (i, v) \<Rightarrow> result_bind (route_blocks backend (mw_route m) i v) (write_blocks en backend))) ts (py_enumerate vs)"
    using assms(2) map_write_payload [OF assms(1)] k
    by (auto simp: list_all2_conv_all_nth py_enumerate_def)
  then show ?thesis unfolding side_payloads_def by (rule traverse_pairs)
qed

text \<open>\<open>pickle\<close> gives back a value it wrote.\<close>

definition pickles_values :: "('f, 'v) worker_env \<Rightarrow> bool" where
  "pickles_values en \<longleftrightarrow> (\<forall>v. \<exists>s. en_dumps en v = Inr s \<and> en_loads en s = Inr v)"

text \<open>The worker of a staged run, in this process.\<close>

definition stage_runtime ::
  "('f, 'v) worker_env \<Rightarrow> ('f, 'v, unit, 'h resources) stage_process interpreter \<Rightarrow>
   (('f, 'v, unit, 'h resources) stage_process, 'v option) hooks \<Rightarrow>
   (('f, 'v, unit, 'h resources) stage_process \<Rightarrow> 'v option run_value \<Rightarrow> 'v option run_value result) \<Rightarrow>
   (('f, 'v, unit, 'h resources) stage_process, 'h, 'v option) staged_runtime" where
  "stage_runtime en env hk fin = \<lparr>sx_env = env, sx_process = (\<lambda>f t xs. run_stage_task en f t xs ()),
     sx_hooks = hk, sx_unpickle = en_loads en, sx_finalize = fin\<rparr>"

text \<open>
  The stages \<open>join_plan\<close> builds for a join of two sides by the hash of the field \<open>k\<close>: two map stages and a
  gather that reads both, one task per destination.
\<close>

definition join_stages ::
  "('f, 'v, unit, 'h resources) stage_process interpreter \<Rightarrow> ('f, 'v, unit, 'h resources) stage_process stage_spec list \<Rightarrow>
   ('f, 'v, unit, 'h resources) map_write \<Rightarrow> ('f, 'v, unit, 'h resources) map_write \<Rightarrow> 'f gather \<Rightarrow> string \<Rightarrow> int \<Rightarrow> task list \<Rightarrow> task list \<Rightarrow> bool" where
  "join_stages env ss ml mr ga k parts lts rts \<longleftrightarrow>
     (\<exists>l r g. ss = [l, r, g] \<and> ss_inputs l = [] \<and> ss_inputs r = [] \<and> ss_inputs g = [0, 1] \<and>
        op_resolve env (ss_process l) = Inr (MapWriteStage ml) \<and> op_resolve env (ss_process r) = Inr (MapWriteStage mr) \<and>
        op_resolve env (ss_process g) = Inr (GatherStage ga) \<and>
        mw_route ml = (''hash'', k, parts) \<and> mw_route mr = (''hash'', k, parts) \<and>
        ss_tasks l = lts \<and> ss_tasks r = rts \<and> map task_key lts = map int [0..<length lts] \<and> map task_key rts = map int [0..<length rts] \<and>
        map task_key (ss_tasks g) = map int [0..<nat parts] \<and> ss_kind g \<noteq> ''reduce'' \<and>
        ga_n_left ga = Some (int (length lts)) \<and> ga_reduce ga = None)"

lemma stage_runtime_sel [simp]:
  "sx_env (stage_runtime en env hk fin) = env" "sx_process (stage_runtime en env hk fin) f t xs = run_stage_task en f t xs ()"
  "sx_unpickle (stage_runtime en env hk fin) = en_loads en"
  by (simp_all add: stage_runtime_def)

lemma gather_join_value:
  assumes "en_graph en (ga_ir ga) = Inr (nodes, [j])" "ordered nodes" "j < length nodes" "nodes ! j = \<lparr>nd_body = JoinNode ps, nd_inputs = [a, b]\<rparr>"
    and "ab_eval (wb_arrays backend) ''join'' [Some x, Some y] ps = Inr v" "a \<noteq> b" "ga_reduce ga = None" "wb_adopt backend = None"
  shows "gather_value en ga backend d [(a, x), (b, y)] = Inr (Some v)"
  unfolding gather_value_def assms(1) result_bind_simps prod.case
  by (subst barrier_value [OF assms(2-4)]) (use assms(5-8) in \<open>simp_all add: adopted_def\<close>)

lemma gather_outputs:
  assumes "map task_key ts = map int [0..<length js]" "pickles_values en" "resolve_backend en (ga_backend ga) = Inr backend"
    and "\<And>d. d < length js \<Longrightarrow> \<exists>x y. result_bind (dest_blocks en backend (int d) ps)
        (\<lambda>bs. gathered backend (ga_barrier_inputs ga) (gather_sides (ga_n_left ga) bs)) = Inr [(a, x), (b, y)] \<and>
      gather_value en ga backend (int d) [(a, x), (b, y)] = Inr (Some (js ! d))"
  shows "\<exists>out. traverse (\<lambda>t. gather_call en ga t ps) ts = Inr out \<and> traverse (en_loads en) out = Inr (map Some js)"
proof -
  have len: "length ts = length js" using arg_cong [OF assms(1), of length] by simp
  have "\<exists>s. gather_call en ga (ts ! d) ps = Inr s \<and> en_loads en s = Inr (Some (js ! d))" if d: "d < length js" for d
  proof -
    have "task_key (ts ! d) = int d" using arg_cong [OF assms(1), of "\<lambda>ks. ks ! d"] d len by simp
    moreover obtain s where "en_dumps en (Some (js ! d)) = Inr s" "en_loads en s = Inr (Some (js ! d))"
      using assms(2) by (auto simp: pickles_values_def)
    moreover note assms(4) [OF d]
    ultimately show ?thesis by (auto simp: gather_call_def assms(3) result_bind_Inr_iff)
  qed
  then have "\<forall>d. \<exists>s. d < length js \<longrightarrow> gather_call en ga (ts ! d) ps = Inr s \<and> en_loads en s = Inr (Some (js ! d))" by blast
  from choice [OF this] obtain S where S: "\<And>d. d < length js \<Longrightarrow> gather_call en ga (ts ! d) ps = Inr (S d) \<and> en_loads en (S d) = Inr (Some (js ! d))" by blast
  show ?thesis
    by (rule exI [of _ "map S [0..<length js]"]) (simp add: traverse_Inr_iff list_all2_conv_all_nth len S)
qed

text \<open>What the gather of a keyed join puts out, from what the map tasks of the two sides sent.\<close>

lemma joined_gather:
  assumes "numpy_documented np" "wb_blocks backend = numpy_ops np sha" "ab_eval (wb_arrays backend) = eval_stage np sha elementwise"
    and "wb_adopt backend = None" "pickles_blocks en" "pickles_values en" "resolve_backend en (ga_backend ga) = Inr backend"
    and "ls \<noteq> []" "rs \<noteq> []"
    and "\<forall>v \<in> set ls. wf_block v \<and> bk_dtype v = lt \<and> np_keyed v on" "\<forall>v \<in> set rs. wf_block v \<and> bk_dtype v = rt \<and> np_keyed v on"
    and "en_graph en (ga_ir ga) = Inr (nodes, [j])" "ordered nodes" "j < length nodes" "nodes ! j = \<lparr>nd_body = JoinNode ps, nd_inputs = [a, b]\<rparr>"
    and "ga_barrier_inputs ga = [a, b]" "a \<noteq> b" "join_fields ps = Inr on" "join_how ps \<noteq> ''positional''"
    and "np_joinable lt rt on" "k \<in> set on" "0 < parts" "ga_n_left ga = Some (int (length ls))" "ga_reduce ga = None"
    and "map task_key ts = map int [0..<nat parts]"
  obtains L R J js lp rp out where "bo_concat (numpy_ops np sha) ls = Inr L" "bo_concat (numpy_ops np sha) rs = Inr R"
    "join_blocks (numpy_ops np sha) L R on (join_how ps) = Inr J" "mset (concat (map np_rows js)) = mset (np_rows J)"
    "side_payloads en backend (''hash'', k, parts) ls = Inr lp" "side_payloads en backend (''hash'', k, parts) rs = Inr rp"
    "traverse (\<lambda>t. gather_call en ga t (lp @ rp)) ts = Inr out" "traverse (en_loads en) out = Inr (map Some js)"
proof -
  have l: "\<forall>v \<in> set ls. np_good np lt v \<and> np_keyed v [k] \<and> np_keyed v on" and r: "\<forall>v \<in> set rs. np_good np rt v \<and> np_keyed v [k] \<and> np_keyed v on"
    using assms(1,10,11,21) by (auto simp: np_good_def np_keyed_def)
  from np.staged_join [OF assms(2,5,8,9) l r assms(20,19,21,22,17)] obtain lp rp L R J js where
    j: "side_payloads en backend (''hash'', k, parts) ls = Inr lp" "side_payloads en backend (''hash'', k, parts) rs = Inr rp"
      "bo_concat (numpy_ops np sha) ls = Inr L" "bo_concat (numpy_ops np sha) rs = Inr R" "join_blocks (numpy_ops np sha) L R on (join_how ps) = Inr J"
      "length js = nat parts" "mset (concat (map np_rows js)) = mset (np_rows J)"
    and d: "\<forall>d < nat parts. \<exists>x y. result_bind (dest_blocks en backend (int d) (lp @ rp))
         (\<lambda>bs. gathered backend [a, b] (gather_sides (Some (int (length ls))) bs)) = Inr [(a, x), (b, y)] \<and>
       join_blocks (numpy_ops np sha) x y on (join_how ps) = Inr (js ! d)" by blast
  have "\<exists>x y. result_bind (dest_blocks en backend (int d) (lp @ rp))
        (\<lambda>bs. gathered backend (ga_barrier_inputs ga) (gather_sides (ga_n_left ga) bs)) = Inr [(a, x), (b, y)] \<and>
      gather_value en ga backend (int d) [(a, x), (b, y)] = Inr (Some (js ! d))" if "d < length js" for d
  proof -
    from d that j(6) obtain x y where xy: "result_bind (dest_blocks en backend (int d) (lp @ rp))
         (\<lambda>bs. gathered backend [a, b] (gather_sides (Some (int (length ls))) bs)) = Inr [(a, x), (b, y)]"
       "join_blocks (numpy_ops np sha) x y on (join_how ps) = Inr (js ! d)" by auto
    have "ab_eval (wb_arrays backend) ''join'' [Some x, Some y] ps = Inr (js ! d)"
      unfolding assms(3) eval_join [OF assms(18)] by (rule xy(2))
    from gather_join_value [OF assms(12-15) this assms(17,24,4)] xy(1) show ?thesis
      unfolding assms(16,23) by blast
  qed
  from gather_outputs [OF _ assms(6,7) this, of ts] assms(25) j(6) obtain out where
    "traverse (\<lambda>t. gather_call en ga t (lp @ rp)) ts = Inr out" "traverse (en_loads en) out = Inr (map Some js)" by auto
  with j show ?thesis by (intro that)
qed

text \<open>
  C4. A join planned, run and read back. \<open>SequentialRunner\<close> on the stages that \<open>join_plan\<close> builds for a keyed
  join returns one value per destination, the values hold together exactly the rows of the join of the two
  sides taken whole, and the counts are those of the map tasks and of the destinations: whatever the hash
  function, the number of destinations and the way the rows are spread over the map tasks.
\<close>
theorem joined_run_is_the_join:
  assumes "numpy_documented np" "wb_blocks backend = numpy_ops np sha" "ab_eval (wb_arrays backend) = eval_stage np sha elementwise"
    and "wb_adopt backend = None" "pickles_blocks en" "pickles_values en"
    and "join_stages env (v2_stages plan) ml mr ga k parts lts rts" "v2_services plan = []" "v2_finalize plan = None"
    and "resolve_backend en (mw_backend ml) = Inr backend" "resolve_backend en (mw_backend mr) = Inr backend" "resolve_backend en (ga_backend ga) = Inr backend"
    and "list_all2 (map_evaluates en ml backend) lts ls" "list_all2 (map_evaluates en mr backend) rts rs" "ls \<noteq> []" "rs \<noteq> []"
    and "\<forall>v \<in> set ls. wf_block v \<and> bk_dtype v = lt \<and> np_keyed v on" "\<forall>v \<in> set rs. wf_block v \<and> bk_dtype v = rt \<and> np_keyed v on"
    and "en_graph en (ga_ir ga) = Inr (nodes, [j])" "ordered nodes" "j < length nodes" "nodes ! j = \<lparr>nd_body = JoinNode ps, nd_inputs = [a, b]\<rparr>"
    and "ga_barrier_inputs ga = [a, b]" "a \<noteq> b" "join_fields ps = Inr on" "join_how ps \<noteq> ''positional''"
    and "np_joinable lt rt on" "k \<in> set on" "0 < parts"
  shows "\<exists>L R J js w'. bo_concat (numpy_ops np sha) ls = Inr L \<and> bo_concat (numpy_ops np sha) rs = Inr R \<and>
    join_blocks (numpy_ops np sha) L R on (join_how ps) = Inr J \<and> mset (concat (map np_rows js)) = mset (np_rows J) \<and>
    run_staged (stage_runtime en env hk fin) plan 0 None None w =
      Some (Inr (staged_result (Some (Many (map Some js))) (int (length lts + length rts), parts) None), w')"
proof -
  from assms(7) obtain l r g where st: "v2_stages plan = [l, r, g]" "ss_inputs l = []" "ss_inputs r = []" "ss_inputs g = [0, 1]"
      "op_resolve env (ss_process l) = Inr (MapWriteStage ml)" "op_resolve env (ss_process r) = Inr (MapWriteStage mr)"
      "op_resolve env (ss_process g) = Inr (GatherStage ga)"
    and rte: "mw_route ml = (''hash'', k, parts)" "mw_route mr = (''hash'', k, parts)" "ss_tasks l = lts" "ss_tasks r = rts"
      "map task_key lts = map int [0..<length lts]" "map task_key rts = map int [0..<length rts]"
      "map task_key (ss_tasks g) = map int [0..<nat parts]" "ss_kind g \<noteq> ''reduce''" "ga_n_left ga = Some (int (length lts))" "ga_reduce ga = None"
    by (auto simp: join_stages_def)
  let ?rt = "stage_runtime en env hk fin"
  define G where "G = (\<lambda>f t xs. fst (sx_process ?rt f t xs (new_resources 128)))"
  have ev: "\<forall>t \<in> set lts. \<exists>v. map_evaluates en ml backend t v" "\<forall>t \<in> set rts. \<exists>v. map_evaluates en mr backend t v"
    using assms(13,14) by (fastforce simp: list_all2_conv_all_nth in_set_conv_nth)+
  have "computes ?rt (v2_stages plan) G"
    unfolding computes_def G_def st(1) using ev map_write_payload [OF assms(10)] map_write_payload [OF assms(11)] st(5-7) rte(3,4)
    by (auto simp: act_eval)
  note run = staged_run_spec [OF this assms(8), of None w]
  have "ga_n_left ga = Some (int (length ls))" using assms(13) rte(9) by (simp add: list_all2_lengthD)
  from joined_gather [OF assms(1-6,12,15-29) this rte(10,7)] obtain L R J js lp rp out where
    j: "bo_concat (numpy_ops np sha) ls = Inr L" "bo_concat (numpy_ops np sha) rs = Inr R" "join_blocks (numpy_ops np sha) L R on (join_how ps) = Inr J"
      "mset (concat (map np_rows js)) = mset (np_rows J)"
    and p: "side_payloads en backend (''hash'', k, parts) ls = Inr lp" "side_payloads en backend (''hash'', k, parts) rs = Inr rp"
    and out: "traverse (\<lambda>t. gather_call en ga t (lp @ rp)) (ss_tasks g) = Inr out" "traverse (en_loads en) out = Inr (map Some js)" by blast
  have "traverse (\<lambda>t. G (MapWriteStage ml) t []) lts = Inr lp" "traverse (\<lambda>t. G (MapWriteStage mr) t []) rts = Inr rp"
    using stage_payloads [OF assms(10,13) rte(5)] stage_payloads [OF assms(11,14) rte(6)] p rte(1,2) by (simp_all add: G_def)
  moreover have "traverse (\<lambda>t. G (GatherStage ga) t (lp @ rp)) (ss_tasks g) = Inr out"
    using out(1) by (simp add: G_def act_eval)
  ultimately have "staged_from env G (v2_stages plan) [] = Inr [lp, rp, out]"
    using st rte(3,4) by (simp add: py_index_def)
  moreover have "last_value ?rt plan [lp, rp, out] = Inr (Many (map Some js))"
    using out(2) st(1) rte(8) by (simp add: last_value_def v2_value_def)
  moreover have "length (ss_tasks g) = nat parts" using arg_cong [OF rte(7), of length] by simp
  then have "ran_counts (v2_stages plan) = (int (length lts + length rts), parts)"
    using assms(29) st(1-4) rte(3,4) by (simp add: ran_counts_def)
  ultimately obtain w' where "run_staged ?rt plan 0 None None w =
      Some (Inr (staged_result (Some (Many (map Some js))) (int (length lts + length rts), parts) None), w')"
    using run assms(9) by (auto simp: Let_def finalize_staged_def)
  with j show ?thesis by blast
qed

text \<open>A worker whose pickle of a block is JSON, and the join of the two sample blocks over two destinations.\<close>

definition block_doc :: "(unit, int) block \<Rightarrow> json" where
  "block_doc b = JArr [JArr (map (\<lambda>(n, _). JStr n) (bk_dtype b)),
     JArr (map (\<lambda>row. JArr (map (\<lambda>(v, m). JArr [JInt v, JBool m]) row)) (bk_rows b)), JBool (bk_masked b)]"

definition doc_block :: "json \<Rightarrow> (unit, int) block" where
  "doc_block d =
     \<lparr>bk_dtype = map (\<lambda>n. (json_text n, ())) (json_items (json_items d ! 0)),
      bk_rows = map (\<lambda>row. map (\<lambda>c. (the (json_cell (json_items c ! 0)), json_items c ! 1 = JBool True)) (json_items row)) (json_items (json_items d ! 1)),
      bk_masked = (json_items d ! 2 = JBool True)\<rparr>"

definition value_dumps :: "(unit, int) block option \<Rightarrow> string result" where
  "value_dumps v = Inr (dumps (JArr (case v of None \<Rightarrow> [] | Some b \<Rightarrow> [block_doc b])))"

definition value_loads :: "string \<Rightarrow> (unit, int) block option result" where
  "value_loads s = (case loads s of
       Some doc \<Rightarrow> Inr (case json_items doc of [] \<Rightarrow> None | d # _ \<Rightarrow> Some (doc_block d))
     | None \<Rightarrow> Inl (ValueError []))"

lemma doc_block_doc: "doc_block (block_doc b) = b"
proof -
  have "map (\<lambda>n. (json_text n, ())) (map (\<lambda>(n, _). JStr n) dt) = dt" for dt :: "(string \<times> unit) list"
    by (induction dt) (auto split: prod.splits)
  moreover have "map (\<lambda>c. (the (json_cell (json_items c ! 0)), json_items c ! 1 = JBool True)) (map (\<lambda>(v, m). JArr [JInt v, JBool m]) row) = row"
    for row :: "int cell list" by (induction row) (auto split: prod.splits)
  ultimately show ?thesis by (cases b) (simp add: doc_block_def block_doc_def o_def)
qed

lemma block_doc_flat: "wf_json (block_doc b) \<and> sort_json (block_doc b) = block_doc b"
proof -
  let ?ok = "\<lambda>x. wf_json x \<and> sort_json x = x"
  have names: "?ok (JArr (map (\<lambda>(n, _). JStr n) (bk_dtype b)))" by (rule flat_array) auto
  have cell: "?ok (JArr [JInt v, JBool m])" for v m by (rule flat_array) auto
  have row: "?ok (JArr (map (\<lambda>(v, m). JArr [JInt v, JBool m]) row))" for row :: "int cell list"
    by (rule flat_array) (use cell in auto)
  have "?ok (JArr (map (\<lambda>row. JArr (map (\<lambda>(v, m). JArr [JInt v, JBool m]) row)) (bk_rows b)))"
    by (rule flat_array) (use row in \<open>auto simp del: wf_json.simps(2) sort_json.simps\<close>)
  with names show ?thesis unfolding block_doc_def by (intro flat_array) auto
qed

lemma value_loads_dumps: "\<exists>s. value_dumps v = Inr s \<and> value_loads s = Inr v"
proof -
  have "loads (dumps (JArr (case v of None \<Rightarrow> [] | Some b \<Rightarrow> [block_doc b]))) = Some (JArr (case v of None \<Rightarrow> [] | Some b \<Rightarrow> [block_doc b]))"
    by (rule array_round_trip) (use block_doc_flat in \<open>auto split: option.splits\<close>)
  then show ?thesis by (cases v) (simp_all add: value_dumps_def value_loads_def doc_block_doc)
qed

definition join_graph :: "ir_node list" where
  "join_graph = [\<lparr>nd_body = SourceNode ''x'', nd_inputs = []\<rparr>, \<lparr>nd_body = SourceNode ''y'', nd_inputs = []\<rparr>,
     \<lparr>nd_body = JoinNode [(''on'', JStr joinkey), (''how'', JStr ''outer'')], nd_inputs = [0, 1]\<rparr>]"

definition join_backend :: "(unit, int) block worker_backend" where
  "join_backend = sample_backend\<lparr>wb_arrays := (wb_arrays sample_backend)\<lparr>ab_eval :=
     eval_stage sample_numpy (\<lambda>s. s) (\<lambda>op _ _. Inl (TypeError op))\<rparr>\<rparr>"

definition join_worker :: "(string, (unit, int) block) worker_env" where
  "join_worker = sample_worker\<lparr>en_graph := (\<lambda>_. Inr (join_graph, [2])), en_backend := (\<lambda>_. join_backend), en_dumps := value_dumps, en_loads := value_loads\<rparr>"

definition join_side :: "nat \<Rightarrow> string \<Rightarrow> (unit, int) block \<Rightarrow> (string, (unit, int) block, unit, unit resources) map_write" where
  "join_side target name b =
     \<lparr>mw_ir = ''ir'', mw_target = target, mw_source_name = name,
      mw_reader = \<lparr>rd_read = (\<lambda>_ _ _. act_return b), rd_partitions = (\<lambda>_. Inr []), rd_steps = None, rd_columns = Inr None,
        rd_num_entries = (\<lambda>_. Inr 3), rd_length = (\<lambda>_. Inr 3)\<rparr>,
      mw_columns = None, mw_backend = FactoryRef ''numpy'', mw_externals = [], mw_frames = [], mw_route = (''hash'', joinkey, 2), mw_labels = None\<rparr>"

definition join_gather :: "string gather" where
  "join_gather = sample_gather\<lparr>ga_barrier_inputs := [0, 1]\<rparr>"

definition join_task :: "int \<Rightarrow> task" where
  "join_task k = \<lparr>task_key = k, task_partition = mk_partition ''f'' ''t'' 0 3\<rparr>"

definition join_stage :: "string \<Rightarrow> int list \<Rightarrow> (string, (unit, int) block, unit, unit resources) stage_process \<Rightarrow> task list \<Rightarrow>
    (string, (unit, int) block, unit, unit resources) stage_process stage_spec" where
  "join_stage kind inputs p ts = \<lparr>ss_kind = kind, ss_inputs = inputs,
     ss_process = \<lparr>os_kind = ''opaque'', os_ref = [], os_blob_b64 = [], os_live = Some p\<rparr>, ss_routing = [], ss_tasks = ts\<rparr>"

definition small_join :: "(string, (unit, int) block, unit, unit resources) stage_process durable_plan_v2" where
  "small_join = \<lparr>v2_ir = ''ir'', v2_stages =
      [join_stage ''map_write'' [] (MapWriteStage (join_side 0 ''x'' left_block)) [join_task 0],
       join_stage ''map_write'' [] (MapWriteStage (join_side 1 ''y'' right_block)) [join_task 0],
       join_stage ''gather_join'' [0, 1] (GatherStage join_gather) [join_task 0, join_task 1]],
     v2_format_version = format_version_v2, v2_services = [], v2_finalize = None\<rparr>"

lemma ordered_join_graph: "ordered join_graph"
  by (auto simp: ordered_def join_graph_def less_Suc_eq nth_Cons')

lemma join_side_evaluates:
  assumes "target < 2" "nd_body (join_graph ! target) = SourceNode name"
  shows "map_evaluates join_worker (join_side target name b) join_backend t b"
proof -
  have i: "nd_inputs (join_graph ! target) = []" using assms(1) by (auto simp: join_graph_def less_2_cases_iff)
  have l: "target < length join_graph" using assms(1) by (simp add: join_graph_def)
  have "node_value ev join_graph Map.empty target = Inr (Some b)" if "ev_sources ev = [name \<mapsto> Inr b]" for ev
    unfolding node_value_step [OF ordered_join_graph l, of Map.empty, OF refl]
    using assms(2) that by (simp add: i plain_node_def evaluate_node_def)
  then have "evaluate_ir ev join_graph [2] (Some [target]) None = Inr [Some b]" if "ev_sources ev = [name \<mapsto> Inr b]" for ev
    using that evaluate_outputs [OF ordered_join_graph, of "[target]" ev "[2]" None "[Some b]"] l by simp
  then show ?thesis
    by (simp add: map_evaluates_def join_side_def act_eval map_value_def join_worker_def)
qed

theorem joined_run_is_the_join_witness:
  "\<exists>js. map_option fst (run_staged (stage_runtime join_worker stage_interpreter \<lparr>hk_bind = \<lambda>_. None, hk_resolve = \<lambda>_. None\<rparr> (\<lambda>_. Inr))
        small_join 0 (None :: unit monitor option) None \<lparr>w_monitor = (), w_resources = new_resources 8\<rparr>) =
      Some (Inr (staged_result (Some (Many (map Some js))) (2, 2) None)) \<and>
    mset (concat (map np_rows js)) = {#[Some 2, Some 20, Some 200], [Some 2, Some 21, Some 200], [Some 1, Some 10, None], [Some 3, None, Some 300]#}"
proof -
  let ?ps = "[(''on'', JStr joinkey), (''how'', JStr ''outer'')]"
  have b: "wb_blocks join_backend = numpy_ops sample_numpy (\<lambda>s. s)" "wb_adopt join_backend = None"
    "ab_eval (wb_arrays join_backend) = eval_stage sample_numpy (\<lambda>s. s) (\<lambda>op _ _. Inl (TypeError op))"
    by (simp_all add: join_backend_def sample_backend_def)
  have e: "pickles_blocks join_worker" "pickles_values join_worker" "en_graph join_worker (ga_ir join_gather) = Inr (join_graph, [2])"
    "resolve_backend join_worker (mw_backend (join_side 0 ''x'' left_block)) = Inr join_backend"
    "resolve_backend join_worker (mw_backend (join_side 1 ''y'' right_block)) = Inr join_backend"
    "resolve_backend join_worker (ga_backend join_gather) = Inr join_backend"
    using value_loads_dumps
    by (simp_all add: join_worker_def pickles_blocks_def pickles_values_def sample_worker_def sample_loads_dumps resolve_backend_def join_side_def
        join_gather_def sample_gather_def)
  have st: "join_stages stage_interpreter (v2_stages small_join) (join_side 0 ''x'' left_block) (join_side 1 ''y'' right_block) join_gather
      joinkey 2 [join_task 0] [join_task 0]"
    by (simp add: join_stages_def small_join_def join_stage_def op_resolve_def join_side_def join_task_def join_gather_def sample_gather_def upt_rec)
  have pl: "v2_services small_join = []" "v2_finalize small_join = None" by (simp_all add: small_join_def)
  have ev: "list_all2 (map_evaluates join_worker (join_side 0 ''x'' left_block) join_backend) [join_task 0] [left_block]"
    "list_all2 (map_evaluates join_worker (join_side 1 ''y'' right_block) join_backend) [join_task 0] [right_block]"
    using join_side_evaluates [of 0 "''x''"] join_side_evaluates [of 1 "''y''"] by (simp_all add: join_graph_def)
  have bl: "\<forall>v \<in> set [left_block]. wf_block v \<and> bk_dtype v = bk_dtype left_block \<and> np_keyed v [joinkey]"
    "\<forall>v \<in> set [right_block]. wf_block v \<and> bk_dtype v = bk_dtype right_block \<and> np_keyed v [joinkey]"
    using sample_blocks by simp_all
  have f: "decode_on (JStr joinkey) = Inr [joinkey]" by (simp add: joinkey_def)
  have gr: "2 < length join_graph" "join_graph ! 2 = \<lparr>nd_body = JoinNode ?ps, nd_inputs = [0, 1]\<rparr>" "ga_barrier_inputs join_gather = [0, 1]"
    "(0 :: nat) \<noteq> 1" "join_fields ?ps = Inr [joinkey]" "join_how ?ps = ''outer''" "joinkey \<in> set [joinkey]" "(0 :: int) < 2"
    using f by (simp_all add: join_graph_def join_gather_def join_fields_def join_how_def)
  have np: "join_how ?ps \<noteq> ''positional''" using gr(6) by simp
  have c: "bo_concat (numpy_ops sample_numpy (\<lambda>s. s)) [left_block] = Inr left_block"
    "bo_concat (numpy_ops sample_numpy (\<lambda>s. s)) [right_block] = Inr right_block" by code_simp+
  have j: "map_sum (\<lambda>_. ()) np_rows (join_blocks (numpy_ops sample_numpy (\<lambda>s. s)) left_block right_block [joinkey] ''outer'') =
      Inr [[Some 2, Some 20, Some 200], [Some 2, Some 21, Some 200], [Some 1, Some 10, None], [Some 3, None, Some 300]]" by code_simp
  from joined_run_is_the_join [OF sample_documented b(1,3,2) e(1,2) st pl e(4-6) ev _ _ bl e(3) ordered_join_graph gr(1-5) np sample_blocks(5) gr(7,8)]
    c j gr(6) show ?thesis by fastforce
qed

end
