(* ===== verification/Aggregate.thy ===== *)
theory Aggregate
  imports Shuffle_Stages Runner
begin

text \<open>
  Partition-wise aggregation (\<open>aggregate.py\<close>): how the chunk values of a whole-dataset reduction fold into
  its value over the dataset, how a source's files are cut into tasks, the refusal of parts two tasks would
  both write, the process of one task, and the plan that several plans are collated into.

  A value of an aggregation is a \<open>'v\<close>; \<open>None\<close> is a chunk with nothing to reduce. What Python's operators do
  with two values is a record of operations.
\<close>

section \<open>Folds\<close>

record 'v scalar_ops =
  sc_add :: "'v \<Rightarrow> 'v \<Rightarrow> 'v"
  sc_or :: "'v \<Rightarrow> 'v \<Rightarrow> 'v"
  sc_and :: "'v \<Rightarrow> 'v \<Rightarrow> 'v"
  sc_less :: "'v \<Rightarrow> 'v \<Rightarrow> bool"
  sc_eq :: "'v \<Rightarrow> 'v \<Rightarrow> bool"
  sc_zero :: 'v
  sc_false :: 'v
  sc_true :: 'v

text \<open>A value that is not equal to itself (a NaN) wins.\<close>

definition py_max :: "'v scalar_ops \<Rightarrow> 'v \<Rightarrow> 'v \<Rightarrow> 'v" where
  "py_max sc a b = (if \<not> sc_eq sc b b \<or> sc_less sc a b then b else a)"

definition py_min :: "'v scalar_ops \<Rightarrow> 'v \<Rightarrow> 'v \<Rightarrow> 'v" where
  "py_min sc a b = (if \<not> sc_eq sc b b \<or> sc_less sc b a then b else a)"

record 'v fold_rule =
  fr_combine :: "'v \<Rightarrow> 'v \<Rightarrow> 'v"
  fr_empty :: "'v option"

definition fold_values :: "'v fold_rule \<Rightarrow> 'v option \<Rightarrow> 'v option \<Rightarrow> 'v option" where
  "fold_values f a b =
     (case a of None \<Rightarrow> b
      | Some x \<Rightarrow> (case b of None \<Rightarrow> a | Some y \<Rightarrow> Some (fr_combine f x y)))"

definition known_folds :: "'v scalar_ops \<Rightarrow> (string \<times> 'v fold_rule) list" where
  "known_folds sc =
     [(''sum'', \<lparr>fr_combine = sc_add sc, fr_empty = Some (sc_zero sc)\<rparr>),
      (''count'', \<lparr>fr_combine = sc_add sc, fr_empty = Some (sc_zero sc)\<rparr>),
      (''count_nonzero'', \<lparr>fr_combine = sc_add sc, fr_empty = Some (sc_zero sc)\<rparr>),
      (''any'', \<lparr>fr_combine = sc_or sc, fr_empty = Some (sc_false sc)\<rparr>),
      (''all'', \<lparr>fr_combine = sc_and sc, fr_empty = Some (sc_true sc)\<rparr>),
      (''max'', \<lparr>fr_combine = py_max sc, fr_empty = None\<rparr>),
      (''min'', \<lparr>fr_combine = py_min sc, fr_empty = None\<rparr>)]"

definition not_foldable :: "(string \<times> string) list" where
  "not_foldable =
     [(''mean'', ''a mean of chunk means is not the dataset's mean''),
      (''var'', ''a variance of chunk variances is not the dataset's variance''),
      (''std'', ''a std of chunk stds is not the dataset's std'')]"

text \<open>The part of an operation's name after its last dot.\<close>

definition last_part :: "string \<Rightarrow> string" where
  "last_part s = rev (takeWhile (\<lambda>c. c \<noteq> CHR ''.'') (rev s))"

definition fold_of :: "'v scalar_ops \<Rightarrow> node_body \<Rightarrow> 'v fold_rule result" where
  "fold_of sc body =
     (case body of
        ReductionNode op params \<Rightarrow>
          (let name = last_part op
           in case map_of not_foldable name of
                Some why \<Rightarrow> Inl (TypeError (''is '' @ op @ '': '' @ why))
              | None \<Rightarrow>
                  (case map_of (known_folds sc) name of
                     None \<Rightarrow> Inl (TypeError (''is '' @ op @ '', which has no known combine''))
                   | Some rule \<Rightarrow>
                       if (map_of params ''axis'' \<noteq> None \<and> map_of params ''axis'' \<noteq> Some (JStr ''none'')) \<or> truthy (map_of params ''keepdims'')
                       then Inl (TypeError (''is '' @ op @ '' with axis= or keepdims=, not one value for the dataset''))
                       else Inr (if truthy (map_of params ''mask_identity'') then rule\<lparr>fr_empty := None\<rparr> else rule)))
      | OpNode _ _ \<Rightarrow> Inl (TypeError ''is per-event, not a reduction'')
      | _ \<Rightarrow> Inl (TypeError (''is '' @ node_kind body @ '', not a reduction'')))"

text \<open>The default reduction of a plan: one fold an output, read at its slot.\<close>

record 'v folded =
  fd_slots :: "int list"
  fd_folds :: "'v fold_rule list"

definition folded_reduce :: "'v folded \<Rightarrow> 'v option list \<Rightarrow> 'v option list result" where
  "folded_reduce fd values = traverse (py_index values) (fd_slots fd)"

definition folded_combine :: "'v folded \<Rightarrow> 'v option list \<Rightarrow> 'v option list \<Rightarrow> 'v option list result" where
  "folded_combine fd a b =
     (if length (fd_folds fd) = length a \<and> length a = length b
      then Inr (map (\<lambda>(f, x, y). fold_values f x y) (zip (fd_folds fd) (zip a b)))
      else Inl (ValueError ''zip() arguments have different lengths''))"

definition folded_empty :: "'v folded \<Rightarrow> 'v option list" where
  "folded_empty fd = map fr_empty (fd_folds fd)"

definition folded_finalize :: "('v option run_value \<Rightarrow> 'v option run_value result) option \<Rightarrow> 'v option list \<Rightarrow> 'v option run_value result" where
  "folded_finalize next value =
     (let out = (case value of [v] \<Rightarrow> One v | _ \<Rightarrow> Many value)
      in case next of None \<Rightarrow> Inr out | Some f \<Rightarrow> f out)"

definition folded_of :: "'v scalar_ops \<Rightarrow> (node_body \<times> int) list \<Rightarrow> 'v folded result" where
  "folded_of sc outputs =
     result_bind (traverse (\<lambda>(i, body, _).
         case fold_of sc body of
           Inl (TypeError err) \<Rightarrow> Inl (TypeError (''aggregate_plan: output '' @ dec i @ '' '' @ err @ ''; pass reduce=, combine=, empty=''))
         | r \<Rightarrow> r) (py_enumerate outputs)) (\<lambda>rules.
       Inr \<lparr>fd_slots = map snd outputs, fd_folds = rules\<rparr>)"

section \<open>Tasks of a number of entries\<close>

definition ranges_of :: "int \<Rightarrow> int \<Rightarrow> int \<Rightarrow> (int \<times> int) list" where
  "ranges_of n start stop =
     map (\<lambda>i. (start + int i * n, min (start + int i * n + n) stop)) [0..<nat ((max stop (start + 1) - start + n - 1) div n)]"

definition event_partitions :: "string \<Rightarrow> partition list \<Rightarrow> (partition \<Rightarrow> int result) option \<Rightarrow> int \<Rightarrow> partition list result" where
  "event_partitions source_type files counter events_per_task =
     (if events_per_task < 1 then Inl (ValueError (''events_per_task must be >= 1, got '' @ dec events_per_task))
      else result_bind (traverse (\<lambda>file.
          result_bind (if blind_step file = None then Inr file
              else case counter of
                None \<Rightarrow> Inl (TypeError (source_type @ '' cannot count its entries, so events_per_task= '' @
                  ''cannot chunk it; pass steps_per_file= instead''))
              | Some c \<Rightarrow> result_bind (c file) (resolve file)) (\<lambda>file.
            Inr (map (\<lambda>(a, b). mk_partition (uri file) (tree file) a b) (ranges_of events_per_task (entry_start file) (entry_stop file))))) files)
        (\<lambda>parts. Inr (concat parts)))"

section \<open>Shared parts\<close>

text \<open>\<open>posixpath.normpath\<close>: empty and \<open>.\<close> components go, \<open>..\<close> takes one with it where it can.\<close>

fun norm_components :: "bool \<Rightarrow> string list \<Rightarrow> string list \<Rightarrow> string list" where
  "norm_components rooted [] acc = rev acc"
| "norm_components rooted (c # cs) acc =
     (if c = [] \<or> c = ''.'' then norm_components rooted cs acc
      else if c \<noteq> ''..'' \<or> (\<not> rooted \<and> acc = []) \<or> (acc \<noteq> [] \<and> hd acc = ''..'') then norm_components rooted cs (c # acc)
      else norm_components rooted cs (tl acc))"

definition normpath :: "string \<Rightarrow> string" where
  "normpath path =
     (let slashes = (if starts_with ''//'' path \<and> \<not> starts_with ''///'' path then ''//'' else if starts_with ''/'' path then ''/'' else []);
          body = slashes @ str_join ''/'' (norm_components (slashes \<noteq> []) (str_split (CHR ''/'') path) [])
      in if body = [] then ''.'' else body)"

definition shared_part :: "string \<Rightarrow> exn" where
  "shared_part path = ValueError (''two writes of this plan write the same part '' @ py_repr path @ '': `name` must tell '' @
     ''every partition apart (a blind partition's entry range is 0-0 until it is read), and plans collated together need distinct parts'')"

fun add_parts :: "string set \<Rightarrow> string list \<Rightarrow> string set result" where
  "add_parts seen [] = Inr seen"
| "add_parts seen (p # ps) =
     (let path = normpath p in if path \<in> seen then Inl (shared_part path) else add_parts (insert path seen) ps)"

fun refuse_shared_parts :: "string set \<Rightarrow> (unit \<Rightarrow> string list result) list \<Rightarrow> unit result" where
  "refuse_shared_parts seen [] = Inr ()"
| "refuse_shared_parts seen (parts # runs) =
     result_bind (parts ()) (\<lambda>ps. result_bind (add_parts seen ps) (\<lambda>seen'. refuse_shared_parts seen' runs))"

section \<open>One task\<close>

text \<open>
  A part a task writes: its destination, its name for a partition, the slot of its value and its metadata,
  an entry of which is a text or the slot of a value. Writing a part is an action on the files.
\<close>

record ('f, 'v, 'w) shipped_write =
  wr_write :: "'v option \<Rightarrow> string \<Rightarrow> (string \<times> string) list option \<Rightarrow> (unit, 'w) action"
  wr_prepare :: "string \<Rightarrow> (unit, 'w) action"
  wr_destination :: string
  wr_name :: "partition \<Rightarrow> string result"
  wr_slot :: int
  wr_metadata :: "(string \<times> (int + string)) list option"

text \<open>A capture root, opened as a checkpoint store: putting a blob, recording it, and the bytes kept of a chunk and of a result.\<close>

record ('v, 'w) capture =
  cp_put :: "string \<Rightarrow> (string, 'w) action"
  cp_done :: "string \<Rightarrow> string \<Rightarrow> string \<Rightarrow> string \<Rightarrow> (unit, 'w) action"
  cp_chunk :: "'v \<Rightarrow> string result"
  cp_result :: "'v option \<Rightarrow> string result"

record ('f, 'v, 'r, 'w) partition_reduce =
  pr_ir :: string
  pr_source_name :: string
  pr_backend :: "'f backend_ref"
  pr_reader :: "('v, 'r, 'w) reader"
  pr_columns :: "string list option"
  pr_externals :: "(string \<times> 'f) list"
  pr_reduce :: 'f
  pr_labels :: "(node_key \<times> string list \<times> source_frame) list option"
  pr_frames :: "(node_key \<times> source_frame) list"
  pr_writes :: "('f, 'v, 'w) shipped_write list"
  pr_n_values :: "int option"
  pr_opt_level :: int
  pr_capture :: "('v, 'w) capture option"

definition task_label_of :: "('f, 'v, 'r, 'w) partition_reduce \<Rightarrow> partition \<Rightarrow> 'v \<Rightarrow> string result" where
  "task_label_of pr p chunk = read_label (rd_num_entries (pr_reader pr)) (\<lambda>_. rd_length (pr_reader pr) chunk) p"

definition reduce_evaluate :: "('f, 'v) worker_env \<Rightarrow> ('f, 'v, 'r, 'w) partition_reduce \<Rightarrow> 'v worker_backend \<Rightarrow> 'v \<Rightarrow> partition \<Rightarrow> 'v option list result" where
  "reduce_evaluate en pr backend chunk p =
     result_bind (en_graph en (pr_ir pr)) (\<lambda>(nodes, marked).
       evaluate_ir
         \<lparr>ev_backend = wb_arrays backend, ev_sources = [pr_source_name pr \<mapsto> Inr chunk],
          ev_externals = Some (external_table en (pr_externals pr)),
          ev_on_failure = attribute_failures (en_sight en) (pr_frames pr) (task_label_of pr p chunk)
            (case pr_labels pr of None \<Rightarrow> [] | Some ls \<Rightarrow> ls) (pr_opt_level pr),
          ev_chunked = True\<rparr>
         nodes marked None None)"

definition part_paths :: "('f, 'v, 'r, 'w) partition_reduce \<Rightarrow> partition \<Rightarrow> string list result" where
  "part_paths pr p = traverse (\<lambda>wr. result_bind (wr_name wr p) (\<lambda>n. Inr (join_part (wr_destination wr) n))) (pr_writes pr)"

text \<open>\<open>values[: n]\<close> and then the paths; \<open>show\<close> is \<open>str\<close> of a value.\<close>

fun write_parts :: "('v option \<Rightarrow> string) \<Rightarrow> 'v option list \<Rightarrow> (('f, 'v, 'w) shipped_write \<times> string) list \<Rightarrow> (unit, 'w) action" where
  "write_parts text_of values [] = act_return ()"
| "write_parts text_of values ((wr, path) # rest) =
     act_then (wr_prepare wr path)
       (act_bind (act_lift (case wr_metadata wr of None \<Rightarrow> Inr None
            | Some kv \<Rightarrow> result_bind (traverse (\<lambda>(k, v). case v of
                  Inr s \<Rightarrow> Inr (k, s)
                | Inl place \<Rightarrow> result_bind (py_index values place) (\<lambda>x. Inr (k, text_of x))) kv) (\<lambda>m. Inr (Some (dict_merge [] m)))))
         (\<lambda>meta. act_bind (act_lift (py_index values (wr_slot wr))) (\<lambda>value.
            act_then (wr_write wr value path meta) (write_parts text_of values rest))))"

definition write_values :: "('v option \<Rightarrow> string) \<Rightarrow> (string \<Rightarrow> 'v option) \<Rightarrow> ('f, 'v, 'r, 'w) partition_reduce \<Rightarrow> 'v option list \<Rightarrow> partition \<Rightarrow> ('v option list, 'w) action" where
  "write_values text_of as_value pr values p =
     act_bind (act_lift (part_paths pr p)) (\<lambda>paths.
     act_then (write_parts text_of values (zip (pr_writes pr) paths))
       (act_return ((case pr_n_values pr of None \<Rightarrow> values | Some n \<Rightarrow> fst (slice_at n values)) @ map as_value paths)))"

definition capture_id :: "(string \<Rightarrow> string) \<Rightarrow> ('f, 'v, 'r, 'w) partition_reduce \<Rightarrow> partition \<Rightarrow> string" where
  "capture_id sha pr p = sha256_hex sha [''graphed-replay-capture-v1'', pr_ir pr, partition_bytes p]"

text \<open>\<open>str(partition)\<close>: the record as the dataclass prints it.\<close>

definition partition_str :: "partition \<Rightarrow> string" where
  "partition_str p = ''Partition(uri='' @ py_repr (uri p) @ '', tree='' @ py_repr (tree p) @ '', entry_start='' @ dec (entry_start p) @
     '', entry_stop='' @ dec (entry_stop p) @ '', blind_step='' @ opt_dec (blind_step p) @ '', blind_n_steps='' @ opt_dec (blind_n_steps p) @
     '', blind_limit='' @ opt_dec (blind_limit p) @ '')''"

text \<open>A captured task keeps its input before it evaluates, so a failing task's input survives it; it never writes.\<close>

definition captured ::
  "(string \<Rightarrow> string) \<Rightarrow> ('f, 'v) worker_env \<Rightarrow> ('f, 'v, 'r, 'w) partition_reduce \<Rightarrow> ('v, 'w) capture \<Rightarrow> 'v worker_backend \<Rightarrow> 'v \<Rightarrow> partition \<Rightarrow> ('v option, 'w) action" where
  "captured sha en pr cp backend chunk p =
     act_bind (act_lift (cp_chunk cp chunk)) (\<lambda>bytes.
     act_bind (cp_put cp bytes) (\<lambda>blob.
     act_then (cp_done cp (capture_id sha pr p @ '':input'') (partition_str p) blob ''replay-input'')
       (act_bind (act_lift (resolve_backend en (pr_backend pr))) (\<lambda>again.
        act_bind (act_lift (reduce_evaluate en pr again chunk p)) (\<lambda>values.
        act_bind (act_lift (result_bind (en_reduce en (pr_reduce pr) values) (adopted backend))) (\<lambda>result.
        act_bind (act_lift (cp_result cp result)) (\<lambda>bytes.
        act_bind (cp_put cp bytes) (\<lambda>blob.
        act_then (cp_done cp (capture_id sha pr p @ '':output'') (partition_str p) blob ''replay-output'') (act_return result)))))))))"

text \<open>The body of the task, inside \<open>keeping_warnings\<close>: the chunk it read, for the label, and its result.\<close>

definition reduce_body ::
  "(string \<Rightarrow> string) \<Rightarrow> ('f, 'v) worker_env \<Rightarrow> ('v option \<Rightarrow> string) \<Rightarrow> (string \<Rightarrow> 'v option) \<Rightarrow> ('f, 'v, 'r, 'w) partition_reduce \<Rightarrow> partition \<Rightarrow> 'r \<Rightarrow> ('v \<times> 'v option, 'w) action" where
  "reduce_body sha en text_of as_value pr p res =
     act_bind (rd_read (pr_reader pr) p (pr_columns pr) res) (\<lambda>chunk.
     act_bind (act_lift (resolve_backend en (pr_backend pr))) (\<lambda>backend.
     act_bind (case pr_capture pr of
         Some cp \<Rightarrow> captured sha en pr cp backend chunk p
       | None \<Rightarrow>
           act_bind (act_lift (reduce_evaluate en pr backend chunk p)) (\<lambda>values.
           act_bind (if pr_writes pr = [] then act_return values else write_values text_of as_value pr values p) (\<lambda>values.
             act_lift (result_bind (en_reduce en (pr_reduce pr) values) (adopted backend))))) (\<lambda>result.
       act_return (chunk, result))))"

text \<open>The task itself: the worker's world holds the state of its warnings.\<close>

definition partition_reduce_call ::
  "(string \<Rightarrow> string) \<Rightarrow> ('f, 'v) worker_env \<Rightarrow> warning_classes \<Rightarrow> ('v option \<Rightarrow> string) \<Rightarrow> (string \<Rightarrow> 'v option) \<Rightarrow> ('f, 'v, 'r, warning_state) partition_reduce \<Rightarrow> partition \<Rightarrow> 'r \<Rightarrow>
   warning_state \<Rightarrow> ((exn \<times> string list) + 'v option carrier) \<times> warning_state" where
  "partition_reduce_call sha en classes text_of as_value pr p res w =
     (case keeping_warnings (reduce_body sha en text_of as_value pr p res) w of
        (Inl failure, w') \<Rightarrow> (Inl failure, w')
      | (Inr ((chunk, result), caught), w') \<Rightarrow>
          ((case carrying classes result caught (\<lambda>_. task_label_of pr p chunk) of Inl e \<Rightarrow> Inl (e, []) | Inr c \<Rightarrow> Inr c), w'))"

definition partition_reduce_bind :: "('f, 'v) worker_env \<Rightarrow> ('f, 'v, 'r, 'w) partition_reduce \<Rightarrow> (string \<rightharpoonup> string) \<Rightarrow> ('f, 'v, 'r, 'w) partition_reduce result" where
  "partition_reduce_bind en pr endpoints =
     result_bind (bind_part (en_hooks en) endpoints (pr_reduce pr)) (\<lambda>red.
     result_bind (bind_externals (en_hooks en) (pr_externals pr) endpoints) (\<lambda>exts.
       Inr (pr\<lparr>pr_externals := exts, pr_reduce := red\<rparr>)))"

definition partition_reduce_resolve :: "('f, 'v) worker_env \<Rightarrow> ('f, 'v, 'r, 'w) partition_reduce \<Rightarrow> 'v option \<Rightarrow> 'v option result" where
  "partition_reduce_resolve en pr value = (case hk_resolve (en_hooks en) (pr_reduce pr) of Some r \<Rightarrow> r value | None \<Rightarrow> Inr value)"

section \<open>Collated plans\<close>

text \<open>
  A plan to collate: its tasks are fixed, or it runs in stages. It is collated before a runner makes it go
  on past failed chunks, so its process and its combine are the user's, over partials that may carry
  warnings.
\<close>

datatype ('v, 'h) sub_plan = TaskPlan "('v carrier, 'h) plan" "service_spec list" | StagedPlan "service_spec list"

fun sub_services :: "('v, 'h) sub_plan \<Rightarrow> service_spec list" where
  "sub_services (TaskPlan _ ss) = ss"
| "sub_services (StagedPlan ss) = ss"

fun user_run :: "('r, 'h) process \<Rightarrow> partition \<Rightarrow> ('r, 'h resources) action" where
  "user_run (UserProcess f _) p = f p"
| "user_run (SkipProcess _ _ _) p = act_raise (TypeError ''a skipping process'')"

fun plain_combine :: "'v carrier combiner \<Rightarrow> 'v \<Rightarrow> 'v \<Rightarrow> 'v result" where
  "plain_combine (UserCombine f) u v = result_bind (f (Plain u) (Plain v)) (\<lambda>c. Inr (fst (split_carrier c)))"
| "plain_combine (SkipCombine _ _) u v = Inl (TypeError ''combine got a partial of another kind'')"

type_synonym part_route = "((string \<times> string) \<times> string) list"

definition collated_call ::
  "(string \<times> ('v carrier, 'h) process) list \<Rightarrow> part_route \<Rightarrow> partition \<Rightarrow> ((string \<times> 'v) list carrier, 'h resources) action" where
  "collated_call processes route p =
     (case map_of route (uri p, tree p) of
        None \<Rightarrow> act_raise (KeyError (''('' @ py_repr (uri p) @ '', '' @ py_repr (tree p) @ '')''))
      | Some name \<Rightarrow>
          (case map_of processes name of
             None \<Rightarrow> act_raise (KeyError (py_repr name))
           | Some fn \<Rightarrow> act_bind (user_run fn p) (\<lambda>v. act_lift (on_value (\<lambda>value. Inr [(name, value)]) v))))"

text \<open>\<open>bind_services\<close> on each process, and \<open>resolve_services\<close> on each value a process takes.\<close>

definition collated_bind :: "(string \<times> ('v carrier, 'h) process) list \<Rightarrow> (string \<rightharpoonup> string) \<Rightarrow> (string \<times> ('v carrier, 'h) process) list result" where
  "collated_bind processes endpoints =
     traverse (\<lambda>(name, p). result_bind (if is_bindable p then bind_process p endpoints else Inr p) (\<lambda>p. Inr (name, p))) processes"

text \<open>The process itself can be bound; once bound, it is not bound again.\<close>

definition collated_process :: "(string \<times> ('v carrier, 'h) process) list \<Rightarrow> part_route \<Rightarrow> ((string \<times> 'v) list carrier, 'h) process" where
  "collated_process processes route =
     UserProcess (collated_call processes route) (Some (\<lambda>endpoints.
       result_bind (collated_bind processes endpoints) (\<lambda>bound. Inr (UserProcess (collated_call bound route) None))))"

definition collated_resolve :: "(string \<rightharpoonup> ('v \<Rightarrow> 'v result) option) \<Rightarrow> (string \<times> 'v) list \<Rightarrow> (string \<times> 'v) list result" where
  "collated_resolve resolvers value =
     traverse (\<lambda>(name, v). case resolvers name of
         Some (Some r) \<Rightarrow> result_bind (r v) (\<lambda>v. Inr (name, v)) | _ \<Rightarrow> Inr (name, v)) value"

definition collated_finalize :: "(string \<times> ('v \<Rightarrow> 'v result)) list \<Rightarrow> (string \<times> 'v) list \<Rightarrow> (string \<times> 'v) list result" where
  "collated_finalize finalizers value =
     traverse (\<lambda>(name, v). case map_of finalizers name of
         Some f \<Rightarrow> result_bind (f v) (\<lambda>v. Inr (name, v)) | None \<Rightarrow> Inr (name, v)) value"

definition collated_combine :: "(string \<times> ('v \<Rightarrow> 'v \<Rightarrow> 'v result)) list \<Rightarrow> (string \<times> 'v) list \<Rightarrow> (string \<times> 'v) list \<Rightarrow> (string \<times> 'v) list result" where
  "collated_combine combines a b =
     result_bind (traverse (\<lambda>(n, v). case map_of a n of
           None \<Rightarrow> Inr (n, v)
         | Some u \<Rightarrow> (case map_of combines n of
               None \<Rightarrow> Inl (KeyError (py_repr n))
             | Some f \<Rightarrow> result_bind (f u v) (\<lambda>w. Inr (n, w)))) b) (\<lambda>new.
       let merged = dict_merge a new
       in Inr (List.map_filter (\<lambda>(n, _). map_option (Pair n) (map_of merged n)) combines))"

text \<open>The services of all plans by name; one name may not be two services.\<close>

fun union_services :: "string \<Rightarrow> service_spec list \<Rightarrow> (string \<times> service_spec) list \<Rightarrow> (string \<times> service_spec) list result" where
  "union_services name [] d = Inr d"
| "union_services name (s # ss) d =
     (let d' = dict_setdefault (sv_name s) s d
      in if map_of d' (sv_name s) \<noteq> Some s
         then Inl (ValueError (''plan '' @ py_repr name @ '' declares service '' @ py_repr (sv_name s) @ '' unlike another plan does''))
         else union_services name ss d')"

fun all_services :: "(string \<times> ('v, 'h) sub_plan) list \<Rightarrow> (string \<times> service_spec) list \<Rightarrow> (string \<times> service_spec) list result" where
  "all_services [] d = Inr d"
| "all_services ((name, p) # ps) d = result_bind (union_services name (sub_services p) d) (all_services ps)"

fun route_tasks :: "string \<Rightarrow> task list \<Rightarrow> part_route \<Rightarrow> task list \<Rightarrow> (part_route \<times> task list) result" where
  "route_tasks name [] route tasks = Inr (route, tasks)"
| "route_tasks name (t # ts) route tasks =
     (let key = (uri (task_partition t), tree (task_partition t));
          route' = dict_setdefault key name route;
          owner = (case map_of route' key of Some o' \<Rightarrow> o' | None \<Rightarrow> name)
      in if owner \<noteq> name
         then Inl (ValueError (''('' @ py_repr (fst key) @ '', '' @ py_repr (snd key) @ '') appears in plans '' @ py_repr owner @ '' and '' @ py_repr name @
           ''; record both over one source so one read serves both graphs''))
         else route_tasks name ts route' (tasks @ [\<lparr>task_key = int (length tasks), task_partition = task_partition t\<rparr>]))"

fun route_plans ::
  "(string \<times> ('v, 'h) sub_plan) list \<Rightarrow> part_route \<Rightarrow> task list \<Rightarrow> (part_route \<times> task list \<times> (string \<times> ('v carrier, 'h) plan) list) result" where
  "route_plans [] route tasks = Inr (route, tasks, [])"
| "route_plans ((name, sub) # subs) route tasks =
     (case sub of
        StagedPlan _ \<Rightarrow> Inl (TypeError (''collate needs plans with fixed tasks; '' @ py_repr name @ '' runs in stages''))
      | TaskPlan p _ \<Rightarrow>
          if pl_next_tasks p \<noteq> None \<or> pl_stop p \<noteq> None
          then Inl (TypeError (''collate needs plans with fixed tasks; '' @ py_repr name @ '' is adaptive or stoppable''))
          else result_bind (route_tasks name (sort_key task_key (pl_tasks p)) route tasks) (\<lambda>(route', tasks').
            result_bind (route_plans subs route' tasks') (\<lambda>(r, ts, ps). Inr (r, ts, (name, p) # ps))))"

text \<open>The parts a task of the collated plan writes; \<open>written\<close> is the hook of a plan's process, where it has one.\<close>

definition collated_parts :: "(string \<Rightarrow> partition \<Rightarrow> string list result) \<Rightarrow> part_route \<Rightarrow> partition \<Rightarrow> string list result" where
  "collated_parts written route p =
     (case map_of route (uri p, tree p) of
        None \<Rightarrow> Inl (KeyError (''('' @ py_repr (uri p) @ '', '' @ py_repr (tree p) @ '')''))
      | Some name \<Rightarrow> written name p)"

definition collate ::
  "(string \<times> ('v, 'h) sub_plan) list \<Rightarrow> (string \<Rightarrow> partition \<Rightarrow> string list result) \<Rightarrow> (((string \<times> 'v) list carrier, 'h) plan \<times> service_spec list) result" where
  "collate subs written =
     (if subs = [] then Inl (ValueError ''collate needs at least one plan'')
      else result_bind (all_services subs []) (\<lambda>services.
           result_bind (route_plans subs [] []) (\<lambda>(route, tasks, fixed).
           result_bind (refuse_shared_parts {} (map (\<lambda>t _. collated_parts written route (task_partition t)) tasks)) (\<lambda>_.
             let finalizers = List.map_filter (\<lambda>(n, p). map_option (\<lambda>f. (n, \<lambda>v. result_bind (f (Plain v)) (\<lambda>c. Inr (fst (split_carrier c))))) (pl_finalize p)) fixed;
                 names = sort (map fst services)
             in Inr (\<lparr>pl_process = collated_process (map (\<lambda>(n, p). (n, pl_process p)) fixed) route,
                  pl_combine = UserCombine (warned_combine (collated_combine (map (\<lambda>(n, p). (n, plain_combine (pl_combine p))) fixed))),
                  pl_empty = Bare (Plain []), pl_tasks = tasks, pl_next_tasks = None, pl_stop = None,
                  pl_open_once = list_ex (\<lambda>(n, p). pl_open_once p) fixed, pl_services = names,
                  pl_finalize = Some (\<lambda>value. result_bind (collated_finalize finalizers (fst (split_carrier value))) (\<lambda>v. Inr (Plain v)))\<rparr>,
                List.map_filter (map_of services) names)))))"

section \<open>Reductions of rows\<close>

text \<open>
  What the array backends document of a whole-array reduction, without a fold: a sum of numbers, a count of rows,
  a count of the rows that hold (are not zero), whether some or all rows hold, and the greatest or least row,
  a row that is not equal to itself (a NaN) winning. No rows have no greatest row, and with a masked identity
  no sum, count or truth either.
\<close>

record 'v row_values =
  rv_number :: "'v \<Rightarrow> bool"
  rv_count :: "nat \<Rightarrow> 'v"
  rv_holds :: "'v \<Rightarrow> bool"

definition is_extreme :: "('v \<Rightarrow> 'v \<Rightarrow> bool) \<Rightarrow> 'v scalar_ops \<Rightarrow> 'v list \<Rightarrow> 'v option \<Rightarrow> bool" where
  "is_extreme beats sc rows v \<longleftrightarrow>
     (\<exists>m \<in> set rows. v = Some m \<and> (if list_all (\<lambda>x. sc_eq sc x x) rows then list_all (\<lambda>x. \<not> beats x m) rows else \<not> sc_eq sc m m))"

definition truth :: "'v scalar_ops \<Rightarrow> bool \<Rightarrow> 'v" where
  "truth sc b = (if b then sc_true sc else sc_false sc)"

fun reduces_rows :: "'v scalar_ops \<Rightarrow> 'v row_values \<Rightarrow> string \<Rightarrow> 'v list \<Rightarrow> 'v option \<Rightarrow> bool" where
  "reduces_rows sc rv name rows v \<longleftrightarrow>
     name = ''sum'' \<and> list_all (rv_number rv) rows \<and> v = Some (foldr (sc_add sc) rows (sc_zero sc)) \<or>
     name = ''count'' \<and> v = Some (rv_count rv (length rows)) \<or>
     name = ''count_nonzero'' \<and> v = Some (rv_count rv (length (List.filter (rv_holds rv) rows))) \<or>
     name = ''any'' \<and> v = Some (truth sc (list_ex (rv_holds rv) rows)) \<or>
     name = ''all'' \<and> v = Some (truth sc (list_all (rv_holds rv) rows)) \<or>
     name = ''max'' \<and> is_extreme (\<lambda>x m. sc_less sc m x) sc rows v \<or>
     name = ''min'' \<and> is_extreme (\<lambda>x m. sc_less sc x m) sc rows v"

fun reduces :: "'v scalar_ops \<Rightarrow> 'v row_values \<Rightarrow> node_body \<Rightarrow> 'v list \<Rightarrow> 'v option \<Rightarrow> bool" where
  "reduces sc rv (ReductionNode op params) rows v \<longleftrightarrow>
     (if rows = [] \<and> (truthy (map_of params ''mask_identity'') \<or> last_part op \<in> {''max'', ''min''}) then v = None
      else reduces_rows sc rv (last_part op) rows v)"
| "reduces sc rv body rows v \<longleftrightarrow> False"

text \<open>
  Python's operators, where they are exact: numbers (integers, say) add associatively from zero and are what counts are
  made of, \<open>|\<close> and \<open>&\<close> follow the truth tables of the two booleans, and \<open>less\<close> is a strict weak order that a
  NaN takes no part in.
\<close>

definition exact_scalars :: "'v scalar_ops \<Rightarrow> 'v row_values \<Rightarrow> bool" where
  "exact_scalars sc rv \<longleftrightarrow>
     rv_number rv (sc_zero sc) \<and> (\<forall>a b. rv_number rv a \<longrightarrow> rv_number rv b \<longrightarrow> rv_number rv (sc_add sc a b)) \<and>
     (\<forall>a. rv_number rv a \<longrightarrow> sc_add sc (sc_zero sc) a = a \<and> sc_add sc a (sc_zero sc) = a) \<and>
     (\<forall>a b c. rv_number rv a \<longrightarrow> rv_number rv b \<longrightarrow> rv_number rv c \<longrightarrow> sc_add sc (sc_add sc a b) c = sc_add sc a (sc_add sc b c)) \<and>
     rv_count rv 0 = sc_zero sc \<and> (\<forall>m n. sc_add sc (rv_count rv m) (rv_count rv n) = rv_count rv (m + n)) \<and>
     (\<forall>p q. sc_or sc (truth sc p) (truth sc q) = truth sc (p \<or> q) \<and> sc_and sc (truth sc p) (truth sc q) = truth sc (p \<and> q)) \<and>
     (\<forall>a b. sc_less sc a b \<longrightarrow> sc_eq sc a a \<and> sc_eq sc b b \<and> \<not> sc_less sc b a) \<and>
     (\<forall>a b c. sc_eq sc b b \<longrightarrow> sc_less sc a c \<longrightarrow> sc_less sc a b \<or> sc_less sc b c)"

lemma exact_scalarsD:
  assumes "exact_scalars sc rv"
  shows "rv_number rv (sc_zero sc)" "rv_number rv a \<Longrightarrow> rv_number rv b \<Longrightarrow> rv_number rv (sc_add sc a b)"
    "rv_number rv a \<Longrightarrow> sc_add sc (sc_zero sc) a = a" "rv_number rv a \<Longrightarrow> sc_add sc a (sc_zero sc) = a"
    "rv_number rv a \<Longrightarrow> rv_number rv b \<Longrightarrow> rv_number rv c \<Longrightarrow> sc_add sc (sc_add sc a b) c = sc_add sc a (sc_add sc b c)"
    "rv_count rv 0 = sc_zero sc" "sc_add sc (rv_count rv m) (rv_count rv n) = rv_count rv (m + n)"
    "sc_or sc (truth sc p) (truth sc q) = truth sc (p \<or> q)" "sc_and sc (truth sc p) (truth sc q) = truth sc (p \<and> q)"
    "sc_less sc a b \<Longrightarrow> sc_eq sc a a" "sc_less sc a b \<Longrightarrow> sc_eq sc b b" "sc_less sc a b \<Longrightarrow> \<not> sc_less sc b a"
    "sc_eq sc b b \<Longrightarrow> sc_less sc a c \<Longrightarrow> sc_less sc a b \<or> sc_less sc b c"
  using assms unfolding exact_scalars_def by blast+

section \<open>Folding chunk values\<close>

lemma sum_numbers: "exact_scalars sc rv \<Longrightarrow> list_all (rv_number rv) xs \<Longrightarrow> rv_number rv (foldr (sc_add sc) xs (sc_zero sc))"
  by (induction xs) (auto intro: exact_scalarsD(1,2))

lemma sum_append:
  assumes "exact_scalars sc rv" "list_all (rv_number rv) (xs @ ys)"
  shows "foldr (sc_add sc) (xs @ ys) (sc_zero sc) = sc_add sc (foldr (sc_add sc) xs (sc_zero sc)) (foldr (sc_add sc) ys (sc_zero sc))"
  using assms(2)
proof (induction xs)
  case Nil
  then show ?case using exact_scalarsD(3) [OF assms(1)] sum_numbers [OF assms(1), of ys] by simp
next
  case (Cons x xs)
  then have n: "rv_number rv x" "list_all (rv_number rv) xs" "list_all (rv_number rv) ys" by simp_all
  from Cons have "foldr (sc_add sc) (xs @ ys) (sc_zero sc) = sc_add sc (foldr (sc_add sc) xs (sc_zero sc)) (foldr (sc_add sc) ys (sc_zero sc))"
    by simp
  then show ?case
    using exact_scalarsD(5) [OF assms(1) n(1) sum_numbers [OF assms(1) n(2)] sum_numbers [OF assms(1) n(3)]] by simp
qed

lemma extreme_append:
  assumes less: "\<And>x y. beats x y \<Longrightarrow> sc_eq sc x x \<and> sc_eq sc y y \<and> \<not> beats y x"
    and weak: "\<And>x y z. sc_eq sc y y \<Longrightarrow> beats x z \<Longrightarrow> beats x y \<or> beats y z"
    and a: "is_extreme beats sc xs (Some a)" and b: "is_extreme beats sc ys (Some b)"
  shows "is_extreme beats sc (xs @ ys) (Some (if \<not> sc_eq sc b b \<or> beats b a then b else a))"
proof -
  let ?ok = "\<lambda>zs. \<forall>x \<in> set zs. sc_eq sc x x"
  from a b have a: "a \<in> set xs" "?ok xs \<Longrightarrow> \<forall>x \<in> set xs. \<not> beats x a" "\<not> ?ok xs \<Longrightarrow> \<not> sc_eq sc a a"
    and b: "b \<in> set ys" "?ok ys \<Longrightarrow> \<forall>x \<in> set ys. \<not> beats x b" "\<not> ?ok ys \<Longrightarrow> \<not> sc_eq sc b b"
    by (auto simp: is_extreme_def list_all_iff split: if_splits)
  have goal: "is_extreme beats sc (xs @ ys) (Some m)" if "m \<in> set xs \<union> set ys"
    "?ok xs \<Longrightarrow> ?ok ys \<Longrightarrow> \<forall>x \<in> set xs \<union> set ys. \<not> beats x m" "\<not> ?ok xs \<or> \<not> ?ok ys \<Longrightarrow> \<not> sc_eq sc m m" for m
    using that by (auto simp: is_extreme_def list_all_iff)
  show ?thesis
  proof (cases "?ok ys")
    case False
    with b(3) have "\<not> sc_eq sc b b" by blast
    with False b(1) show ?thesis by (intro goal) simp_all
  next
    case ys: True
    then have "sc_eq sc b b" using b(1) by blast
    show ?thesis
    proof (cases "?ok xs")
      case False
      with a(3) have "\<not> sc_eq sc a a" by blast
      then have "\<not> beats b a" using less by blast
      with False a(1) \<open>sc_eq sc b b\<close> \<open>\<not> sc_eq sc a a\<close> show ?thesis by (intro goal) simp_all
    next
      case True
      then have "sc_eq sc a a" using a(1) by blast
      show ?thesis
      proof (cases "beats b a")
        case True
        have "\<not> beats x b" if "x \<in> set xs" for x
          using weak [OF \<open>sc_eq sc a a\<close>, of x b] a(2) [OF \<open>?ok xs\<close>] less [OF True] that by blast
        with True b(1) b(2) [OF ys] ys \<open>?ok xs\<close> show ?thesis by (intro goal) auto
      next
        case False
        have "\<not> beats x a" if "x \<in> set ys" for x
          using weak [OF \<open>sc_eq sc b b\<close>, of x a] b(2) [OF ys] False that by blast
        with False a(1) a(2) [OF \<open>?ok xs\<close>] ys \<open>?ok xs\<close> \<open>sc_eq sc b b\<close> show ?thesis by (intro goal) auto
      qed
    qed
  qed
qed

lemma max_append:
  assumes "exact_scalars sc rv" "is_extreme (\<lambda>x m. sc_less sc m x) sc xs (Some a)" "is_extreme (\<lambda>x m. sc_less sc m x) sc ys (Some b)"
  shows "is_extreme (\<lambda>x m. sc_less sc m x) sc (xs @ ys) (Some (py_max sc a b))"
  unfolding py_max_def by (rule extreme_append [OF _ _ assms(2,3)]) (use exact_scalarsD(10-13) [OF assms(1)] in blast)+

lemma min_append:
  assumes "exact_scalars sc rv" "is_extreme (\<lambda>x m. sc_less sc x m) sc xs (Some a)" "is_extreme (\<lambda>x m. sc_less sc x m) sc ys (Some b)"
  shows "is_extreme (\<lambda>x m. sc_less sc x m) sc (xs @ ys) (Some (py_min sc a b))"
  unfolding py_min_def by (rule extreme_append [OF _ _ assms(2,3)]) (use exact_scalarsD(10-13) [OF assms(1)] in blast)+

lemma fold_ofE:
  assumes "fold_of sc body = Inr f"
  obtains op params rule where "body = ReductionNode op params" "map_of (known_folds sc) (last_part op) = Some rule"
    "fr_combine f = fr_combine rule" "fr_empty f = (if truthy (map_of params ''mask_identity'') then None else fr_empty rule)"
  using assms by (auto simp: fold_of_def Let_def split: node_body.splits option.splits if_splits)

text \<open>The value of two row lists together is the fold of their values, and the value of no rows is the fold's.\<close>

lemma reduces_rows_append:
  assumes "exact_scalars sc rv" "map_of (known_folds sc) name = Some f" "reduces_rows sc rv name xs (Some a)" "reduces_rows sc rv name ys (Some b)"
  shows "reduces_rows sc rv name (xs @ ys) (Some (fr_combine f a b))"
proof -
  from map_of_SomeD [OF assms(2)] consider
      "name = ''sum''" "fr_combine f = sc_add sc" | "name = ''count''" "fr_combine f = sc_add sc" | "name = ''count_nonzero''" "fr_combine f = sc_add sc"
    | "name = ''any''" "fr_combine f = sc_or sc" | "name = ''all''" "fr_combine f = sc_and sc"
    | "name = ''max''" "fr_combine f = py_max sc" | "name = ''min''" "fr_combine f = py_min sc"
    by (auto simp: known_folds_def)
  then show ?thesis
  proof cases
    case 1
    with assms(3,4) sum_append [OF assms(1), of xs ys] show ?thesis by (simp del: foldr_append)
  next
    case 6
    with assms(3,4) max_append [OF assms(1), of xs a ys b] show ?thesis by simp
  next
    case 7
    with assms(3,4) min_append [OF assms(1), of xs a ys b] show ?thesis by simp
  qed (use assms(3,4) exact_scalarsD(7-9) [OF assms(1)] in simp_all)
qed

lemma reduces_none: "reduces sc rv body rows None \<Longrightarrow> rows = []"
  by (cases body) (auto simp: is_extreme_def split: if_splits)

lemma reduces_append:
  assumes "exact_scalars sc rv" "fold_of sc body = Inr f" "reduces sc rv body xs u" "reduces sc rv body ys v"
  shows "reduces sc rv body (xs @ ys) (fold_values f u v)"
proof (cases u)
  case None
  with assms(3) have "xs = []" by (auto dest: reduces_none)
  with None assms(4) show ?thesis by (simp add: fold_values_def)
next
  case (Some a)
  show ?thesis
  proof (cases v)
    case None
    with assms(4) have "ys = []" by (auto dest: reduces_none)
    with None Some assms(3) show ?thesis by (simp add: fold_values_def)
  next
    case (Some b)
    from fold_ofE [OF assms(2)] obtain op params rule where body: "body = ReductionNode op params"
      and rule: "map_of (known_folds sc) (last_part op) = Some rule" "fr_combine f = fr_combine rule" .
    from assms(3,4) body \<open>u = Some a\<close> Some have r: "reduces_rows sc rv (last_part op) xs (Some a)" "reduces_rows sc rv (last_part op) ys (Some b)"
      and ne: "\<not> (xs @ ys = [] \<and> (truthy (map_of params ''mask_identity'') \<or> last_part op \<in> {''max'', ''min''}))"
      by (auto simp del: reduces_rows.simps split: if_splits)
    from reduces_rows_append [OF assms(1) rule(1) r] ne show ?thesis
      by (simp add: body \<open>u = Some a\<close> Some fold_values_def rule(2) del: reduces_rows.simps)
  qed
qed

lemma reduces_no_rows:
  assumes "exact_scalars sc rv" "fold_of sc body = Inr f"
  shows "reduces sc rv body [] (fr_empty f)"
proof -
  from fold_ofE [OF assms(2)] obtain op params rule where body: "body = ReductionNode op params"
    and rule: "map_of (known_folds sc) (last_part op) = Some rule"
      "fr_empty f = (if truthy (map_of params ''mask_identity'') then None else fr_empty rule)" .
  from map_of_SomeD [OF rule(1)] show ?thesis
    using exact_scalarsD(6) [OF assms(1)] by (auto simp: body rule(2) known_folds_def truth_def)
qed

lemma folded_of_rules:
  assumes "folded_of sc outputs = Inr fd"
  shows "fd_slots fd = map snd outputs" "length (fd_folds fd) = length outputs"
    "k < length outputs \<Longrightarrow> fold_of sc (fst (outputs ! k)) = Inr (fd_folds fd ! k)"
proof -
  from assms obtain rules where r: "traverse (\<lambda>(i, body, _). case fold_of sc body of
           Inl (TypeError err) \<Rightarrow> Inl (TypeError (''aggregate_plan: output '' @ dec i @ '' '' @ err @ ''; pass reduce=, combine=, empty=''))
         | r \<Rightarrow> r) (py_enumerate outputs) = Inr rules" and fd: "fd_folds fd = rules" "fd_slots fd = map snd outputs"
    by (auto simp: folded_of_def result_bind_Inr_iff)
  show "fd_slots fd = map snd outputs" by (rule fd)
  from traverse_length [OF r] show "length (fd_folds fd) = length outputs" by (simp add: fd)
  assume k: "k < length outputs"
  then have "py_enumerate outputs ! k = (int k, outputs ! k)" by (simp add: py_enumerate_def nth_enumerate_eq)
  with r k have "(case fold_of sc (fst (outputs ! k)) of
           Inl (TypeError err) \<Rightarrow> Inl (TypeError (''aggregate_plan: output '' @ dec (int k) @ '' '' @ err @ ''; pass reduce=, combine=, empty=''))
         | r \<Rightarrow> r) = Inr (rules ! k)"
    by (cases "outputs ! k") (auto simp: traverse_Inr_iff list_all2_conv_all_nth dest!: spec [of _ k])
  then show "fold_of sc (fst (outputs ! k)) = Inr (fd_folds fd ! k)" by (auto simp: fd split: sum.splits exn.splits)
qed

text \<open>A task's value: each output has the value of its reduction over its rows.\<close>

definition reduces_all :: "'v scalar_ops \<Rightarrow> 'v row_values \<Rightarrow> (node_body \<times> int) list \<Rightarrow> 'v list list \<Rightarrow> 'v option list \<Rightarrow> bool" where
  "reduces_all sc rv outputs rows vals \<longleftrightarrow> list_all2 (\<lambda>(body, _) (r, v). reduces sc rv body r v) outputs (zip rows vals) \<and>
     length rows = length outputs \<and> length vals = length outputs"

lemma reduces_all_iff:
  "reduces_all sc rv outputs rows vals \<longleftrightarrow> length rows = length outputs \<and> length vals = length outputs \<and>
     (\<forall>k < length outputs. reduces sc rv (fst (outputs ! k)) (rows ! k) (vals ! k))"
  by (auto simp: reduces_all_def list_all2_conv_all_nth case_prod_unfold)

lemma reduces_all_append:
  assumes "exact_scalars sc rv" "folded_of sc outputs = Inr fd" "reduces_all sc rv outputs xs us" "reduces_all sc rv outputs ys vs"
  shows "\<exists>ws. folded_combine fd us vs = Inr ws \<and> reduces_all sc rv outputs (map2 (@) xs ys) ws"
  using assms(3,4) folded_of_rules [OF assms(2)] reduces_append [OF assms(1)]
  by (auto simp: folded_combine_def reduces_all_iff)

lemma folded_reduce_all:
  assumes "folded_of sc outputs = Inr fd" "length rows = length outputs"
    and "\<forall>k < length outputs. \<exists>v. py_index got (snd (outputs ! k)) = Inr v \<and> reduces sc rv (fst (outputs ! k)) (rows ! k) v"
  shows "\<exists>vals. folded_reduce fd got = Inr vals \<and> reduces_all sc rv outputs rows vals"
proof -
  define vals where "vals = map (\<lambda>k. projr (py_index got (snd (outputs ! k)))) [0..<length outputs]"
  have "folded_reduce fd got = Inr vals"
    unfolding folded_reduce_def folded_of_rules(1) [OF assms(1)] traverse_Inr_iff using assms(3)
    by (auto simp: list_all2_conv_all_nth vals_def)
  moreover have "reduces_all sc rv outputs rows vals" using assms(2,3) by (auto simp: reduces_all_iff vals_def)
  ultimately show ?thesis by blast
qed

text \<open>
  C38. Chunk values fold to the dataset's value. For outputs that are foldable reductions (sum, count,
  count_nonzero, any, all, max, min), where a chunk's evaluation gives at each output's slot the reduction of
  the chunk's rows, then whatever the chunks and whatever the tree the runner merges them in, the result is,
  output by output, the reduction of the rows of all chunks in order: chunks without rows, rows that are NaN
  and masked identities included. The value of no chunks is the reduction of no rows.
\<close>
theorem chunk_folds_are_dataset_fold:
  assumes "exact_scalars sc rv" "folded_of sc outputs = Inr fd"
    and "\<forall>(got, rows) \<in> set chunks. length rows = length outputs \<and>
      (\<forall>k < length outputs. \<exists>v. py_index got (snd (outputs ! k)) = Inr v \<and> reduces sc rv (fst (outputs ! k)) (rows ! k) v)"
    and "traverse (folded_reduce fd) (map fst chunks) = Inr (leaves tr)"
  shows "(\<exists>vals. reduce_result (folded_combine fd) tr = Inr vals \<and>
      reduces_all sc rv outputs (map (\<lambda>k. concat (map (\<lambda>(_, rows). rows ! k) chunks)) [0..<length outputs]) vals) \<and>
    reduces_all sc rv outputs (map (\<lambda>_. []) outputs) (folded_empty fd)"
proof
  show "reduces_all sc rv outputs (map (\<lambda>_. []) outputs) (folded_empty fd)"
    using folded_of_rules [OF assms(2)] reduces_no_rows [OF assms(1)] by (simp add: reduces_all_iff folded_empty_def)
  show "\<exists>vals. reduce_result (folded_combine fd) tr = Inr vals \<and>
      reduces_all sc rv outputs (map (\<lambda>k. concat (map (\<lambda>(_, rows). rows ! k) chunks)) [0..<length outputs]) vals"
    using assms(3,4)
  proof (induction tr arbitrary: chunks)
    case (Leaf v)
    then obtain got rows where c: "chunks = [(got, rows)]" "folded_reduce fd got = Inr v"
      by (auto simp: traverse_Inr_iff list_all2_Cons2)
    with Leaf folded_reduce_all [OF assms(2), of rows got rv] have "reduces_all sc rv outputs rows v" "length rows = length outputs" by auto
    moreover from this have "map ((!) rows) [0..<length outputs] = rows" using map_nth [of rows] by simp
    ultimately show ?case by (simp add: c(1))
  next
    case (Merge l r)
    from Merge.prems(2) obtain xs ys where c: "chunks = xs @ ys" "traverse (folded_reduce fd) (map fst xs) = Inr (leaves l)"
      "traverse (folded_reduce fd) (map fst ys) = Inr (leaves r)"
      by (fastforce simp: traverse_Inr_iff list_all2_append2 map_eq_append_conv)
    let ?rows = "\<lambda>cs. map (\<lambda>k. concat (map (\<lambda>(_, rows). rows ! k) cs)) [0..<length outputs]"
    from Merge.IH(1) [OF _ c(2)] Merge.IH(2) [OF _ c(3)] Merge.prems(1) c(1) obtain us vs where
      u: "reduce_result (folded_combine fd) l = Inr us" "reduces_all sc rv outputs (?rows xs) us" and
      v: "reduce_result (folded_combine fd) r = Inr vs" "reduces_all sc rv outputs (?rows ys) vs" by auto
    from reduces_all_append [OF assms(1,2) u(2) v(2)] obtain ws where
      w: "folded_combine fd us vs = Inr ws" "reduces_all sc rv outputs (map2 (@) (?rows xs) (?rows ys)) ws" by blast
    moreover have "map2 (@) (?rows xs) (?rows ys) = ?rows chunks" by (auto simp: c(1) intro!: nth_equalityI)
    ultimately show ?case using u(1) v(1) by simp
  qed
qed

text \<open>
  Python's booleans, integers and a float NaN, with its operators: a boolean adds as an integer, \<open>&\<close> and \<open>|\<close> of two
  booleans are one, and bitwise on integers (\<open>True & 5\<close> is 1).
\<close>

datatype py_scalar = PyBool bool | PyInt int | PyNaN

fun as_number :: "py_scalar \<Rightarrow> int option" where
  "as_number (PyBool b) = Some (of_bool b)"
| "as_number (PyInt i) = Some i"
| "as_number PyNaN = None"

definition py_arith :: "(int \<Rightarrow> int \<Rightarrow> int) \<Rightarrow> py_scalar \<Rightarrow> py_scalar \<Rightarrow> py_scalar" where
  "py_arith f a b = (case (as_number a, as_number b) of (Some i, Some j) \<Rightarrow> PyInt (f i j) | _ \<Rightarrow> PyNaN)"

definition py_logic :: "(bool \<Rightarrow> bool \<Rightarrow> bool) \<Rightarrow> (int \<Rightarrow> int \<Rightarrow> int) \<Rightarrow> py_scalar \<Rightarrow> py_scalar \<Rightarrow> py_scalar" where
  "py_logic f g a b = (case (a, b) of (PyBool p, PyBool q) \<Rightarrow> PyBool (f p q) | _ \<Rightarrow> py_arith g a b)"

definition py_compare :: "(int \<Rightarrow> int \<Rightarrow> bool) \<Rightarrow> py_scalar \<Rightarrow> py_scalar \<Rightarrow> bool" where
  "py_compare f a b = (case (as_number a, as_number b) of (Some i, Some j) \<Rightarrow> f i j | _ \<Rightarrow> False)"

definition py_scalars :: "py_scalar scalar_ops" where
  "py_scalars = \<lparr>sc_add = py_arith (+), sc_or = py_logic (\<or>) Bit_Operations.or, sc_and = py_logic (\<and>) Bit_Operations.and,
     sc_less = py_compare (<), sc_eq = py_compare (=), sc_zero = PyInt 0, sc_false = PyBool False, sc_true = PyBool True\<rparr>"

definition py_rows :: "py_scalar row_values" where
  "py_rows = \<lparr>rv_number = (\<lambda>v. case v of PyBool _ \<Rightarrow> False | _ \<Rightarrow> True), rv_count = (\<lambda>n. PyInt (int n)), rv_holds = (\<lambda>v. as_number v \<noteq> Some 0)\<rparr>"

lemma exact_py_scalars: "exact_scalars py_scalars py_rows"
  unfolding exact_scalars_def
  by (auto simp: py_scalars_def py_rows_def py_arith_def py_logic_def py_compare_def truth_def split: py_scalar.splits option.splits)

text \<open>Three chunks, the second without rows and the third with a NaN: the sum of one field, the maximum and the truth of another.\<close>

theorem chunk_folds_are_dataset_fold_witness:
  "\<exists>fd vals. folded_of py_scalars [(ReductionNode ''sum'' [], 1), (ReductionNode ''ak.max'' [], 0), (ReductionNode ''all'' [], -1)] = Inr fd \<and>
     reduce_result (folded_combine fd) (Merge (Merge (Leaf [Some (PyInt 3), Some (PyInt 2), Some (PyBool False)]) (Leaf [Some (PyInt 0), None, Some (PyBool True)]))
       (Leaf [Some (PyInt 5), Some PyNaN, Some (PyBool True)])) = Inr vals \<and>
     vals = [Some (PyInt 8), Some PyNaN, Some (PyBool False)]"
proof -
  let ?outputs = "[(ReductionNode ''sum'' [], 1), (ReductionNode ''ak.max'' [], 0), (ReductionNode ''all'' [], -1)]"
  let ?folds = "[\<lparr>fr_combine = py_arith (+), fr_empty = Some (PyInt 0)\<rparr>, \<lparr>fr_combine = py_max py_scalars, fr_empty = None\<rparr>,
    \<lparr>fr_combine = py_logic (\<and>) Bit_Operations.and, fr_empty = Some (PyBool True)\<rparr>]"
  have fd: "folded_of py_scalars ?outputs = Inr \<lparr>fd_slots = [1, 0, -1], fd_folds = ?folds\<rparr>"
    by (simp add: folded_of_def py_enumerate_def fold_of_def last_part_def not_foldable_def known_folds_def py_scalars_def)
  let ?fd = "\<lparr>fd_slots = [1, 0, -1], fd_folds = ?folds\<rparr>"
  let ?tree = "Merge (Merge (Leaf [Some (PyInt 3), Some (PyInt 2), Some (PyBool False)]) (Leaf [Some (PyInt 0), None, Some (PyBool True)]))
    (Leaf [Some (PyInt 5), Some PyNaN, Some (PyBool True)])"
  let ?chunks = "[([Some (PyInt 2), Some (PyInt 3), Some (PyBool False)], [[PyInt 1, PyInt 2], [PyInt 0, PyInt 2], [PyInt 0, PyInt 2]]),
     ([None, Some (PyInt 0), Some (PyBool True)], [[], [], []]),
     ([Some PyNaN, Some (PyInt 5), Some (PyBool True)], [[PyInt 5], [PyNaN], [PyNaN]])]"
  note defs = py_scalars_def py_rows_def py_arith_def py_compare_def truth_def is_extreme_def last_part_def py_index_def
  have got: "\<forall>(got, rows) \<in> set ?chunks. length rows = length ?outputs \<and>
      (\<forall>k < length ?outputs. \<exists>v. py_index got (snd (?outputs ! k)) = Inr v \<and> reduces py_scalars py_rows (fst (?outputs ! k)) (rows ! k) v)"
    by (auto simp: less_Suc_eq defs)
  have "traverse (folded_reduce ?fd) (map fst ?chunks) = Inr (leaves ?tree)"
    by (simp add: folded_reduce_def py_index_def)
  from chunk_folds_are_dataset_fold [OF exact_py_scalars fd got this] obtain vals where
    v: "reduce_result (folded_combine ?fd) ?tree = Inr vals"
      "reduces_all py_scalars py_rows ?outputs [[PyInt 1, PyInt 2, PyInt 5], [PyInt 0, PyInt 2, PyNaN], [PyInt 0, PyInt 2, PyNaN]] vals"
    by auto
  from v(2) obtain x y z where "vals = [x, y, z]" by (auto simp: reduces_all_iff length_Suc_conv)
  with v(2) have "vals = [Some (PyInt 8), Some PyNaN, Some (PyBool False)]"
    by (auto simp: reduces_all_def defs split: if_splits)
  with fd v(1) show ?thesis by blast
qed

section \<open>Shared parts are refused\<close>

lemma add_parts_iff:
  "add_parts seen ps = Inr out \<longleftrightarrow> distinct (map normpath ps) \<and> set (map normpath ps) \<inter> seen = {} \<and> out = seen \<union> set (map normpath ps)"
  by (induction ps arbitrary: seen) (auto simp: Let_def)

lemma refuse_shared_iff:
  "refuse_shared_parts seen runs = Inr () \<longleftrightarrow>
     (\<exists>pss. traverse (\<lambda>r. r ()) runs = Inr pss \<and> distinct (map normpath (concat pss)) \<and> set (map normpath (concat pss)) \<inter> seen = {})"
proof (induction runs arbitrary: seen)
  case (Cons r runs)
  have both: "distinct (map normpath (concat (ps # pss))) \<and> set (map normpath (concat (ps # pss))) \<inter> seen = {} \<longleftrightarrow>
      (distinct (map normpath ps) \<and> set (map normpath ps) \<inter> seen = {}) \<and>
      distinct (map normpath (concat pss)) \<and> set (map normpath (concat pss)) \<inter> (seen \<union> set (map normpath ps)) = {}" for ps pss
    by (simp only: concat.simps map_append distinct_append set_append) blast
  show ?case
  proof (cases "r ()")
    case (Inr ps)
    have "refuse_shared_parts seen (r # runs) = Inr () \<longleftrightarrow> (distinct (map normpath ps) \<and> set (map normpath ps) \<inter> seen = {}) \<and>
        refuse_shared_parts (seen \<union> set (map normpath ps)) runs = Inr ()"
      by (auto simp: Inr result_bind_Inr_iff add_parts_iff simp del: set_map)
    moreover have "(\<exists>pss. traverse (\<lambda>r. r ()) (r # runs) = Inr pss \<and> P pss) \<longleftrightarrow> (\<exists>pss. traverse (\<lambda>r. r ()) runs = Inr pss \<and> P (ps # pss))" for P
      by (auto simp: Inr result_bind_Inr_iff)
    ultimately show ?thesis unfolding Cons.IH by (simp only: both) blast
  qed auto
qed simp

text \<open>
  C40. No part is written twice. A plan's tasks pass the check exactly when every task names its parts and
  the normalised paths of all parts of all tasks differ, so \<open>a//b\<close> and \<open>a/./b\<close> count as one part.
\<close>
theorem shared_parts_refused:
  "refuse_shared_parts {} runs = Inr () \<longleftrightarrow>
     (\<exists>pss. traverse (\<lambda>r. r ()) runs = Inr pss \<and> distinct (map normpath (concat pss)))"
  by (simp add: refuse_shared_iff)

section \<open>Running a collated plan\<close>

text \<open>A run without a monitor or a control, whose tasks do not fail: a fold over the tasks in key order.\<close>

lemma pure_loop:
  assumes "pl_process plan = UserProcess f b" "\<And>t r. t \<in> set ts \<Longrightarrow> fst (f (task_partition t) r) = Inr (h (task_partition t))"
    and "pl_combine plan = UserCombine g" "\<And>v t. I v \<Longrightarrow> t \<in> set ts \<Longrightarrow> g v (h (task_partition t)) = Inr (c v t) \<and> I (c v t)" "I v"
  shows "\<exists>res. fst (run_loop plan None None ts n (Bare v) w) = Inr res \<and> er_value res = Bare (foldl c v ts)"
  using assms(2,4,5)
proof (induction ts arbitrary: n v w)
  case Nil
  then show ?case by (simp add: action_simps exec_result_of_def)
next
  case (Cons t ts)
  from Cons.prems(1) [of t "w_resources w"] obtain r' where r: "f (task_partition t) (w_resources w) = (Inr (h (task_partition t)), r')"
    by (cases "f (task_partition t) (w_resources w)") auto
  from Cons.prems(2,3) have g: "g v (h (task_partition t)) = Inr (c v t)" "I (c v t)" by simp_all
  have "run_task plan None t (Bare v) w = (Inr (Bare (c v t)), w\<lparr>w_resources := r'\<rparr>)"
    by (simp add: silent_run_task assms(1,3) in_resources_def action_simps r g)
  moreover have "\<exists>res. fst (run_loop plan None None ts (Suc n) (Bare (c v t)) (w\<lparr>w_resources := r'\<rparr>)) = Inr res \<and>
      er_value res = Bare (foldl c (c v t) ts)"
    by (rule Cons.IH) (use Cons.prems g in auto)
  ultimately show ?case by (simp add: action_simps)
qed

end
