(* ===== verification/Collated_Run.thy ===== *)
theory Collated_Run
  imports Aggregate
begin

text \<open>
  What running a collated plan (\<open>aggregate.py\<close>, \<open>collate\<close>) computes: each plan's own value under its name.
  The value so far is a dictionary in the order of the plans; \<open>in_order\<close> writes a map that way.
\<close>

section \<open>The dictionary of values\<close>

definition in_order :: "string list \<Rightarrow> (string \<rightharpoonup> 'v) \<Rightarrow> (string \<times> 'v) list" where
  "in_order names m = List.map_filter (\<lambda>n. map_option (Pair n) (m n)) names"

lemma map_of_in_order: "map_of (in_order names m) n = (if n \<in> set names then m n else None)"
  by (induction names) (auto simp: in_order_def map_filter_simps split: option.split)

lemma keys_in_order: "map fst (in_order names m) = List.filter (\<lambda>n. m n \<noteq> None) names"
  by (induction names) (auto simp: in_order_def map_filter_simps split: option.split)

definition joined :: "(string \<Rightarrow> 'v \<Rightarrow> 'v \<Rightarrow> 'v) \<Rightarrow> (string \<rightharpoonup> 'v) \<Rightarrow> string \<times> 'v \<Rightarrow> (string \<rightharpoonup> 'v)" where
  "joined cmb m = (\<lambda>(n, x). m(n \<mapsto> (case m n of None \<Rightarrow> x | Some u \<Rightarrow> cmb n u x)))"

text \<open>The values that come in under one name are folded in the order they come.\<close>

fun fold_some :: "('v \<Rightarrow> 'v \<Rightarrow> 'v) \<Rightarrow> 'v option \<Rightarrow> 'v list \<Rightarrow> 'v option" where
  "fold_some c start [] = start"
| "fold_some c start (x # xs) = fold_some c (Some (case start of None \<Rightarrow> x | Some u \<Rightarrow> c u x)) xs"

lemma fold_some_Some [simp]: "fold_some c (Some u) xs = Some (foldl c u xs)"
  by (induction xs arbitrary: u) auto

lemma fold_some_unit: "(\<And>x. c e x = x) \<Longrightarrow> xs \<noteq> [] \<Longrightarrow> fold_some c None xs = Some (foldl c e xs)"
  by (cases xs) auto

lemma joined_all: "foldl (joined cmb) m tagged n = fold_some (cmb n) (m n) (map snd (List.filter (\<lambda>y. fst y = n) tagged))"
  by (induction tagged arbitrary: m) (auto simp: joined_def split: option.split)

lemma joined_dom: "set (map fst tagged) \<subseteq> names \<Longrightarrow> dom m \<subseteq> names \<Longrightarrow> dom (foldl (joined cmb) m tagged) \<subseteq> names"
proof (induction tagged arbitrary: m)
  case (Cons x tagged)
  have "dom (joined cmb m x) \<subseteq> names" using Cons.prems by (cases x) (simp add: joined_def)
  with Cons show ?case by simp
qed simp

lemma collated_combine_joined:
  assumes "map fst combines = names" "n \<in> set names" "dom m \<subseteq> set names"
    and "\<And>f u v. map_of combines n = Some f \<Longrightarrow> f u v = Inr (cmb n u v)"
  shows "collated_combine combines (in_order names m) [(n, x)] = Inr (in_order names (joined cmb m (n, x)))"
proof -
  from assms(1,2) obtain f where f: "map_of combines n = Some f" by (metis map_of_eq_None_iff not_None_eq image_set)
  have e: "map_of (in_order names m) = m" 
  proof
    fix k
    show "map_of (in_order names m) k = m k" using assms(3) by (cases "m k") (auto simp: map_of_in_order)
  qed
  have m: "List.map_filter (\<lambda>(k, _). map_option (Pair k) (map_of (dict_merge (in_order names m) [(n, y)]) k)) combines = in_order names (m(n \<mapsto> y))" for y
  proof -
    have "map_of (dict_merge (in_order names m) [(n, y)]) = m(n \<mapsto> y)" by (simp add: map_of_dict_merge e)
    moreover have "List.map_filter (\<lambda>(k, _). F k) cs = List.map_filter F (map fst cs)" for F :: "string \<Rightarrow> (string \<times> 'a) option" and cs :: "(string \<times> ('a \<Rightarrow> 'a \<Rightarrow> 'a result)) list"
      by (induction cs) (auto simp: map_filter_simps split: option.split)
    ultimately show ?thesis by (simp add: in_order_def assms(1))
  qed
  show ?thesis
    by (cases "m n") (simp_all add: collated_combine_def e f assms(4) [OF f] joined_def m Let_def)
qed

section \<open>The tasks of a collated plan\<close>

definition part_key :: "task \<Rightarrow> string \<times> string" where
  "part_key t = (uri (task_partition t), tree (task_partition t))"

lemma route_tasks_spec:
  "route_tasks name ts route tasks = Inr (route', tasks') \<Longrightarrow>
     map task_partition tasks' = map task_partition (tasks @ ts) \<and> map_of route \<subseteq>\<^sub>m map_of route' \<and>
     (\<forall>t \<in> set ts. map_of route' (part_key t) = Some name) \<and>
     (map task_key tasks = map int [0..<length tasks] \<longrightarrow> map task_key tasks' = map int [0..<length tasks'])"
proof (induction ts arbitrary: route tasks)
  case (Cons t ts)
  let ?route = "dict_setdefault (part_key t) name route" and ?tasks = "tasks @ [\<lparr>task_key = int (length tasks), task_partition = task_partition t\<rparr>]"
  from Cons.prems have own: "map_of ?route (part_key t) = Some name" and r: "route_tasks name ts ?route ?tasks = Inr (route', tasks')"
    by (auto simp: Let_def part_key_def dict_setdefault_def map_add_def split: if_splits option.splits)
  have ext: "map_of route \<subseteq>\<^sub>m map_of ?route"
    by (auto simp: map_le_def dict_setdefault_def map_add_def split: option.split)
  from Cons.IH [OF r] have ih: "map task_partition tasks' = map task_partition (?tasks @ ts)" "map_of ?route \<subseteq>\<^sub>m map_of route'"
     "\<forall>t \<in> set ts. map_of route' (part_key t) = Some name"
     "map task_key ?tasks = map int [0..<length ?tasks] \<longrightarrow> map task_key tasks' = map int [0..<length tasks']" by blast+
  from ih(2) own have "map_of route' (part_key t) = Some name" by (metis domI map_le_def)
  with ih ext show ?case by (auto intro: map_le_trans)
qed simp

definition tagged_tasks :: "(string \<times> ('v carrier, 'h) plan) list \<Rightarrow> (string \<times> task) list" where
  "tagged_tasks ps = concat (map (\<lambda>(n, p). map (Pair n) (sort_key task_key (pl_tasks p))) ps)"

lemma route_plans_spec:
  "route_plans subs route tasks = Inr (route', tasks', ps) \<Longrightarrow>
     map task_partition tasks' = map task_partition tasks @ map (task_partition \<circ> snd) (tagged_tasks ps) \<and> map_of route \<subseteq>\<^sub>m map_of route' \<and>
     (\<forall>(n, t) \<in> set (tagged_tasks ps). map_of route' (part_key t) = Some n) \<and>
     (map task_key tasks = map int [0..<length tasks] \<longrightarrow> map task_key tasks' = map int [0..<length tasks']) \<and>
     list_all2 (\<lambda>(n, sub) (n', p). n' = n \<and> (\<exists>ss. sub = TaskPlan p ss)) subs ps"
proof (induction subs arbitrary: route tasks ps)
  case (Cons s subs)
  obtain name sub where s: "s = (name, sub)" by (cases s)
  with Cons.prems obtain p ss route1 tasks1 rest where sub: "sub = TaskPlan p ss"
    and one: "route_tasks name (sort_key task_key (pl_tasks p)) route tasks = Inr (route1, tasks1)"
    and more: "route_plans subs route1 tasks1 = Inr (route', tasks', rest)" and ps: "ps = (name, p) # rest"
    by (auto simp: result_bind_Inr_iff split: sub_plan.splits if_splits)
  from route_tasks_spec [OF one] have a: "map task_partition tasks1 = map task_partition (tasks @ sort_key task_key (pl_tasks p))"
    "map_of route \<subseteq>\<^sub>m map_of route1" "\<forall>t \<in> set (sort_key task_key (pl_tasks p)). map_of route1 (part_key t) = Some name"
    "map task_key tasks = map int [0..<length tasks] \<longrightarrow> map task_key tasks1 = map int [0..<length tasks1]" by blast+
  from Cons.IH [OF more] have b: "map task_partition tasks' = map task_partition tasks1 @ map (task_partition \<circ> snd) (tagged_tasks rest)"
    "map_of route1 \<subseteq>\<^sub>m map_of route'" "\<forall>(n, t) \<in> set (tagged_tasks rest). map_of route' (part_key t) = Some n"
    "map task_key tasks1 = map int [0..<length tasks1] \<longrightarrow> map task_key tasks' = map int [0..<length tasks']"
    "list_all2 (\<lambda>(n, sub) (n', p). n' = n \<and> (\<exists>ss. sub = TaskPlan p ss)) subs rest" by blast+
  have "map_of route' (part_key t) = Some name" if "t \<in> set (sort_key task_key (pl_tasks p))" for t
    using a(3) b(2) that by (metis domI map_le_def)
  with a b s sub ps show ?case by (auto simp: tagged_tasks_def intro: map_le_trans)
qed (auto simp: tagged_tasks_def)

section \<open>The run\<close>

text \<open>
  A plan whose task for partition \<open>q\<close> gives \<open>val q\<close>, whose combine is \<open>cmb\<close> and whose value of no tasks is the
  left identity \<open>e\<close>. Its services are bound, and it makes its result of a value by \<open>fin\<close>, which may raise.
\<close>

definition exact_plan :: "('v carrier, 'h) plan \<Rightarrow> (partition \<Rightarrow> 'v) \<Rightarrow> ('v \<Rightarrow> 'v \<Rightarrow> 'v) \<Rightarrow> 'v \<Rightarrow> ('v \<Rightarrow> 'v result) \<Rightarrow> bool" where
  "exact_plan p val cmb e fin \<longleftrightarrow>
     (\<exists>f b. pl_process p = UserProcess f b \<and> (\<forall>g. b = Some g \<longrightarrow> \<not> isl (g Map.empty)) \<and> (\<forall>q r. fst (f q r) = Inr (Plain (val q)))) \<and>
     (case pl_finalize p of None \<Rightarrow> \<forall>v. fin v = Inr v | Some f \<Rightarrow> \<forall>v. f (Plain v) = map_sum id Plain (fin v)) \<and>
     (\<exists>g. pl_combine p = UserCombine g \<and> (\<forall>u v. g (Plain u) (Plain v) = Inr (Plain (cmb u v)))) \<and>
     pl_empty p = Bare (Plain e) \<and> (\<forall>x. cmb e x = x)"

lemma fst_run_tasks: "fst (run_tasks plan None None w) = fst (run_loop plan None None (ordered_tasks plan) 0 (pl_empty plan) (start_resources w))"
  by (simp add: run_tasks_def action_simps submit_all_silent)

lemma exact_run:
  assumes "exact_plan p val cmb e fin"
  shows "\<exists>res. fst (run_tasks p None None w) = Inr res \<and>
    er_value res = Bare (Plain (foldl cmb e (map (val \<circ> task_partition) (ordered_tasks p))))"
proof -
  from assms obtain f b g where f: "pl_process p = UserProcess f b" "\<And>q r. fst (f q r) = Inr (Plain (val q))"
    and g: "pl_combine p = UserCombine g" "\<And>u v. g (Plain u) (Plain v) = Inr (Plain (cmb u v))" and e: "pl_empty p = Bare (Plain e)"
    unfolding exact_plan_def by blast
  let ?c = "\<lambda>v (t :: task). case v of Plain u \<Rightarrow> Plain (cmb u (val (task_partition t))) | Warned u _ \<Rightarrow> Plain u"
  have "\<exists>res. fst (run_loop p None None (ordered_tasks p) 0 (Bare (Plain e)) (start_resources w)) = Inr res \<and>
      er_value res = Bare (foldl ?c (Plain e) (ordered_tasks p))"
    by (rule pure_loop [OF f(1) _ g(1), where h = "Plain \<circ> val" and I = "\<lambda>v. \<exists>u. v = Plain u"]) (auto simp: f(2) g(2))
  moreover have "foldl ?c (Plain u) ts = Plain (foldl cmb u (map (val \<circ> task_partition) ts))" for u ts
    by (induction ts arbitrary: u) auto
  ultimately show ?thesis by (simp only: fst_run_tasks e)
qed

lemma tagged_filter:
  "distinct (map fst ps) \<Longrightarrow> (n, p) \<in> set ps \<Longrightarrow> List.filter (\<lambda>y. fst y = n) (tagged_tasks ps) = map (Pair n) (sort_key task_key (pl_tasks p))"
proof (induction ps)
  case (Cons x ps)
  obtain m q where x: "x = (m, q)" by (cases x)
  have none: "List.filter (\<lambda>y. fst y = k) (tagged_tasks ps) = []" if "k \<notin> fst ` set ps" for k
    using that by (force simp: tagged_tasks_def filter_empty_conv)
  show ?case
  proof (cases "n = m")
    case True
    with Cons.prems x have "p = q" "n \<notin> fst ` set ps" by (auto simp: image_iff)
    with True x none [of n] show ?thesis by (simp add: tagged_tasks_def filter_map o_def)
  next
    case False
    with Cons x show ?thesis by (auto simp: tagged_tasks_def filter_map o_def)
  qed
qed simp

text \<open>
  What the collated plan's process and combine work on: the tasks are those of the plans, each partition is routed to the
  plan it came from, and every plan is exact.
\<close>

definition routed :: "(string \<times> ('v carrier, 'h) plan) list \<Rightarrow> ((string \<times> string) \<times> string) list \<Rightarrow> task list \<Rightarrow>
    (string \<Rightarrow> partition \<Rightarrow> 'v) \<Rightarrow> (string \<Rightarrow> 'v \<Rightarrow> 'v \<Rightarrow> 'v) \<Rightarrow> (string \<Rightarrow> 'v) \<Rightarrow> (string \<Rightarrow> 'v \<Rightarrow> 'v result) \<Rightarrow> bool" where
  "routed fixed route tasks val cmb e fin \<longleftrightarrow>
     map task_partition tasks = map (task_partition \<circ> snd) (tagged_tasks fixed) \<and>
     (\<forall>(n, t) \<in> set (tagged_tasks fixed). map_of route (part_key t) = Some n) \<and>
     distinct (map fst fixed) \<and> (\<forall>(n, p) \<in> set fixed. exact_plan p (val n) (cmb n) (e n) (fin n))"

lemma routedD:
  assumes "routed fixed route tasks val cmb e fin"
  shows "map task_partition tasks = map (task_partition \<circ> snd) (tagged_tasks fixed)"
    and "(n, t) \<in> set (tagged_tasks fixed) \<Longrightarrow> map_of route (part_key t) = Some n"
    and "distinct (map fst fixed)" and "(n, p) \<in> set fixed \<Longrightarrow> exact_plan p (val n) (cmb n) (e n) (fin n)"
  using assms unfolding routed_def by blast+

definition routed_value :: "((string \<times> string) \<times> string) list \<Rightarrow> (string \<Rightarrow> partition \<Rightarrow> 'v) \<Rightarrow> partition \<Rightarrow> (string \<times> 'v) list carrier" where
  "routed_value route val q = (case map_of route (uri q, tree q) of Some n \<Rightarrow> Plain [(n, val n q)] | None \<Rightarrow> Plain [])"

definition routed_tag :: "((string \<times> string) \<times> string) list \<Rightarrow> (string \<Rightarrow> partition \<Rightarrow> 'v) \<Rightarrow> task \<Rightarrow> string \<times> 'v" where
  "routed_tag route val t = (let n = the (map_of route (part_key t)) in (n, val n (task_partition t)))"

lemma routed_owner:
  assumes "routed fixed route tasks val cmb e fin" "t \<in> set tasks"
  obtains n p where "map_of route (part_key t) = Some n" "(n, p) \<in> set fixed" "n \<in> set (map fst fixed)"
proof -
  from assms(2) have "task_partition t \<in> set (map task_partition tasks)" by simp
  then obtain n u where u: "(n, u) \<in> set (tagged_tasks fixed)" "task_partition t = task_partition u"
    unfolding routedD(1) [OF assms(1)] by auto
  from routedD(2) [OF assms(1) u(1)] u(2) have "map_of route (part_key t) = Some n" by (simp add: part_key_def)
  moreover from u(1) obtain p where "(n, p) \<in> set fixed" by (auto simp: tagged_tasks_def)
  moreover from this have "n \<in> set (map fst fixed)" by force
  ultimately show ?thesis by (rule that)
qed

lemma routed_call:
  assumes r: "routed fixed route tasks val cmb e fin" and t: "t \<in> set tasks"
  shows "fst (collated_call (map (\<lambda>(n, p). (n, pl_process p)) fixed) route (task_partition t) res) = Inr (routed_value route val (task_partition t))"
proof -
  from routed_owner [OF r t] obtain n p where n: "map_of route (part_key t) = Some n" "(n, p) \<in> set fixed" by blast
  have "map_of (map (\<lambda>(n, p). (n, pl_process p)) fixed) n = Some (pl_process p)"
    using n(2) routedD(3) [OF r] by (intro map_of_is_SomeI) (auto simp: o_def case_prod_unfold intro!: rev_image_eqI)
  moreover from routedD(4) [OF r n(2)] obtain f b where f: "pl_process p = UserProcess f b" "\<And>q r. fst (f q r) = Inr (Plain (val n q))"
    unfolding exact_plan_def by blast
  moreover obtain r' where "f (task_partition t) res = (Inr (Plain (val n (task_partition t))), r')" using f(2) by (metis prod.collapse)
  moreover have "uri (task_partition t) = fst (part_key t)" "tree (task_partition t) = snd (part_key t)" by (simp_all add: part_key_def)
  ultimately show ?thesis using n(1) by (simp add: routed_value_def collated_call_def act_bind_def act_lift_def on_value_def rewarn_def)
qed

text \<open>Combining one task's value into the dictionary so far.\<close>

abbreviation dictionary_combine :: "(string \<times> ('v carrier, 'h) plan) list \<Rightarrow> (string \<times> 'v) list carrier \<Rightarrow> (string \<times> 'v) list carrier \<Rightarrow> (string \<times> 'v) list carrier result" where
  "dictionary_combine fixed \<equiv> warned_combine (collated_combine (map (\<lambda>(n, p). (n, plain_combine (pl_combine p))) fixed))"

lemma routed_step:
  assumes r: "routed fixed route tasks val cmb e fin" and t: "t \<in> set tasks" and m: "dom m \<subseteq> set (map fst fixed)"
  shows "dictionary_combine fixed (Plain (in_order (map fst fixed) m)) (routed_value route val (task_partition t)) =
      Inr (Plain (in_order (map fst fixed) (joined cmb m (routed_tag route val t))))"
    and "dom (joined cmb m (routed_tag route val t)) \<subseteq> set (map fst fixed)"
proof -
  let ?cs = "map (\<lambda>(n, p). (n, plain_combine (pl_combine p))) fixed" and ?names = "map fst fixed"
  from routed_owner [OF r t] obtain n where n: "map_of route (part_key t) = Some n" "n \<in> set ?names" by blast
  have c: "f u v = Inr (cmb n u v)" if f: "map_of ?cs n = Some f" for f u v
  proof -
    from map_of_SomeD [OF f] obtain p where "(n, p) \<in> set fixed" "f = plain_combine (pl_combine p)" by auto
    with routedD(4) [OF r, of n p] show ?thesis unfolding exact_plan_def by auto
  qed
  have "collated_combine ?cs (in_order ?names m) [(n, val n (task_partition t))] = Inr (in_order ?names (joined cmb m (n, val n (task_partition t))))"
    by (rule collated_combine_joined [where cmb = cmb and names = ?names, OF _ n(2) m]) (simp add: o_def case_prod_unfold, rule c)
  then show "dictionary_combine fixed (Plain (in_order ?names m)) (routed_value route val (task_partition t)) =
      Inr (Plain (in_order ?names (joined cmb m (routed_tag route val t))))"
    using n(1) by (simp add: warned_combine_def rewarn_def routed_value_def routed_tag_def part_key_def)
  have "set (map fst [routed_tag route val t]) \<subseteq> set ?names" using n by (simp add: routed_tag_def)
  from joined_dom [OF this m, of cmb] show "dom (joined cmb m (routed_tag route val t)) \<subseteq> set ?names" by simp
qed

lemma routed_loop:
  assumes r: "routed fixed route tasks val cmb e fin"
    and proc: "pl_process plan = UserProcess (collated_call (map (\<lambda>(n, p). (n, pl_process p)) fixed) route) b"
    and comb: "pl_combine plan = UserCombine (dictionary_combine fixed)"
  shows "\<exists>res. fst (run_loop plan None None tasks 0 (Bare (Plain [])) (start_resources w)) = Inr res \<and>
    er_value res = Bare (Plain (in_order (map fst fixed) (foldl (joined cmb) Map.empty (map (routed_tag route val) tasks))))"
proof -
  let ?names = "map fst fixed"
  define C where "C v t = projr (dictionary_combine fixed v (routed_value route val (task_partition t)))" for v and t :: task
  have step: "C (Plain (in_order ?names m)) t = Plain (in_order ?names (joined cmb m (routed_tag route val t)))"
    if "t \<in> set tasks" "dom m \<subseteq> set ?names" for t m
    using routed_step(1) [OF r that] by (simp only: C_def sum.sel)
  have "\<exists>res. fst (run_loop plan None None tasks 0 (Bare (Plain [])) (start_resources w)) = Inr res \<and> er_value res = Bare (foldl C (Plain []) tasks)"
  proof (rule pure_loop [OF proc routed_call [OF r] comb, where I = "\<lambda>v. \<exists>m. dom m \<subseteq> set ?names \<and> v = Plain (in_order ?names m)"])
    fix v :: "(string \<times> 'a) list carrier" and t assume "\<exists>m. dom m \<subseteq> set ?names \<and> v = Plain (in_order ?names m)" and t: "t \<in> set tasks"
    then obtain m where m: "dom m \<subseteq> set ?names" "v = Plain (in_order ?names m)" by blast
    show "dictionary_combine fixed v (routed_value route val (task_partition t)) = Inr (C v t) \<and> (\<exists>m. dom m \<subseteq> set ?names \<and> C v t = Plain (in_order ?names m))"
      using routed_step [OF r t m(1)] step [OF t m(1)] m(2) by metis
  next
    show "\<exists>m. dom m \<subseteq> set ?names \<and> Plain [] = Plain (in_order ?names m)"
      by (intro exI [of _ Map.empty]) (simp add: in_order_def map_filter_def)
  qed
  moreover have "foldl C (Plain (in_order ?names m)) ts = Plain (in_order ?names (foldl (joined cmb) m (map (routed_tag route val) ts)))"
    if "set ts \<subseteq> set tasks" "dom m \<subseteq> set ?names" for ts m
    using that
  proof (induction ts arbitrary: m)
    case (Cons t ts)
    then show ?case using Cons.IH [OF _ routed_step(2) [OF r _ Cons.prems(2), of t]] by (simp add: step)
  qed simp
  from this [of tasks Map.empty] have "foldl C (Plain []) tasks = Plain (in_order ?names (foldl (joined cmb) Map.empty (map (routed_tag route val) tasks)))"
    by (simp add: in_order_def map_filter_def)
  ultimately show ?thesis by simp
qed

text \<open>What the folded dictionary holds under a plan's name: the plan's own value, if it has tasks.\<close>

lemma routed_tags:
  assumes r: "routed fixed route tasks val cmb e fin"
  shows "map (routed_tag route val) tasks = map (\<lambda>(n, t). (n, val n (task_partition t))) (tagged_tasks fixed)"
proof -
  let ?G = "\<lambda>q. let n = the (map_of route (uri q, tree q)) in (n, val n q)"
  have "map (routed_tag route val) tasks = map ?G (map task_partition tasks)" by (simp add: routed_tag_def part_key_def)
  also have "\<dots> = map (?G \<circ> (task_partition \<circ> snd)) (tagged_tasks fixed)" by (simp only: routedD(1) [OF r] map_map)
  also have "\<dots> = map (\<lambda>(n, t). (n, val n (task_partition t))) (tagged_tasks fixed)"
    using routedD(2) [OF r] by (intro map_cong refl) (auto simp: part_key_def)
  finally show ?thesis .
qed

lemma routed_some:
  assumes r: "routed fixed route tasks val cmb e fin" and np: "(n, p) \<in> set fixed"
  shows "foldl (joined cmb) Map.empty (map (routed_tag route val) tasks) n =
    (if pl_tasks p = [] then None else Some (foldl (cmb n) (e n) (map (val n \<circ> task_partition) (ordered_tasks p))))"
proof -
  have "foldl (joined cmb) Map.empty (map (routed_tag route val) tasks) n = fold_some (cmb n) None (map (val n \<circ> task_partition) (ordered_tasks p))"
    using tagged_filter [OF routedD(3) [OF r] np]
    by (simp add: joined_all routed_tags [OF r] filter_map o_def case_prod_unfold ordered_tasks_def)
  moreover have "\<And>x. cmb n (e n) x = x" using routedD(4) [OF r np] unfolding exact_plan_def by blast
  note f = fold_some_unit [of "cmb n" "e n", OF this]
  moreover have "pl_tasks p = [] \<longleftrightarrow> ordered_tasks p = []" using length_ordered_tasks [of p] by (metis length_0_conv)
  ultimately show ?thesis using f by (cases "ordered_tasks p = []") auto
qed

text \<open>The plans \<open>collate\<close> was given, and what it makes of them.\<close>

abbreviation same_plans :: "(string \<times> ('v, 'h) sub_plan) list \<Rightarrow> (string \<times> ('v carrier, 'h) plan) list \<Rightarrow> bool" where
  "same_plans subs fixed \<equiv> list_all2 (\<lambda>(n, sub) (n', p). n' = n \<and> (\<exists>ss. sub = TaskPlan p ss)) subs fixed"

lemma same_plans_lookup:
  assumes "same_plans subs fixed"
  shows "(n, p) \<in> set fixed \<Longrightarrow> \<exists>ss. (n, TaskPlan p ss) \<in> set subs"
    and "(n, sub) \<in> set subs \<Longrightarrow> \<exists>p ss. sub = TaskPlan p ss \<and> (n, p) \<in> set fixed"
  using assms by (fastforce simp: list_all2_conv_all_nth in_set_conv_nth)+

lemma same_plans_names:
  assumes "same_plans subs fixed" "\<And>n p. (n, p) \<in> set fixed \<Longrightarrow> K n \<longleftrightarrow> pl_tasks p \<noteq> []"
  shows "List.filter K (map fst fixed) = map fst (List.filter (\<lambda>(n, sub). \<exists>p ss. sub = TaskPlan p ss \<and> pl_tasks p \<noteq> []) subs)"
  using assms
proof (induction subs fixed rule: list_all2_induct)
  case (Cons s subs q ps)
  obtain n p where q: "q = (n, p)" by (cases q)
  with Cons.hyps(1) obtain ss where s: "s = (n, TaskPlan p ss)" by (cases s) auto
  have "K n \<longleftrightarrow> pl_tasks p \<noteq> []" using Cons.prems [of n p] q by simp
  moreover have "List.filter K (map fst ps) = map fst (List.filter (\<lambda>(n, sub). \<exists>p ss. sub = TaskPlan p ss \<and> pl_tasks p \<noteq> []) subs)"
    by (rule Cons.IH) (rule Cons.prems, simp)
  ultimately show ?case by (simp add: q s)
qed simp

section \<open>From the tasks to the result\<close>

lemma isl_bind: "isl (result_bind r (\<lambda>x. Inr (h x))) = isl r"
  by (cases r) simp_all

lemma map_sum_bind: "map_sum id f (result_bind r (\<lambda>x. Inr (g x))) = map_sum id (f \<circ> g) r"
  by (cases r) simp_all

text \<open>What a run returns, its finalizer applied.\<close>

definition run_value :: "('r, 'h) plan \<Rightarrow> ('m, 'h) world \<Rightarrow> 'r pvalue result option" where
  "run_value plan w = map_option (\<lambda>((r, _), _). map_sum id er_value r) (run_plan plan 0 None None w)"

lemma run_value_tasks:
  assumes "pl_process plan = UserProcess f b" "\<forall>g. b = Some g \<longrightarrow> \<not> isl (g Map.empty)" "pl_stop plan = None"
    and "fst (run_tasks plan None None w) = Inr res" "er_value res = Bare v"
  shows "run_value plan w = Some (case pl_finalize plan of None \<Rightarrow> Inr (Bare v) | Some g \<Rightarrow> map_sum id Bare (g v))"
proof -
  have "\<exists>p. bind_process (UserProcess f b) Map.empty = Inr p"
  proof (cases b)
    case (Some g)
    with assms(2) show ?thesis by (cases "g Map.empty") auto
  qed simp
  then have bound: "require_bound plan = Some (Inr ())"
    using assms(1) by (auto simp: require_bound_def require_parts.simps unbound_endpoints_def)
  obtain w' where r: "run_tasks plan None None w = (Inr res, w')" using assms(4) by (metis prod.collapse)
  then have o: "observed_run None k (run_tasks plan None None) w = (Inr res, w')" for k
    by (simp add: observed_run_def call_hook_def action_simps)
  show ?thesis
    by (auto simp: run_value_def run_plan_def bound skipping_def assms(3,5) o finalize_result_def map_sum_bind o_def split: option.split)
qed

lemma traverse_no_error: "(\<And>x. x \<in> set xs \<Longrightarrow> \<not> isl (f x)) \<Longrightarrow> \<not> isl (traverse f xs)"
proof (induction xs)
  case (Cons x xs)
  from Cons.prems [of x] Cons.IH Cons.prems show ?case by (cases "f x"; cases "traverse f xs") auto
qed simp

lemma collated_bind_bound:
  assumes "\<forall>(n, p) \<in> set fixed. exact_plan p (val n) (cmb n) (e n) (fin n)"
  shows "\<not> isl (collated_bind (map (\<lambda>(n, p). (n, pl_process p)) fixed) Map.empty)"
  unfolding collated_bind_def
proof (rule traverse_no_error)
  fix x assume "x \<in> set (map (\<lambda>(n, p). (n, pl_process p)) fixed)"
  then obtain n p where x: "x = (n, pl_process p)" "(n, p) \<in> set fixed" by auto
  with assms obtain f b where "pl_process p = UserProcess f b" "\<forall>g. b = Some g \<longrightarrow> \<not> isl (g Map.empty)"
    unfolding exact_plan_def by fast
  then show "\<not> isl (case x of (name, p) \<Rightarrow> result_bind (if is_bindable p then bind_process p Map.empty else Inr p) (\<lambda>p. Inr (name, p)))"
    by (cases b) (simp_all add: x(1) isl_bind)
qed

text \<open>The finalizers of the plans, over the dictionary.\<close>

abbreviation plan_finalizers :: "(string \<times> ('v carrier, 'h) plan) list \<Rightarrow> (string \<times> ('v \<Rightarrow> 'v result)) list" where
  "plan_finalizers fixed \<equiv>
     List.map_filter (\<lambda>(n, p). map_option (\<lambda>f. (n, \<lambda>v. result_bind (f (Plain v)) (\<lambda>c. Inr (fst (split_carrier c))))) (pl_finalize p)) fixed"

lemma map_of_finalizers:
  "distinct (map fst fixed) \<Longrightarrow> (n, p) \<in> set fixed \<Longrightarrow> map_of (plan_finalizers fixed) n =
     map_option (\<lambda>f v. result_bind (f (Plain v)) (\<lambda>c. Inr (fst (split_carrier c)))) (pl_finalize p)"
proof (induction fixed)
  case (Cons x fixed)
  have none: "map_of (plan_finalizers ps) k = None" if "k \<notin> fst ` set ps" for k and ps :: "(string \<times> ('a carrier, 'b) plan) list"
    using that by (induction ps) (auto simp: map_filter_simps split: option.split)
  obtain m q where x: "x = (m, q)" by (cases x)
  show ?case
  proof (cases "(n, p) = x")
    case True
    have "n \<notin> fst ` set fixed" using Cons.prems(1) by (simp add: True [symmetric])
    from none [OF this] True show ?thesis by (cases "pl_finalize p") (auto simp: map_filter_simps)
  next
    case False
    with Cons.prems(2) have in': "(n, p) \<in> set fixed" by simp
    then have "n \<in> fst ` set fixed" by (rule rev_image_eqI) simp
    with Cons.prems(1) have "m \<noteq> n" unfolding x by force
    with Cons in' show ?thesis by (auto simp: x map_filter_simps split: option.split)
  qed
qed simp

lemma finalize_one:
  assumes "exact_plan p val cmb e fin"
  shows "(case map_option (\<lambda>f v. result_bind (f (Plain v)) (\<lambda>c. Inr (fst (split_carrier c)))) (pl_finalize p) of
      Some f \<Rightarrow> result_bind (f v) (\<lambda>v. Inr (n, v)) | None \<Rightarrow> Inr (n, v)) = result_bind (fin v) (\<lambda>v. Inr (n, v))"
  using assms by (cases "pl_finalize p"; cases "fin v") (auto simp: exact_plan_def)

lemma exact_run_value:
  assumes "exact_plan p val cmb e fin" "pl_stop p = None"
  shows "run_value p w = Some (map_sum id (Bare \<circ> Plain) (fin (foldl cmb e (map (val \<circ> task_partition) (ordered_tasks p)))))"
proof -
  from exact_run [OF assms(1), of w] obtain res where res: "fst (run_tasks p None None w) = Inr res"
    "er_value res = Bare (Plain (foldl cmb e (map (val \<circ> task_partition) (ordered_tasks p))))" by blast
  from assms(1) obtain f b where "pl_process p = UserProcess f b" "\<forall>g. b = Some g \<longrightarrow> \<not> isl (g Map.empty)"
    unfolding exact_plan_def by blast
  from run_value_tasks [OF this assms(2) res] assms(1) show ?thesis
    by (auto simp: exact_plan_def sum.map_comp split: option.splits)
qed

lemma route_plans_fixed:
  "route_plans subs route tasks = Inr (r, ts, fixed) \<Longrightarrow> (n, p) \<in> set fixed \<Longrightarrow> pl_stop p = None"
  by (induction subs arbitrary: route tasks fixed r ts) (auto simp: result_bind_Inr_iff split: sub_plan.splits if_splits)

lemma collate_routed:
  fixes subs :: "(string \<times> ('v, 'h) sub_plan) list"
  assumes "collate subs written = Inr (plan, services)" "distinct (map fst subs)"
    and "\<forall>(n, sub) \<in> set subs. \<forall>p ss. sub = TaskPlan p ss \<longrightarrow> exact_plan p (val n) (cmb n) (e n) (fin n)"
  obtains route tasks fixed where "routed fixed route tasks val cmb e fin" "same_plans subs fixed"
    "pl_process plan = collated_process (map (\<lambda>(n, p). (n, pl_process p)) fixed) route"
    "pl_combine plan = UserCombine (dictionary_combine fixed)" "pl_empty plan = Bare (Plain [])" "ordered_tasks plan = tasks"
    "pl_stop plan = None" "\<forall>(n, p) \<in> set fixed. pl_stop p = None"
    "pl_finalize plan = Some (\<lambda>v. result_bind (collated_finalize (plan_finalizers fixed) (fst (split_carrier v))) (\<lambda>d. Inr (Plain d)))"
proof -
  from assms(1) obtain route tasks fixed where r: "route_plans subs [] [] = Inr (route, tasks, fixed)"
    and plan: "pl_process plan = collated_process (map (\<lambda>(n, p). (n, pl_process p)) fixed) route"
      "pl_combine plan = UserCombine (dictionary_combine fixed)" "pl_empty plan = Bare (Plain [])" "pl_tasks plan = tasks" "pl_stop plan = None"
      "pl_finalize plan = Some (\<lambda>v. result_bind (collated_finalize (plan_finalizers fixed) (fst (split_carrier v))) (\<lambda>d. Inr (Plain d)))"
    by (auto simp: collate_def result_bind_Inr_iff Let_def split: if_splits)
  from route_plans_spec [OF r] have parts: "map task_partition tasks = map (task_partition \<circ> snd) (tagged_tasks fixed)"
    and own: "\<forall>(n, t) \<in> set (tagged_tasks fixed). map_of route (part_key t) = Some n" and keys: "map task_key tasks = map int [0..<length tasks]"
    and subs: "same_plans subs fixed" by simp_all
  have "map fst fixed = map fst subs" using subs by (induction rule: list_all2_induct) auto
  moreover have "exact_plan p (val n) (cmb n) (e n) (fin n)" if "(n, p) \<in> set fixed" for n p
    using same_plans_lookup(1) [OF subs that] assms(3) by blast
  ultimately have "routed fixed route tasks val cmb e fin" using parts own assms(2) unfolding routed_def by auto
  moreover have "ordered_tasks plan = tasks"
    using keys sorted_map_fst_py_enumerate [of tasks] by (simp add: ordered_tasks_def plan(4) map_fst_py_enumerate)
  moreover have "\<forall>(n, p) \<in> set fixed. pl_stop p = None" using route_plans_fixed [OF r] by blast
  ultimately show ?thesis using subs plan(1-3,5,6) that by blast
qed

lemma in_order_map: "in_order names m = map (\<lambda>n. (n, the (m n))) (List.filter (\<lambda>n. m n \<noteq> None) names)"
  by (induction names) (auto simp: in_order_def map_filter_simps split: option.split)

text \<open>The result of one plan, and the dictionary of values as the finalizers leave it.\<close>

definition own_result ::
  "(string \<times> ('v carrier, 'h) plan) list \<Rightarrow> (string \<Rightarrow> partition \<Rightarrow> 'v) \<Rightarrow> (string \<Rightarrow> 'v \<Rightarrow> 'v \<Rightarrow> 'v) \<Rightarrow> (string \<Rightarrow> 'v) \<Rightarrow> (string \<Rightarrow> 'v \<Rightarrow> 'v result) \<Rightarrow> string \<Rightarrow> 'v result" where
  "own_result fixed val cmb e fin n = fin n (foldl (cmb n) (e n) (map (val n \<circ> task_partition) (ordered_tasks (the (map_of fixed n)))))"

lemma own_resultI:
  "routed fixed route tasks val cmb e fin \<Longrightarrow> (n, p) \<in> set fixed \<Longrightarrow>
     own_result fixed val cmb e fin n = fin n (foldl (cmb n) (e n) (map (val n \<circ> task_partition) (ordered_tasks p)))"
  by (simp add: own_result_def map_of_is_SomeI [OF routedD(3)])

lemma finalized_dictionary:
  assumes r: "routed fixed route tasks val cmb e fin" and m: "m = foldl (joined cmb) Map.empty (map (routed_tag route val) tasks)"
  shows "collated_finalize (plan_finalizers fixed) (in_order (map fst fixed) m) =
    traverse (\<lambda>n. result_bind (own_result fixed val cmb e fin n) (\<lambda>v. Inr (n, v))) (List.filter (\<lambda>n. m n \<noteq> None) (map fst fixed))"
  unfolding collated_finalize_def in_order_map traverse_map
proof (rule traverse_cong [OF refl])
  fix n assume n: "n \<in> set (List.filter (\<lambda>n. m n \<noteq> None) (map fst fixed))"
  then obtain p where p: "(n, p) \<in> set fixed" by auto
  with n routed_some [OF r p] have v: "the (m n) = foldl (cmb n) (e n) (map (val n \<circ> task_partition) (ordered_tasks p))"
    by (auto simp: m split: if_splits)
  show "(case (n, the (m n)) of (name, v) \<Rightarrow> case map_of (plan_finalizers fixed) name of
        Some f \<Rightarrow> result_bind (f v) (\<lambda>v. Inr (name, v)) | None \<Rightarrow> Inr (name, v)) =
      result_bind (own_result fixed val cmb e fin n) (\<lambda>v. Inr (n, v))"
    unfolding prod.case map_of_finalizers [OF routedD(3) [OF r] p] own_resultI [OF r p] v by (rule finalize_one [OF routedD(4) [OF r p]])
qed

text \<open>
  C37. A collated plan computes what its plans compute. Its run, through its finalizers, gives a dictionary that
  names, in the order of the plans, exactly those that have tasks, and under each name the value that
  running that plan by itself, through its own finalizer, gives; when runs of the plans by themselves
  raise, it raises what the first of them does. Each task is run by its own plan's process, once, and values
  of different plans never meet.
\<close>
theorem collated_run_is_each_run:
  fixes subs :: "(string \<times> ('v, 'h) sub_plan) list"
  assumes "collate subs written = Inr (plan, services)" "distinct (map fst subs)"
    and "\<forall>(n, sub) \<in> set subs. \<forall>p ss. sub = TaskPlan p ss \<longrightarrow> exact_plan p (val n) (cmb n) (e n) (fin n)"
  shows "\<exists>own. (\<forall>(n, sub) \<in> set subs. \<exists>p ss. sub = TaskPlan p ss \<and> run_value p w = Some (map_sum id (Bare \<circ> Plain) (own n))) \<and>
    run_value plan w = Some (map_sum id (Bare \<circ> Plain) (traverse (\<lambda>n. result_bind (own n) (\<lambda>v. Inr (n, v)))
      (map fst (List.filter (\<lambda>(n, sub). \<exists>p ss. sub = TaskPlan p ss \<and> pl_tasks p \<noteq> []) subs))))"
proof -
  from collate_routed [OF assms] obtain route tasks fixed where r: "routed fixed route tasks val cmb e fin" and subs: "same_plans subs fixed"
    and plan: "pl_process plan = collated_process (map (\<lambda>(n, p). (n, pl_process p)) fixed) route"
      "pl_combine plan = UserCombine (dictionary_combine fixed)" "pl_empty plan = Bare (Plain [])" "ordered_tasks plan = tasks" "pl_stop plan = None"
    and fixed: "\<forall>(n, p) \<in> set fixed. pl_stop p = None"
    and after: "pl_finalize plan = Some (\<lambda>v. result_bind (collated_finalize (plan_finalizers fixed) (fst (split_carrier v))) (\<lambda>d. Inr (Plain d)))" .
  let ?M = "foldl (joined cmb) Map.empty (map (routed_tag route val) tasks)" and ?names = "map fst fixed"
  let ?own = "own_result fixed val cmb e fin"
  have alone: "\<exists>p ss. sub = TaskPlan p ss \<and> run_value p w = Some (map_sum id (Bare \<circ> Plain) (?own n))" if ns: "(n, sub) \<in> set subs" for n sub
  proof -
    from same_plans_lookup(2) [OF subs ns] obtain p ss where p: "sub = TaskPlan p ss" "(n, p) \<in> set fixed" by blast
    moreover have "pl_stop p = None" using fixed p(2) by blast
    ultimately show ?thesis using exact_run_value [OF routedD(4) [OF r p(2)], of w] own_resultI [OF r p(2)] by simp
  qed
  note proc = plan(1) [unfolded collated_process_def]
  from routed_loop [OF r proc plan(2), of w] obtain res where
    res: "fst (run_tasks plan None None w) = Inr res" "er_value res = Bare (Plain (in_order ?names ?M))"
    by (auto simp: fst_run_tasks plan(3,4))
  have bound: "\<forall>g. Some (\<lambda>endpoints. result_bind (collated_bind (map (\<lambda>(n, p). (n, pl_process p)) fixed) endpoints)
      (\<lambda>bound. Inr (UserProcess (collated_call bound route) None))) = Some g \<longrightarrow> \<not> isl (g Map.empty)"
    using collated_bind_bound [of fixed val cmb e fin] r unfolding routed_def by (auto simp: isl_bind)
  have names: "List.filter (\<lambda>n. ?M n \<noteq> None) ?names =
      map fst (List.filter (\<lambda>(n, sub). \<exists>p ss. sub = TaskPlan p ss \<and> pl_tasks p \<noteq> []) subs)"
    by (rule same_plans_names [OF subs]) (simp add: routed_some [OF r])
  have "run_value plan w = Some (map_sum id (Bare \<circ> Plain) (traverse (\<lambda>n. result_bind (?own n) (\<lambda>v. Inr (n, v)))
      (List.filter (\<lambda>n. ?M n \<noteq> None) ?names)))"
    using run_value_tasks [OF proc bound plan(5) res] finalized_dictionary [OF r refl]
    by (simp only: after option.case split_carrier.simps fst_conv map_sum_bind)
  with alone show ?thesis unfolding names by (intro exI [of _ ?own]) blast
qed

definition counting_plan :: "(int \<Rightarrow> int) option \<Rightarrow> partition list \<Rightarrow> (int carrier, unit) plan" where
  "counting_plan scale ps = \<lparr>pl_process = UserProcess (\<lambda>p r. (Inr (Plain (n_entries p)), r)) None, pl_combine = UserCombine (warned_combine (\<lambda>u v. Inr (u + v))),
     pl_empty = Bare (Plain 0), pl_tasks = map (\<lambda>(i, p). \<lparr>task_key = i, task_partition = p\<rparr>) (py_enumerate ps), pl_next_tasks = None, pl_stop = None,
     pl_open_once = False, pl_services = [], pl_finalize = map_option (\<lambda>f c. Inr (Plain (f (fst (split_carrier c))))) scale\<rparr>"

definition counted :: "(int \<Rightarrow> int) option \<Rightarrow> int \<Rightarrow> int result" where
  "counted scale v = Inr (case scale of None \<Rightarrow> v | Some f \<Rightarrow> f v)"

lemma exact_counting: "exact_plan (counting_plan scale ps) n_entries (+) 0 (counted scale)"
  by (cases scale) (auto simp: exact_plan_def counting_plan_def counted_def warned_combine_def rewarn_def)

lemma ordered_counting: "map task_partition (ordered_tasks (counting_plan scale ps)) = ps"
proof -
  have "sorted (map task_key (map (\<lambda>(i, p). \<lparr>task_key = i, task_partition = p\<rparr>) (py_enumerate ps)))"
    using sorted_map_fst_py_enumerate [of ps] by (simp add: o_def case_prod_unfold)
  then have "ordered_tasks (counting_plan scale ps) = map (\<lambda>(i, p). \<lparr>task_key = i, task_partition = p\<rparr>) (py_enumerate ps)"
    by (simp add: ordered_tasks_def counting_plan_def)
  then show ?thesis by (simp add: o_def case_prod_unfold map_snd_py_enumerate [unfolded py_enumerate_def] py_enumerate_def)
qed

lemma counting_value:
  "run_value (counting_plan scale ps) w = Some (map_sum id (Bare \<circ> Plain) (counted scale (foldl (+) 0 (map n_entries ps))))"
proof -
  have "pl_stop (counting_plan scale ps) = None" by (simp add: counting_plan_def)
  from exact_run_value [OF exact_counting this, of w] show ?thesis
    using ordered_counting [of scale ps] by (simp only: map_map [symmetric])
qed

text \<open>Three plans, of which the first scales its count and the scale has no tasks.\<close>

theorem collated_run_is_each_run_witness:
  "\<exists>plan services. collate [(''data'', TaskPlan (counting_plan (Some ((*) 10)) [mk_partition ''f'' ''t'' 0 5, mk_partition ''f'' ''t'' 5 9]) []),
       (''mc'', TaskPlan (counting_plan None [mk_partition ''g'' ''t'' 0 4]) []), (''none'', TaskPlan (counting_plan None []) [])] (\<lambda>_ _. Inr []) = Inr (plan, services) \<and>
     run_value plan \<lparr>w_monitor = (), w_resources = new_resources 1\<rparr> = Some (Inr (Bare (Plain [(''data'', 90), (''mc'', 4)])))"
proof -
  let ?data = "[mk_partition ''f'' ''t'' 0 5, mk_partition ''f'' ''t'' 5 9]" and ?mc = "[mk_partition ''g'' ''t'' 0 4]"
  let ?scale = "Some ((*) 10) :: (int \<Rightarrow> int) option"
  let ?subs = "[(''data'', TaskPlan (counting_plan ?scale ?data) []), (''mc'', TaskPlan (counting_plan None ?mc) []), (''none'', TaskPlan (counting_plan None []) [])]"
  let ?w = "\<lparr>w_monitor = (), w_resources = new_resources 1\<rparr> :: (unit, unit) world"
  have "\<exists>plan services. collate ?subs (\<lambda>_ _. Inr []) = Inr (plan, services)"
    by (simp add: collate_def counting_plan_def py_enumerate_def dict_setdefault_def collated_parts_def Let_def)
  then obtain plan services where c: "collate ?subs (\<lambda>_ _. Inr []) = Inr (plan, services)" by blast
  let ?fin = "\<lambda>n. counted (if n = ''data'' then ?scale else None)"
  have e: "\<forall>(n, sub) \<in> set ?subs. \<forall>p ss. sub = TaskPlan p ss \<longrightarrow> exact_plan p n_entries (+) 0 (?fin n)" by (auto simp: exact_counting)
  have dist: "distinct (map fst ?subs)" by simp
  have ne: "pl_tasks (counting_plan l ?data) \<noteq> []" "pl_tasks (counting_plan l ?mc) \<noteq> []" "pl_tasks (counting_plan l []) = []" for l
    by (simp_all add: counting_plan_def py_enumerate_def)
  then have names: "map fst (List.filter (\<lambda>(n, sub). \<exists>p ss. sub = TaskPlan p ss \<and> pl_tasks p \<noteq> []) ?subs) = [''data'', ''mc'']" by simp
  from collated_run_is_each_run [where val = "\<lambda>_. n_entries" and cmb = "\<lambda>_. (+)" and e = "\<lambda>_. 0" and fin = ?fin and w = ?w, OF c dist e]
  obtain own where own: "\<forall>(n, sub) \<in> set ?subs. \<exists>p ss. sub = TaskPlan p ss \<and> run_value p ?w = Some (map_sum id (Bare \<circ> Plain) (own n))"
    and run: "run_value plan ?w = Some (map_sum id (Bare \<circ> Plain) (traverse (\<lambda>n. result_bind (own n) (\<lambda>v. Inr (n, v))) [''data'', ''mc'']))"
    unfolding names by blast
  have "run_value (counting_plan ?scale ?data) ?w = Some (map_sum id (Bare \<circ> Plain) (own ''data''))"
    "run_value (counting_plan None ?mc) ?w = Some (map_sum id (Bare \<circ> Plain) (own ''mc''))"
    using own by auto
  then have "own ''data'' = Inr 90" "own ''mc'' = Inr 4"
    unfolding counting_value by (cases "own ''data''"; cases "own ''mc''"; simp add: counted_def n_entries_def)+
  with c run show ?thesis by (intro exI [of _ plan] exI [of _ services]) simp
qed

end
