(* ===== verification/Spec2Isabelle.thy ===== *)
theory Spec2Isabelle
  imports Partitioning Json Runner Shuffle_Resume Services Attribution Joined_Run Collated_Run
begin

text \<open>
  A verification library of the execution core of \<open>graphed\<close> (under \<open>src/python/graphed/\<close>; file names below
  are relative to it). \<open>graphed\<close> records an analysis as a graph, reduces it (in Rust), packs it into a
  plan of tasks over partitions of the input, runs the tasks, folds their results, and can do so against
  a store of checkpoints, in several stages with a shuffle between them, and with failures kept as values.

  \<^bold>\<open>How the parts interact.\<close> A front end makes partitions (Partitioning) and a plan: a process, a combine, an
  empty value, a finalizer and a list of tasks. A runner (Runner) reads the pause/cancel switch before each
  task, calls the process on the task's partition, folds, and tells a monitor. The process of an aggregation
  (Aggregate) reads the partition, evaluates the reduced graph (Evaluate) with a hook that attributes
  failures to the user's line (Attribution), and reduces; what the worker warned travels in its partial
  (Carried_Warnings). A plan that skips failed chunks wraps process, combine and finalizer (Execution).
  A durable plan (Durable_Plan) gives every task an id that hashes what the task computes; a resumable runner
  (Resume, Shuffle_Resume) looks the id up in the journal of a store (Journal, Store), checks the blob against
  its hash, and runs only what is missing, under a retry policy (Retry) and an environment record (Environment).
  A staged plan (Shuffle_Plan) has map tasks whose process writes one block per destination and gather tasks
  that read them back and join or reduce (Shuffle_Stages), with block operations of an array backend
  (Exchange, Numpy_Shuffle). Endpoints of services are bound into either kind of plan (Services).

  \<^bold>\<open>Theories, in the order of their imports.\<close>

  \<^item> \<open>Prelude\<close>: exceptions and the type \<open>exn + 'a\<close> that stands for raising, \<open>traverse\<close> (a list comprehension
    that may raise), state transformers \<open>act\<close>, insertion-ordered dictionaries, decimal texts.
  \<^item> \<open>Partitioning\<close> (\<open>core/execution.py\<close> \<open>Partition\<close>, \<open>core/plan.py\<close> \<open>partition_dataset(s)\<close>, \<open>write.py\<close>,
    \<open>parquet.py\<close>): chunks, blind steps, even splits and row groups cover their input once and in order; part
    indices and part paths of a write are distinct.
  \<^item> \<open>Json\<close>, \<open>Encoding\<close>: \<open>json.dumps\<close>/\<open>json.loads\<close>, UTF-8, base64, as the durable formats use them, with round trips.
  \<^item> \<open>Carried_Warnings\<close> (\<open>core/worker_warnings.py\<close>): the carrier, and the contract \<open>reduction\<close> of a combine.
  \<^item> \<open>Execution\<close> (\<open>core/execution.py\<close>): stop conditions, dead letters, \<open>skip_failed\<close>, reruns after a lost
    worker, the check for unbound services, the cache of open files.
  \<^item> \<open>Runner\<close> (\<open>core/execution.py\<close>): monitors, \<open>RunControl\<close>, \<open>SequentialRunner\<close> both as a function and as a
    step relation interleaved with the commands of other threads.
  \<^item> \<open>Durable_Plan\<close> (\<open>core/plan.py\<close>, \<open>core/services.py\<close>): documents, bytes and content-addressed ids.
  \<^item> \<open>Journal\<close>, \<open>Store\<close> (\<open>checkpoint/store.py\<close>, \<open>fsspec_store.py\<close>): logs of JSON lines with torn appends, the two stores.
  \<^item> \<open>Retry\<close>, \<open>Environment\<close>, \<open>Resume\<close>, \<open>Shuffle_Resume\<close> (\<open>checkpoint/retry.py\<close>, \<open>resume.py\<close>, \<open>runner.py\<close>).
  \<^item> \<open>Services\<close> (\<open>core/services.py\<close>, \<open>services.py\<close>): endpoint texts and binding.
  \<^item> \<open>Evaluate\<close>, \<open>Attribution\<close> (\<open>execute.py\<close>, \<open>errors.py\<close>, \<open>provenance.py\<close>): evaluation with released values
    against a recursive reference; frames, dead letters and error texts.
  \<^item> \<open>Exchange\<close>, \<open>Numpy_Shuffle\<close>, \<open>Numpy_Exchange\<close> (\<open>shuffle.py\<close> \<open>join_blocks\<close>, \<open>numpy/shuffle.py\<close>): the contract of
    a backend's block operations, the numpy operations, and what they guarantee.
  \<^item> \<open>Shuffle_Stages\<close>, \<open>Shuffle_Exchange\<close>, \<open>Shuffle_Plan\<close> (\<open>shuffle.py\<close>): the processes of the stages, what
    they make together, and the builders of staged plans.
  \<^item> \<open>Staged_Run\<close>, \<open>Joined_Run\<close> (\<open>core/execution.py\<close>, \<open>checkpoint/runner.py\<close>): runs of staged plans, plain, cancelled
    and against a store after crashes; the run of a join plan from its map tasks to the rows of the join.
  \<^item> \<open>Aggregate\<close>, \<open>Collated_Run\<close> (\<open>aggregate.py\<close>): folds of whole-dataset reductions, the process of a task,
    \<open>collate\<close>, and the value of a collated run. A whole-dataset reduction is stated without folds (\<open>reduces\<close>), as
    what the array backend documents of it.

  \<^bold>\<open>Interfaces.\<close> Where a client relies on laws of a provider they are the assumptions of a locale, proved for
  the model of the code by an interpretation:

  \<^item> \<open>tiling\<close> (Partitioning): bounds that cut a range into cells; interpreted by the blind steps, the chunks of
    a dataset and the pieces of a split.
  \<^item> \<open>reduction\<close>, \<open>warned_reduction\<close> (Carried_Warnings): a combine is associative with a right unit, so any tree over
    the partials gives the left fold; the warned combine of a reduction is one again (\<open>sublocale\<close>).
  \<^item> \<open>codec\<close> (Encoding): decoding what was encoded gives the canonical value; interpreted by UTF-8, base64 and
    the documents of operations, services, partitions, tasks and stages.
  \<^item> \<open>checkpoint_store\<close> (Store): puts, lookups and records over an abstract set of entries; interpreted by the
    local store and the store at a URL, so \<open>run_resumable\<close> is verified once for both.
  \<^item> \<open>exchange\<close> (Exchange): partition, concatenation, wire form, matching, gathering and merging of blocks;
    interpreted by the numpy backend, so the staged join is verified once for every backend that keeps it.

  \<^bold>\<open>Conventions.\<close> A Python \<open>str\<close> or \<open>bytes\<close> is a \<open>string\<close>, so code points above 255 are outside the model. Python's
  integers are \<open>int\<close>. Code that is not part of the repository is an argument: SHA-256 (a theorem that rests on
  its injectivity says so), pickles, numpy and pyarrow, the interpreter's registries, user callables and their
  state, the file system's decisions, clocks. Every \<open>raise\<close> is a value \<open>Inl e\<close>.

  \<^bold>\<open>Bounds and fuel.\<close> The JSON reader runs on fuel twice the length of the text plus two; \<open>parse_fuel\<close> (Json) shows
  that this is enough: more fuel never gives another answer.
  \<open>require_parts\<close>, which follows attributes of arbitrary objects, is a \<open>partial_function\<close>: that it returns on
  every finite structure is part of its property. The cones of a graph terminate because an input has a
  smaller id than its node. Packed keys are 64 bits wide, with the widths of their fields checked as in the code.

  \<^bold>\<open>Properties.\<close> Each property has its own text block where it is proved. In short: partitions cover and part paths
  differ; a run returns the fold of what it ran, with failures, cancels, monitors and interleavings accounted for; plans,
  logs and stores read back what was written, whatever crashed; a resumed run returns what an undisturbed run
  returns, as long as the staged plans that share its store agree on the ids they share; equal task ids of
  single-stage plans mean equal work; the evaluator computes its reference and names the user's line when
  it fails; an exchange moves each row once, and a join of the parts is the join of the whole; a collated run
  is each plan's own run.

  \<^bold>\<open>What modelling showed.\<close> Three behaviours differ from what the code says of itself: the id of a staged task leaves out
  what its stage reads (\<open>staged_task_id_content_addressed\<close>, Durable_Plan), so a result of a plan over other map
  partitions is taken for this one's; a record appended after a torn
  line is lost with it (\<open>torn_append_swallows_next\<close>, Journal), and the label of a capped blind partition shows the
  empty range \<open>0-0\<close> even when the file's entry count is known (\<open>capped_label_shows_no_range\<close>, Partitioning).

  \<^bold>\<open>Not modelled, and why.\<close> The graph store and its reductions (\<open>src/src\<close>) are Rust behind a binding, and
  \<open>session.py\<close>, \<open>array.py\<close>, \<open>context.py\<close> and the front ends under \<open>awkward/\<close> and \<open>numpy/\<close> (arrays, forms, functions,
  reductions, creation) mostly record nodes into it; \<open>aggregate_plan\<close> and the compile step call it and pack
  callables by value. The parquet, awkward and numpy readers and writers do input and output through third-party
  libraries. \<open>systematics/\<close>, \<open>projection.py\<close> and \<open>materialization.py\<close> rewrite recorded graphs. \<open>preserve/\<close> and
  the pickling half of \<open>checkpoint/resume.py\<close> serialize Python code objects. \<open>debug/\<close> renders reports and serves
  a dashboard. The notebooks under \<open>docs/\<close> are examples.
\<close>

end
